(* ===== verification/Prelude.thy ===== *)
theory Prelude
  imports Main "HOL-Library.Word" "HOL-Library.Multiset"
begin

text \<open>
  Shared vocabulary of the development: the machine integers of the crate, the faults an
  operation can end in, a bind for fallible computations, and the generic lemmas on lists
  and words that the components use.
\<close>

unbundle bit_operations_syntax

section \<open>Machine integers\<close>

text \<open>
  The crate is modelled for a 64-bit target. \<open>usize\<close> and \<open>isize\<close> are both 64-bit words:
  addition and subtraction wrap as the atomic \<open>fetch_add\<close> and \<open>fetch_sub\<close> do, and a word
  is read as a signed number with \<open>sint\<close> where the source has an \<open>isize\<close>.
\<close>

type_synonym usize = "64 word"
type_synonym isize = "64 word"

definition ISIZE_MIN :: isize where
  "ISIZE_MIN = push_bit 63 1"

lemma ISIZE_MIN_eq: "ISIZE_MIN = 2 ^ 63"
  by (simp add: ISIZE_MIN_def push_bit_eq_mult)

text \<open>Shifts and masks of a word, read as natural numbers.\<close>

lemma unat_drop_bit_div: "unat (drop_bit k w) = unat w div 2 ^ k" for w :: "'a::len word"
  by (simp only: unat_drop_bit_eq) (simp only: drop_bit_eq_div)

lemma unat_take_bit_mod: "unat (take_bit k w) = unat w mod 2 ^ k" for w :: "'a::len word"
  by (simp only: unsigned_take_bit_eq) (simp only: take_bit_eq_mod)

lemma bit_unat_odd: "bit w k \<longleftrightarrow> odd (unat w div 2 ^ k)" for w :: "'a::len word"
proof -
  have "bit w k \<longleftrightarrow> bit (unat w) k" by (simp add: bit_unsigned_iff)
  then show ?thesis by (simp add: bit_iff_odd)
qed

section \<open>Faults\<close>

text \<open>
  A panic is the program's own reaction to a violated assertion, \<open>Abort\<close> is its call of
  \<open>std::process::abort\<close>; \<open>UB\<close> is a step the Rust semantics or the documented contract of a
  library gives no meaning to.
\<close>

datatype ub =
    DoubleFree        \<comment> \<open>an alias family is dropped or taken although it is no longer alive\<close>
  | UseAfterFree      \<comment> \<open>a reference to a family that is no longer alive\<close>
  | UnwrapNone        \<comment> \<open>\<open>unwrap_unchecked\<close> on \<open>None\<close>\<close>
  | DuplicateKey      \<comment> \<open>\<open>insert_unique_unchecked\<close> with a key that is present\<close>
  | BadIndex          \<comment> \<open>\<open>get_unchecked_mut\<close> out of range, or an invalid enum value\<close>
  | DataRace          \<comment> \<open>two accesses of a cell, one of them a write, that nothing orders\<close>

datatype fault = Panic string | Abort | UB ub

type_synonym 'a res = "fault + 'a"

definition bind_res :: "'a res \<Rightarrow> ('a \<Rightarrow> 'b res) \<Rightarrow> 'b res" where
  "bind_res r f = (case r of Inl e \<Rightarrow> Inl e | Inr x \<Rightarrow> f x)"

lemma bind_res_simps [simp]:
  "bind_res (Inl e) f = Inl e"
  "bind_res (Inr x) f = f x"
  by (simp_all add: bind_res_def)

lemma bind_res_eq_Inr: "bind_res r f = Inr y \<longleftrightarrow> (\<exists>x. r = Inr x \<and> f x = Inr y)"
  by (cases r) simp_all

section \<open>Branch hints\<close>

text \<open>\<open>src/util/mod.rs\<close>: \<open>cold\<close> does nothing, the other two mark the branch that calls it and return the condition.\<close>

definition cold :: unit where
  "cold = ()"

definition likely :: "bool \<Rightarrow> bool" where
  [simp]: "likely b = (let u = (if \<not> b then cold else ()) in b)"

definition unlikely :: "bool \<Rightarrow> bool" where
  [simp]: "unlikely b = (let u = (if b then cold else ()) in b)"

section \<open>Machines\<close>

text \<open>
  A step is not enabled (\<open>None\<close>), ends the program with a fault, or gives the next state.
\<close>

type_synonym 's step = "'s res option"

abbreviation ok :: "'s \<Rightarrow> 's step" where
  "ok s \<equiv> Some (Inr s)"

text \<open>
  What a step function, its runs and its reachable states have in common, for the runs that use
  the \<open>allowed\<close> actions only.
\<close>

locale machine =
  fixes exec :: "'a \<Rightarrow> 's \<Rightarrow> 's step"
    and run :: "'a list \<Rightarrow> 's \<Rightarrow> 's step"
    and reach :: "'s \<Rightarrow> bool"
    and allowed :: "'a \<Rightarrow> bool"
  assumes run_Nil: "run [] s = ok s"
    and run_Cons: "run (a # as) s =
      (case exec a s of None \<Rightarrow> None | Some (Inl e) \<Rightarrow> Some (Inl e) | Some (Inr s') \<Rightarrow> run as s')"
    and reach_step: "reach s \<Longrightarrow> allowed a \<Longrightarrow> exec a s = Some (Inr s') \<Longrightarrow> reach s'"
begin

lemma run_ConsE:
  assumes "run (a # as) s = Some (Inr t)"
  obtains s' where "exec a s = Some (Inr s')" "run as s' = Some (Inr t)"
  using assms by (auto simp: run_Cons split: option.splits sum.splits)

lemma reach_run: "reach s \<Longrightarrow> list_all allowed as \<Longrightarrow> run as s = Some (Inr t) \<Longrightarrow> reach t"
proof (induction as arbitrary: s)
  case Nil
  then show ?case by (simp add: run_Nil)
next
  case (Cons a as)
  then show ?case by (auto elim!: run_ConsE intro: reach_step)
qed

lemma run_append:
  "run (as @ bs) s =
     (case run as s of None \<Rightarrow> None | Some (Inl e) \<Rightarrow> Some (Inl e) | Some (Inr t) \<Rightarrow> run bs t)"
  by (induction as arbitrary: s) (auto simp: run_Nil run_Cons split: option.splits sum.splits)

lemma run_snoc:
  "run (as @ [a]) s =
     (case run as s of None \<Rightarrow> None | Some (Inl e) \<Rightarrow> Some (Inl e) | Some (Inr t) \<Rightarrow> exec a t)"
  by (simp add: run_append run_Nil run_Cons split: option.splits sum.splits)

text \<open>A quantity that every step changes by \<open>f\<close> is folded along a run.\<close>

lemma run_fold:
  assumes "\<And>a s s'. reach s \<Longrightarrow> allowed a \<Longrightarrow> exec a s = Some (Inr s') \<Longrightarrow> q s' = f a (q s)"
  shows "reach s \<Longrightarrow> list_all allowed as \<Longrightarrow> run as s = Some (Inr t) \<Longrightarrow> q t = fold f as (q s)"
proof (induction as arbitrary: s)
  case Nil
  then show ?case by (simp add: run_Nil)
next
  case (Cons a as)
  then obtain s' where s': "exec a s = Some (Inr s')" "run as s' = Some (Inr t)" by (auto elim: run_ConsE)
  with Cons.prems have "reach s'" "list_all allowed as" by (auto intro: reach_step)
  with Cons.IH [OF this s'(2)] Cons.prems assms [OF _ _ s'(1)] show ?case by simp
qed

end

section \<open>Counting in lists\<close>

text \<open>The number of elements of a list that satisfy a predicate.\<close>

definition cnt :: "('a \<Rightarrow> bool) \<Rightarrow> 'a list \<Rightarrow> nat" where
  "cnt P xs = length (filter P xs)"

lemma cnt_Nil [simp]: "cnt P [] = 0"
  by (simp add: cnt_def)

lemma cnt_Cons [simp]: "cnt P (x # xs) = (if P x then Suc (cnt P xs) else cnt P xs)"
  by (simp add: cnt_def)

lemma cnt_append [simp]: "cnt P (xs @ ys) = cnt P xs + cnt P ys"
  by (simp add: cnt_def)

lemma cnt_update:
  "i < length xs \<Longrightarrow>
   cnt P (xs[i := y]) + (if P (xs ! i) then 1 else 0) = cnt P xs + (if P y then 1 else 0)"
proof (induction xs arbitrary: i)
  case Nil
  then show ?case by simp
next
  case (Cons x xs)
  then show ?case by (cases i) (auto split: if_splits)
qed

lemma cnt_cong: "(\<And>x. x \<in> set xs \<Longrightarrow> P x = Q x) \<Longrightarrow> cnt P xs = cnt Q xs"
  by (simp add: cnt_def cong: filter_cong)

lemma cnt_disj:
  "(\<And>x. x \<in> set xs \<Longrightarrow> \<not> (P x \<and> Q x)) \<Longrightarrow> cnt (\<lambda>x. P x \<or> Q x) xs = cnt P xs + cnt Q xs"
  by (induction xs) auto

lemma cnt_zero_iff: "cnt P xs = 0 \<longleftrightarrow> (\<forall>x\<in>set xs. \<not> P x)"
  by (auto simp: cnt_def filter_empty_conv)

lemma cnt_pos_iff: "0 < cnt P xs \<longleftrightarrow> (\<exists>x\<in>set xs. P x)"
  using cnt_zero_iff [of P xs] by auto

lemma cnt_nth_pos: "i < length xs \<Longrightarrow> P (xs ! i) \<Longrightarrow> 0 < cnt P xs"
  by (auto simp: cnt_pos_iff)

lemma cnt_mono: "(\<And>x. x \<in> set xs \<Longrightarrow> P x \<Longrightarrow> Q x) \<Longrightarrow> cnt P xs \<le> cnt Q xs"
  by (induction xs) auto

section \<open>Values of a map as a multiset\<close>

definition ran_mset :: "('a \<rightharpoonup> 'b) \<Rightarrow> 'b multiset" where
  "ran_mset A = image_mset (\<lambda>k. the (A k)) (mset_set (dom A))"

lemma ran_mset_empty [simp]: "ran_mset Map.empty = {#}"
  by (simp add: ran_mset_def)

lemma ran_mset_insert:
  "finite (dom A) \<Longrightarrow> A k = None \<Longrightarrow> ran_mset (A(k \<mapsto> e)) = add_mset e (ran_mset A)"
  by (auto simp: ran_mset_def domIff intro!: image_mset_cong)

lemma ran_mset_remove:
  assumes "finite (dom A)" "A k = Some e"
  shows "ran_mset A = add_mset e (ran_mset (A(k := None)))"
proof -
  have "A = (A(k := None))(k \<mapsto> e)" using assms(2) by auto
  then show ?thesis using assms(1) by (subst (1) \<open>A = _\<close>, subst ran_mset_insert) simp_all
qed

lemma ran_mset_update:
  assumes "finite (dom A)" "A k = Some e"
  shows "ran_mset (A(k \<mapsto> e')) = add_mset e' (ran_mset (A(k := None)))"
  using ran_mset_insert [of "A(k := None)" k e'] assms by simp

lemma set_ran_mset: "finite (dom A) \<Longrightarrow> set_mset (ran_mset A) = ran A"
  by (force simp: ran_mset_def ran_def image_def)

lemma mset_set_take:
  assumes "add_mset f X = mset_set A"
  shows "f \<in> A" "X = mset_set (A - {f})"
proof -
  have fin: "finite A" using assms by (metis empty_not_add_mset mset_set.infinite)
  have "f \<in># mset_set A" using assms by (metis union_single_eq_member)
  then show "f \<in> A" using fin by simp
  then show "X = mset_set (A - {f})" using assms fin by (simp add: mset_set_Diff flip: assms)
qed

lemma mset_set_give:
  "X = mset_set A \<Longrightarrow> finite A \<Longrightarrow> f \<notin> A \<Longrightarrow> add_mset f X = mset_set (insert f A)"
  by simp

lemma distinct_mset_set:
  assumes "finite A" "mset xs = mset_set A"
  shows "distinct xs"
proof -
  have "set xs = A" using assms by (metis finite_set_mset_mset_set set_mset_mset)
  then show ?thesis using assms by (simp add: distinct_count_atmost_1 count_mset_set')
qed

end
