(* ===== verification/Store.thy ===== *)
theory Store
  imports Prelude
begin

text \<open>
  \<open>src/core/store.rs\<close>: the index type that selects one of the two maps, and access to the
  array of the two maps.
\<close>

section \<open>Map indices\<close>

datatype MapIndex = First | Second

fun as_usize :: "MapIndex \<Rightarrow> usize" where
  "as_usize First = 0"
| "as_usize Second = 1"

text \<open>The transmute has a meaning only on the two discriminants of the enum.\<close>

definition from_usize_unchecked :: "usize \<Rightarrow> MapIndex res" where
  "from_usize_unchecked index =
     (if index = 0 then Inr First else if index = 1 then Inr Second else Inl (UB BadIndex))"

fun other :: "MapIndex \<Rightarrow> MapIndex" where
  "other First = Second"
| "other Second = First"

lemma other_other [simp]: "other (other i) = i"
  by (cases i) simp_all

lemma other_neq [simp]: "other i \<noteq> i" "i \<noteq> other i"
  by (cases i; simp)+

lemma neq_iff_other: "i \<noteq> j \<longleftrightarrow> i = other j"
  by (cases i; cases j) simp_all

lemma from_usize_as_usize [simp]: "from_usize_unchecked (as_usize i) = Inr i"
  by (cases i) (simp_all add: from_usize_unchecked_def)

section \<open>The map array\<close>

text \<open>
  \<open>MapArray\<close> is a two-element array. \<open>OwnedMapAccess\<close> and \<open>SharedMapAccess\<close> hold one pointer
  to it, so \<open>share\<close> and \<open>clone\<close> give access to the same array, and \<open>get\<close> selects a cell.
\<close>

record 'm MapArray =
  first_map :: 'm
  second_map :: 'm

fun map_get :: "'m MapArray \<Rightarrow> MapIndex \<Rightarrow> 'm" where
  "map_get a First = first_map a"
| "map_get a Second = second_map a"

fun map_put :: "'m MapArray \<Rightarrow> MapIndex \<Rightarrow> 'm \<Rightarrow> 'm MapArray" where
  "map_put a First m = a\<lparr>first_map := m\<rparr>"
| "map_put a Second m = a\<lparr>second_map := m\<rparr>"

lemma map_get_put [simp]:
  "map_get (map_put a i m) j = (if i = j then m else map_get a j)"
  by (cases i; cases j) simp_all

end
