(* ===== verification/RefCount.thy ===== *)
theory RefCount
  imports Store
begin

text \<open>
  \<open>src/core/refcount.rs\<close>: the per-handle reference count. One machine word carries the
  index of the map new guards read (its most significant bit) and the number of live
  guards. Each operation is the single atomic read-modify-write of the source: it takes
  the old value of the word and gives the new one beside its result.
\<close>

section \<open>Constants and operations\<close>

definition MAP_INDEX_FLAG :: usize where
  "MAP_INDEX_FLAG = push_bit 63 1"

definition COUNT_OVERFLOW_BIT :: usize where
  "COUNT_OVERFLOW_BIT = drop_bit 1 MAP_INDEX_FLAG"

definition COUNT_MASK :: usize where
  "COUNT_MASK = MAP_INDEX_FLAG - 1"

definition refcount_new :: "MapIndex \<Rightarrow> usize" where
  "refcount_new read_index = push_bit 63 (as_usize read_index)"

definition to_map_index :: "usize \<Rightarrow> MapIndex res" where
  "to_map_index v = from_usize_unchecked (drop_bit 63 v)"

definition increment :: "usize \<Rightarrow> MapIndex res \<times> usize" where
  "increment old_value =
     (if old_value AND COUNT_OVERFLOW_BIT \<noteq> 0 then Inl Abort else to_map_index old_value,
      old_value + 1)"

definition decrement :: "usize \<Rightarrow> MapIndex res \<times> usize" where
  "decrement old_value = (to_map_index old_value, old_value - 1)"

definition swap_maps :: "usize \<Rightarrow> usize \<times> usize" where
  "swap_maps old_value = (old_value AND COUNT_MASK, old_value + MAP_INDEX_FLAG)"

section \<open>The word as a pair of an index and a count\<close>

definition encode :: "MapIndex \<Rightarrow> nat \<Rightarrow> usize" where
  "encode i n = refcount_new i + of_nat n"

lemma MAP_INDEX_FLAG_eq: "MAP_INDEX_FLAG = 2 ^ 63"
  by (simp add: MAP_INDEX_FLAG_def push_bit_eq_mult)

lemma COUNT_OVERFLOW_BIT_eq: "COUNT_OVERFLOW_BIT = 2 ^ 62"
  by (simp add: COUNT_OVERFLOW_BIT_def MAP_INDEX_FLAG_def)

lemma COUNT_MASK_eq: "COUNT_MASK = mask 63"
  by (simp add: COUNT_MASK_def MAP_INDEX_FLAG_eq mask_eq_exp_minus_1)

lemma refcount_new_eq: "refcount_new i = (case i of First \<Rightarrow> 0 | Second \<Rightarrow> 2 ^ 63)"
  by (cases i) (simp_all add: refcount_new_def push_bit_eq_mult)

lemma unat_encode:
  assumes "n < 2 ^ 63"
  shows "unat (encode i n) = (case i of First \<Rightarrow> 0 | Second \<Rightarrow> 2 ^ 63) + n"
  using assms by (cases i) (simp_all add: encode_def refcount_new_eq unat_word_ariths unat_of_nat)

lemma encode_0: "encode i 0 = refcount_new i"
  by (simp add: encode_def)

lemma encode_Suc: "encode i (Suc n) = encode i n + 1"
  by (simp add: encode_def)

lemma encode_inject:
  assumes "m < 2 ^ 63" "n < 2 ^ 63"
  shows "encode i m = encode j n \<longleftrightarrow> i = j \<and> m = n"
proof
  assume "encode i m = encode j n"
  then have "unat (encode i m) = unat (encode j n)" by simp
  with assms show "i = j \<and> m = n"
    by (cases i; cases j) (simp_all add: unat_encode)
qed simp

lemma drop_bit_encode:
  assumes "n < 2 ^ 63"
  shows "drop_bit 63 (encode i n) = as_usize i"
proof (rule word_unat_eq_iff [THEN iffD2])
  show "unat (drop_bit 63 (encode i n)) = unat (as_usize i)"
    using assms
    by (cases i) (simp_all add: unat_drop_bit_div unat_encode)
qed

lemma to_map_index_encode:
  "n < 2 ^ 63 \<Longrightarrow> to_map_index (encode i n) = Inr i"
  by (simp add: to_map_index_def drop_bit_encode)

lemma odd_div_62: "n < 2 ^ 63 \<Longrightarrow> odd (n div 2 ^ 62) \<longleftrightarrow> 2 ^ 62 \<le> n" for n :: nat
proof -
  assume n: "n < 2 ^ 63"
  then have "n div 2 ^ 62 < 2" by (simp add: less_mult_imp_div_less)
  then have "odd (n div 2 ^ 62) \<longleftrightarrow> n div 2 ^ 62 \<noteq> 0" by (auto simp: less_2_cases_iff)
  also have "\<dots> \<longleftrightarrow> 2 ^ 62 \<le> n" by (simp add: div_eq_0_iff not_less)
  finally show ?thesis .
qed

lemma overflow_bit_encode:
  assumes "n < 2 ^ 63"
  shows "encode i n AND COUNT_OVERFLOW_BIT \<noteq> 0 \<longleftrightarrow> 2 ^ 62 \<le> n"
proof -
  have "encode i n AND COUNT_OVERFLOW_BIT \<noteq> 0 \<longleftrightarrow> bit (encode i n) 62"
    by (simp only: COUNT_OVERFLOW_BIT_eq and_exp_eq_0_iff_not_bit not_not)
  also have "\<dots> \<longleftrightarrow> 2 ^ 62 \<le> n"
  proof (cases i)
    case First
    with odd_div_62 [OF assms] show ?thesis
      by (simp only: bit_unat_odd unat_encode [OF assms]) simp
  next
    case Second
    have "(2 ^ 63 + n) div 2 ^ 62 = 2 + n div 2 ^ 62"
      by (rule div_plus_div_distrib_dvd_left [of "2 ^ 62" "2 ^ 63" n, THEN trans]) simp_all
    with Second odd_div_62 [OF assms] show ?thesis
      by (simp only: bit_unat_odd unat_encode [OF assms]) simp
  qed
  finally show ?thesis .
qed

lemma count_mask_encode:
  assumes "n < 2 ^ 63"
  shows "encode i n AND COUNT_MASK = of_nat n"
proof (rule word_unat_eq_iff [THEN iffD2])
  have "unat (encode i n AND COUNT_MASK) = unat (encode i n) mod 2 ^ 63"
    by (simp only: COUNT_MASK_eq unat_take_bit_mod flip: take_bit_eq_mask)
  also have "\<dots> = n"
    using assms by (cases i) (simp_all add: unat_encode)
  finally show "unat (encode i n AND COUNT_MASK) = unat (of_nat n :: usize)"
    using assms by (simp add: unat_of_nat)
qed

lemma encode_flip: "encode i n + MAP_INDEX_FLAG = encode (other i) n"
proof -
  have "(2 ^ 63 + 2 ^ 63 :: usize) = 0" by simp
  then show ?thesis
    by (cases i) (simp_all add: encode_def MAP_INDEX_FLAG_eq refcount_new_eq)
qed

section \<open>The contract of a reference count\<close>

text \<open>
  What the readers and the writer rely on: a count that starts at zero, moves by one, is
  handed to the writer by \<open>swap\<close>, and an index that only \<open>swap\<close> changes. \<open>lim\<close> is the count
  at which an increment aborts.
\<close>

datatype rc_event = Inc | Dec | Swap

text \<open>What the caller is told: the map index, by an increment or a decrement, or the count, by a swap.\<close>

datatype 'c rc_answer = Index MapIndex | Count 'c

definition rc_then :: "'a \<Rightarrow> ('a list \<times> 's) res \<Rightarrow> ('a list \<times> 's) res" where
  "rc_then x r = bind_res r (\<lambda>(xs, s). Inr (x # xs, s))"

text \<open>
  The specification, on an index and a number of guards: every answer, and the abort of an increment at the limit.
\<close>

fun rc_spec :: "nat \<Rightarrow> rc_event list \<Rightarrow> MapIndex \<times> nat \<Rightarrow> (nat rc_answer list \<times> MapIndex \<times> nat) res" where
  "rc_spec lim [] s = Inr ([], s)"
| "rc_spec lim (Inc # es) (i, n) =
     (if n < lim then rc_then (Index i) (rc_spec lim es (i, Suc n)) else Inl Abort)"
| "rc_spec lim (Dec # es) (i, n) = rc_then (Index i) (rc_spec lim es (i, n - 1))"
| "rc_spec lim (Swap # es) (i, n) = rc_then (Count n) (rc_spec lim es (other i, n))"

text \<open>No guard is dropped that is not there.\<close>

fun rc_balanced :: "rc_event list \<Rightarrow> nat \<Rightarrow> bool" where
  "rc_balanced [] n = True"
| "rc_balanced (Inc # es) n = rc_balanced es (Suc n)"
| "rc_balanced (Dec # es) n = (0 < n \<and> rc_balanced es (n - 1))"
| "rc_balanced (Swap # es) n = rc_balanced es n"

locale guard_counter =
  fixes inc :: "'w \<Rightarrow> MapIndex res \<times> 'w"
    and dec :: "'w \<Rightarrow> MapIndex res \<times> 'w"
    and swp :: "'w \<Rightarrow> 'c \<times> 'w"
    and enc :: "MapIndex \<Rightarrow> nat \<Rightarrow> 'w"
    and cast :: "nat \<Rightarrow> 'c"
    and lim :: nat
  assumes inc_law: "n < lim \<Longrightarrow> inc (enc i n) = (Inr i, enc i (Suc n))"
    and inc_abort: "fst (inc (enc i lim)) = Inl Abort"
    and dec_law: "0 < n \<Longrightarrow> n \<le> lim \<Longrightarrow> dec (enc i n) = (Inr i, enc i (n - 1))"
    and swp_law: "n \<le> lim \<Longrightarrow> swp (enc i n) = (cast n, enc (other i) n)"
begin

text \<open>The operations one after the other, with every answer; a fault ends the run.\<close>

fun rc_run :: "rc_event list \<Rightarrow> 'w \<Rightarrow> ('c rc_answer list \<times> 'w) res" where
  "rc_run [] w = Inr ([], w)"
| "rc_run (Inc # es) w = (case inc w of (r, w') \<Rightarrow> bind_res r (\<lambda>i. rc_then (Index i) (rc_run es w')))"
| "rc_run (Dec # es) w = (case dec w of (r, w') \<Rightarrow> bind_res r (\<lambda>i. rc_then (Index i) (rc_run es w')))"
| "rc_run (Swap # es) w = (case swp w of (c, w') \<Rightarrow> rc_then (Count c) (rc_run es w'))"

definition rc_concrete :: "(nat rc_answer list \<times> MapIndex \<times> nat) res \<Rightarrow> ('c rc_answer list \<times> 'w) res" where
  "rc_concrete r = bind_res r (\<lambda>(xs, i, n). Inr (map (map_rc_answer cast) xs, enc i n))"

lemma rc_concrete_then: "rc_concrete (rc_then x r) = rc_then (map_rc_answer cast x) (rc_concrete r)"
  by (cases r) (auto simp: rc_concrete_def rc_then_def)

lemma run_refines:
  "n \<le> lim \<Longrightarrow> rc_balanced es n \<Longrightarrow> rc_run es (enc i n) = rc_concrete (rc_spec lim es (i, n))"
proof (induction es arbitrary: i n)
  case Nil
  then show ?case by (simp add: rc_concrete_def)
next
  case (Cons e es)
  show ?case
  proof (cases e)
    case Inc
    show ?thesis
    proof (cases "n < lim")
      case True
      with Cons show ?thesis by (simp add: Inc inc_law rc_concrete_then)
    next
      case False
      with Cons.prems(1) have "n = lim" by simp
      then show ?thesis using inc_abort [of i] by (cases "inc (enc i lim)") (simp add: Inc rc_concrete_def)
    qed
  next
    case Dec
    with Cons show ?thesis by (simp add: dec_law rc_concrete_then)
  next
    case Swap
    with Cons show ?thesis by (simp add: swp_law rc_concrete_then)
  qed
qed

end

lemma increment_encode:
  "n < 2 ^ 63 \<Longrightarrow>
   increment (encode i n) = (if n < 2 ^ 62 then Inr i else Inl Abort, encode i (Suc n))"
  using overflow_bit_encode [of n i]
  by (simp add: increment_def to_map_index_encode encode_Suc not_less)

lemma decrement_encode:
  assumes "0 < n" "n < 2 ^ 63"
  shows "decrement (encode i n) = (Inr i, encode i (n - 1))"
proof -
  from assms(1) obtain m where "n = Suc m" by (cases n) auto
  with assms(2) show ?thesis
    by (simp add: decrement_def to_map_index_encode) (simp add: encode_Suc)
qed

lemma swap_maps_encode:
  "n < 2 ^ 63 \<Longrightarrow> swap_maps (encode i n) = (of_nat n, encode (other i) n)"
  by (simp add: swap_maps_def count_mask_encode encode_flip)

interpretation word_rc: guard_counter increment decrement swap_maps encode of_nat "2 ^ 62"
  by unfold_locales
    (simp_all add: increment_encode decrement_encode swap_maps_encode)

lemma encode_surj: "\<exists>i n. n < 2 ^ 63 \<and> v = encode i n"
proof (cases "unat v < 2 ^ 63")
  case True
  then have "v = encode First (unat v)"
    by (simp add: encode_def refcount_new_eq)
  with True show ?thesis by blast
next
  case False
  define n where "n = unat v - 2 ^ 63"
  have n: "n < 2 ^ 63" using unsigned_less [of v, where 'a = nat] by (simp add: n_def)
  have "unat v = unat (encode Second n)"
    using False by (simp only: unat_encode [OF n]) (simp add: n_def)
  then have "v = encode Second n" by (simp only: word_unat_eq_iff)
  with n show ?thesis by blast
qed

section \<open>Properties\<close>

text \<open>
  C25: starting from a fresh reference count, any sequence of increments, decrements and map swaps in which no guard is
  dropped that was not taken behaves as on a pair of a map index and a number of guards. Every answer is the
  right one: increments and decrements report the index of the map, which only swaps change, and a swap reports the
  number of guards. The word left behind encodes the index and the number, neither field spilling into the
  other, and the sequence is cut short by an abort exactly at an increment that finds \<open>2 ^ 62\<close> guards.
\<close>

theorem refcount_tracks_guards:
  assumes "rc_balanced es 0"
  shows "word_rc.rc_run es (refcount_new i) =
     (case rc_spec (2 ^ 62) es (i, 0) of
        Inl e \<Rightarrow> Inl e
      | Inr (answers, j, n) \<Rightarrow> Inr (map (map_rc_answer of_nat) answers, encode j n))"
  using word_rc.run_refines [OF _ assms, of i]
  by (simp add: encode_0 word_rc.rc_concrete_def bind_res_def split: sum.splits)

theorem refcount_tracks_guards_witness:
  "word_rc.rc_run [Inc, Inc, Swap, Dec, Inc] (refcount_new First)
     = Inr ([Index First, Index First, Count 2, Index Second, Index Second], encode Second 2)"
proof -
  have "rc_spec (2 ^ 62) [Inc, Inc, Swap, Dec, Inc] (First, 0)
      = Inr ([Index First, Index First, Count 2, Index Second, Index Second], Second, 2)"
    by (simp add: rc_then_def)
  then show ?thesis using refcount_tracks_guards [of "[Inc, Inc, Swap, Dec, Inc]" First] by simp
qed

text \<open>
  On every word the unchecked transmute of the map index is defined, an increment
  either reports the index or aborts, and it aborts exactly when bit 62 of the old value
  is set.
\<close>

lemma increment_total:
  "(\<exists>i. increment v = (Inr i, v + 1) \<and> \<not> bit v 62) \<or> (increment v = (Inl Abort, v + 1) \<and> bit v 62)"
proof -
  obtain i n where n: "n < 2 ^ 63" and v: "v = encode i n"
    using encode_surj by blast
  have "v AND COUNT_OVERFLOW_BIT \<noteq> 0 \<longleftrightarrow> bit v 62"
    by (simp only: COUNT_OVERFLOW_BIT_eq and_exp_eq_0_iff_not_bit not_not)
  then show ?thesis
    using to_map_index_encode [OF n, of i] by (auto simp: increment_def v)
qed

text \<open>
  The count returned by \<open>swap_maps\<close> always satisfies \<open>0 \<le> c \<le> isize::MAX\<close>, so the cast to
  \<open>isize\<close> in \<open>publish\<close> is not lossy, and swapping twice restores the word.
\<close>

lemma swap_maps_bounds:
  "0 \<le> sint (fst (swap_maps v)) \<and> sint (fst (swap_maps v)) = uint (fst (swap_maps v))
   \<and> snd (swap_maps (snd (swap_maps v))) = v"
proof -
  obtain i n where n: "n < 2 ^ 63" and v: "v = encode i n"
    using encode_surj by blast
  have "uint (of_nat n :: usize) = int n"
    using n by (simp add: uint_nat unat_of_nat)
  moreover have "sint (of_nat n :: usize) = int n"
    using n by (simp add: signed_of_nat signed_take_bit_int_eq_self)
  ultimately show ?thesis
    by (simp add: v swap_maps_encode [OF n])
qed

text \<open>
  The packing of the index and the count into one word loses nothing. Every word is the encoding of the
  index that \<open>to_map_index\<close> reads from it and the count that \<open>COUNT_MASK\<close> selects, and from the encoding of any index and any
  count below \<open>2 ^ 63\<close> both are read back.
\<close>

lemma refcount_word_round_trip:
  "(\<exists>i. to_map_index v = Inr i \<and> encode i (unat (v AND COUNT_MASK)) = v)
   \<and> to_map_index (encode i (n mod 2 ^ 63)) = Inr i
   \<and> unat (encode i (n mod 2 ^ 63) AND COUNT_MASK) = n mod 2 ^ 63"
proof -
  obtain j m where m: "m < 2 ^ 63" and v: "v = encode j m" using encode_surj by blast
  have unat_l: "unat (of_nat l :: usize) = l" if "l < 2 ^ 63" for l
    using that by (simp add: unat_of_nat)
  have n: "n mod 2 ^ 63 < 2 ^ 63" by simp
  show ?thesis
    using m n by (auto simp only: v to_map_index_encode count_mask_encode unat_l)
qed

text \<open>
  C28: the operations on an arbitrary reference count word, whatever its bits. The packing of index and count loses nothing:
  the word is rebuilt from the index and the count read from it, and every index and every count below \<open>2 ^ 63\<close> are
  read back from their encoding. The transmute of the index is always defined; an increment aborts exactly when bit
  62 of the old value is set and reports the index otherwise; the count that \<open>swap_maps\<close> returns is never negative as an
  \<open>isize\<close>, and swapping twice restores the word.
\<close>

theorem refcount_word_operations:
  "(\<exists>i. to_map_index v = Inr i \<and> encode i (unat (v AND COUNT_MASK)) = v)
   \<and> to_map_index (encode i (n mod 2 ^ 63)) = Inr i
   \<and> unat (encode i (n mod 2 ^ 63) AND COUNT_MASK) = n mod 2 ^ 63
   \<and> ((\<exists>i. increment v = (Inr i, v + 1) \<and> \<not> bit v 62) \<or> (increment v = (Inl Abort, v + 1) \<and> bit v 62))
   \<and> 0 \<le> sint (fst (swap_maps v)) \<and> sint (fst (swap_maps v)) = uint (fst (swap_maps v))
   \<and> snd (swap_maps (snd (swap_maps v))) = v"
  using refcount_word_round_trip [of v i n] increment_total [of v] swap_maps_bounds [of v] by blast

end
