(* ===== verification/Protocol.thy ===== *)
theory Protocol
  imports RefCount "HOL-Library.AList"
begin

text \<open>
  \<open>src/core/mod.rs\<close> with the handles and guards of \<open>src/read.rs\<close>: the shared \<open>Core\<close> and the
  protocol between one writer and any number of read guards, as a state machine. Every
  step is one atomic access of the source (one read-modify-write, load or store of an
  atomic, one section under the mutex, one access of the \<open>writer_thread\<close> cell), and the
  steps of the threads interleave freely (sequential consistency; \<open>Ordering\<close> adds the
  orderings the source asks for).
\<close>

section \<open>State\<close>

type_synonym tid = nat
type_synonym slab_key = nat

text \<open>
  A read guard: \<open>Live\<close> while the user holds it; the other phases are the program points of
  its \<open>drop\<close>, up to \<open>Released\<close>.
\<close>

datatype guard_phase =
    Live         \<comment> \<open>held by the user\<close>
  | Releasing    \<comment> \<open>\<open>decrement\<close> saw the other index: before the \<open>fetch_sub\<close> of \<open>release_residual\<close>\<close>
  | ZeroStore    \<comment> \<open>the \<open>fetch_sub\<close> returned \<open>isize::MIN + 1\<close>: before \<open>residual.store(0)\<close>\<close>
  | Unparking    \<comment> \<open>before the read of \<open>writer_thread\<close> and the \<open>unpark\<close>\<close>
  | Released     \<comment> \<open>dropped\<close>

record ReadGuard =
  refcount_key :: slab_key
  map_index :: MapIndex
  phase :: guard_phase

text \<open>Who called \<open>synchronize\<close>, and the program points of the write handle.\<close>

datatype sync_caller = BySynchronize | ByGuard | ByReclaimer | ByDrop

datatype writer_pc =
    Idle                                   \<comment> \<open>no call in progress, no write guard\<close>
  | SyncLoad sync_caller                   \<comment> \<open>line 132\<close>
  | SyncSetThread sync_caller              \<comment> \<open>lines 135-136\<close>
  | SyncFetchAdd sync_caller               \<comment> \<open>line 138\<close>
  | SyncPark sync_caller                   \<comment> \<open>line 143\<close>
  | SyncReload sync_caller                 \<comment> \<open>lines 145-150\<close>
  | SyncStoreZero sync_caller              \<comment> \<open>line 153\<close>
  | Flushing                               \<comment> \<open>\<open>guard\<close>: after \<open>synchronize\<close>, re-applying the log\<close>
  | Writing                                \<comment> \<open>a write guard is live\<close>
  | PubLock                                \<comment> \<open>lines 165-169\<close>
  | PubSetMap                              \<comment> \<open>line 172\<close>
  | PubSwap "slab_key list" isize          \<comment> \<open>the loop of lines 178-188: keys to do, \<open>initial_residual\<close>\<close>
  | PubUnlock isize                        \<comment> \<open>line 190\<close>
  | PubFetchAdd isize                      \<comment> \<open>line 192\<close>
  | Reclaiming                             \<comment> \<open>the closure of \<open>reclaimer\<close> is live\<close>
  | Closing                                \<comment> \<open>\<open>drop\<close> of the handle: after \<open>synchronize\<close>\<close>
  | Closed                                 \<comment> \<open>the write handle is gone\<close>

text \<open>
  The fields of \<open>Core\<close> but the maps. The slab is an association list from the keys it gave
  out to the words of the reference counts; \<open>refcounts_locked\<close> is the mutex around it.
\<close>

record Core =
  residual :: isize
  refcounts :: "(slab_key \<times> usize) list"
  refcounts_locked :: bool
  writer_thread :: "tid option"
  writer_map :: MapIndex

text \<open>
  The whole protocol state: the core, every read guard ever created (a guard keeps its
  position in the list), the program point and the thread of the write handle, and the
  park token of each thread.
\<close>

record state = Core +
  guards :: "ReadGuard list"
  writer :: writer_pc
  writer_tid :: tid
  tokens :: "tid \<Rightarrow> bool"

section \<open>Construction\<close>

text \<open>
  \<open>build_map\<close>: no residual readers, the writer starts on the second map, and
  \<open>new_reader\<close> allocates the first reference count. \<open>key\<close> is the key the slab returns.
\<close>

definition new_reader :: "slab_key \<Rightarrow> state \<Rightarrow> state step" where
  "new_reader key s =
     (if refcounts_locked s \<or> key \<in> fst ` set (refcounts s) then None
      else ok (s\<lparr>refcounts := refcounts s @ [(key, refcount_new (other (writer_map s)))]\<rparr>))"

definition build_core :: "tid \<Rightarrow> state" where
  "build_core t =
     \<lparr>residual = 0, refcounts = [], refcounts_locked = False, writer_thread = None,
      writer_map = Second, guards = [], writer = Idle, writer_tid = t, tokens = (\<lambda>_. False)\<rparr>"

definition build_map :: "tid \<Rightarrow> slab_key \<Rightarrow> state step" where
  "build_map t key = new_reader key (build_core t)"

section \<open>Read handles and read guards\<close>

text \<open>\<open>Clone\<close> and \<open>Drop\<close> of a read handle; a handle outlives its guards, which borrow it.\<close>

definition clone_reader :: "slab_key \<Rightarrow> slab_key \<Rightarrow> state \<Rightarrow> state step" where
  "clone_reader from key s = (if from \<in> fst ` set (refcounts s) then new_reader key s else None)"

definition release_refcount :: "slab_key \<Rightarrow> state \<Rightarrow> state step" where
  "release_refcount key s =
     (if refcounts_locked s \<or> key \<notin> fst ` set (refcounts s)
         \<or> (\<exists>g\<in>set (guards s). refcount_key g = key \<and> phase g \<noteq> Released) then None
      else ok (s\<lparr>refcounts := AList.delete key (refcounts s)\<rparr>))"

text \<open>\<open>ReadHandle::guard\<close>: one \<open>increment\<close>, whose result selects the map.\<close>

definition read_guard :: "slab_key \<Rightarrow> state \<Rightarrow> state step" where
  "read_guard key s =
     (case map_of (refcounts s) key of
        None \<Rightarrow> None
      | Some v \<Rightarrow>
          (let (r, v') = increment v in
           Some (bind_res r (\<lambda>i. Inr (s\<lparr>
             refcounts := AList.update key v' (refcounts s),
             guards := guards s @ [\<lparr>refcount_key = key, map_index = i, phase = Live\<rparr>]\<rparr>)))))"

definition set_phase :: "nat \<Rightarrow> guard_phase \<Rightarrow> state \<Rightarrow> state" where
  "set_phase i p s = s\<lparr>guards := (guards s)[i := (guards s ! i)\<lparr>phase := p\<rparr>]\<rparr>"

definition in_phase :: "nat \<Rightarrow> guard_phase \<Rightarrow> state \<Rightarrow> bool" where
  "in_phase i p s \<longleftrightarrow> i < length (guards s) \<and> phase (guards s ! i) = p"

text \<open>\<open>ReadGuard::drop\<close>: one \<open>decrement\<close>; a guard of the other map is a residual reader.\<close>

definition drop_guard :: "nat \<Rightarrow> state \<Rightarrow> state step" where
  "drop_guard i s =
     (if \<not> in_phase i Live s then None
      else let g = guards s ! i in
        (case map_of (refcounts s) (refcount_key g) of
           None \<Rightarrow> Some (Inl (UB UseAfterFree))
         | Some v \<Rightarrow>
             (let (r, v') = decrement v in
              Some (bind_res r (\<lambda>current_reader_map. Inr (set_phase i
                 (if unlikely (current_reader_map \<noteq> map_index g) then Releasing else Released)
                 (s\<lparr>refcounts := AList.update (refcount_key g) v' (refcounts s)\<rparr>)))))))"

text \<open>\<open>release_residual\<close>, in its three accesses.\<close>

definition release_residual :: "nat \<Rightarrow> state \<Rightarrow> state step" where
  "release_residual i s =
     (if \<not> in_phase i Releasing s then None
      else let last_residual = residual s in
        ok (set_phase i (if last_residual \<noteq> ISIZE_MIN + 1 then Released else ZeroStore)
              (s\<lparr>residual := residual s - 1\<rparr>)))"

definition release_store_zero :: "nat \<Rightarrow> state \<Rightarrow> state step" where
  "release_store_zero i s =
     (if \<not> in_phase i ZeroStore s then None
      else ok (set_phase i Unparking (s\<lparr>residual := 0\<rparr>)))"

definition release_unpark :: "nat \<Rightarrow> state \<Rightarrow> state step" where
  "release_unpark i s =
     (if \<not> in_phase i Unparking s then None
      else case writer_thread s of
        Some t \<Rightarrow> ok (set_phase i Released (s\<lparr>tokens := (tokens s)(t := True)\<rparr>))
      | None \<Rightarrow> Some (Inl (Panic ''Writer is waiting on readers but writer_thread is None'')))"

section \<open>The writer\<close>

text \<open>Where the caller of \<open>synchronize\<close> goes on.\<close>

fun after_sync :: "sync_caller \<Rightarrow> writer_pc" where
  "after_sync BySynchronize = Idle"
| "after_sync ByGuard = Flushing"
| "after_sync ByReclaimer = Reclaiming"
| "after_sync ByDrop = Closing"

definition sync_load :: "sync_caller \<Rightarrow> state \<Rightarrow> state" where
  "sync_load c s = s\<lparr>writer := (if residual s \<noteq> 0 then SyncSetThread c else after_sync c)\<rparr>"

definition sync_set_thread :: "sync_caller \<Rightarrow> state \<Rightarrow> state" where
  "sync_set_thread c s = s\<lparr>writer_thread := Some (writer_tid s), writer := SyncFetchAdd c\<rparr>"

definition sync_fetch_add :: "sync_caller \<Rightarrow> state \<Rightarrow> state" where
  "sync_fetch_add c s =
     (let latest_residual = residual s in
      s\<lparr>residual := residual s + ISIZE_MIN,
        writer := (if likely (latest_residual \<noteq> 0) then SyncPark c else SyncStoreZero c)\<rparr>)"

text \<open>\<open>thread::park\<close> returns when the token of the thread is set, and takes it.\<close>

definition sync_park :: "sync_caller \<Rightarrow> state \<Rightarrow> state step" where
  "sync_park c s =
     (if tokens s (writer_tid s)
      then ok (s\<lparr>tokens := (tokens s)(writer_tid s := False), writer := SyncReload c\<rparr>)
      else None)"

text \<open>The standard library also allows \<open>park\<close> to return spuriously.\<close>

definition park_spuriously :: "state \<Rightarrow> state step" where
  "park_spuriously s =
     (case writer s of SyncPark c \<Rightarrow> ok (s\<lparr>writer := SyncReload c\<rparr>) | _ \<Rightarrow> None)"

definition sync_reload :: "sync_caller \<Rightarrow> state \<Rightarrow> state res" where
  "sync_reload c s =
     (if likely (residual s = 0) then Inr (s\<lparr>writer := after_sync c\<rparr>)
      else if sint (residual s) < 0 then Inr (s\<lparr>writer := SyncPark c\<rparr>)
      else Inl (Panic ''assertion failed: residual < 0''))"

definition sync_store_zero :: "sync_caller \<Rightarrow> state \<Rightarrow> state" where
  "sync_store_zero c s = s\<lparr>residual := 0, writer := after_sync c\<rparr>"

text \<open>
  \<open>publish\<close>. The iteration order of the slab is the order \<open>ks\<close> of its keys. The sum wraps as
  it does in a release build, and the negative sum aborts.
\<close>

definition publish_lock :: "state \<Rightarrow> state step" where
  "publish_lock s =
     (if residual s \<noteq> 0 then Some (Inl (Panic ''assertion failed: residual == 0''))
      else if refcounts_locked s then None
      else ok (s\<lparr>refcounts_locked := True, writer := PubSetMap\<rparr>))"

definition publish_set_map :: "slab_key list \<Rightarrow> state \<Rightarrow> state step" where
  "publish_set_map ks s =
     (if writer s = PubSetMap \<and> distinct ks \<and> set ks = fst ` set (refcounts s)
      then ok (s\<lparr>writer_map := other (writer_map s), writer := PubSwap ks 0\<rparr>)
      else None)"

fun publish_swap :: "slab_key list \<Rightarrow> isize \<Rightarrow> state \<Rightarrow> state res" where
  "publish_swap [] initial_residual s = Inr (s\<lparr>writer := PubUnlock initial_residual\<rparr>)"
| "publish_swap (k # ks) initial_residual s =
     (case map_of (refcounts s) k of
        None \<Rightarrow> Inl (UB UseAfterFree)
      | Some v \<Rightarrow>
          (let (c, v') = swap_maps v; sum = initial_residual + c in
           if sint sum < 0 then Inl Abort
           else Inr (s\<lparr>refcounts := AList.update k v' (refcounts s), writer := PubSwap ks sum\<rparr>)))"

definition publish_unlock :: "isize \<Rightarrow> state \<Rightarrow> state" where
  "publish_unlock initial_residual s =
     s\<lparr>refcounts_locked := False, writer := PubFetchAdd initial_residual\<rparr>"

definition publish_fetch_add :: "isize \<Rightarrow> state \<Rightarrow> state" where
  "publish_fetch_add initial_residual s =
     s\<lparr>residual := residual s + initial_residual, writer := Idle\<rparr>"

text \<open>
  The entry points of the user. The calls that need the write handle as a whole end every borrow of it;
  \<open>synchronize\<close> and \<open>reclaimer\<close> only share it, so they may also be called while a closure of an earlier
  \<open>reclaimer\<close> is alive, and then come back to it (\<open>ByReclaimer\<close> stands for both). \<open>WriteGuard::publish\<close> is the
  drop of the guard, which starts \<open>Core::publish\<close>.
\<close>

definition writer_call :: "sync_caller \<Rightarrow> state \<Rightarrow> state step" where
  [simp]: "writer_call c s =
     (if writer s = Idle \<or> writer s = Reclaiming \<and> c = ByReclaimer then ok (s\<lparr>writer := SyncLoad c\<rparr>) else None)"

definition drop_write_guard :: "state \<Rightarrow> state step" where
  [simp]: "drop_write_guard s = (if writer s = Writing then ok (s\<lparr>writer := PubLock\<rparr>) else None)"

definition drop_reclaimer :: "state \<Rightarrow> state step" where
  [simp]: "drop_reclaimer s = (if writer s = Reclaiming then ok (s\<lparr>writer := Idle\<rparr>) else None)"

text \<open>One step of the writer's own code.\<close>

fun writer_step :: "state \<Rightarrow> state step" where
  "writer_step s =
     (case writer s of
        SyncLoad c \<Rightarrow> ok (sync_load c s)
      | SyncSetThread c \<Rightarrow> ok (sync_set_thread c s)
      | SyncFetchAdd c \<Rightarrow> ok (sync_fetch_add c s)
      | SyncPark c \<Rightarrow> sync_park c s
      | SyncReload c \<Rightarrow> Some (sync_reload c s)
      | SyncStoreZero c \<Rightarrow> ok (sync_store_zero c s)
      | Flushing \<Rightarrow> ok (s\<lparr>writer := Writing\<rparr>)
      | PubLock \<Rightarrow> publish_lock s
      | PubSwap ks a \<Rightarrow> Some (publish_swap ks a s)
      | PubUnlock a \<Rightarrow> ok (publish_unlock a s)
      | PubFetchAdd a \<Rightarrow> ok (publish_fetch_add a s)
      | Closing \<Rightarrow> ok (s\<lparr>writer := Closed\<rparr>)
      | _ \<Rightarrow> None)"

section \<open>The step relation\<close>

datatype action =
    CloneReader slab_key slab_key
  | DropReader slab_key
  | NewGuard slab_key
  | DropGuard nat
  | ReleaseResidual nat
  | ReleaseStoreZero nat
  | ReleaseUnpark nat
  | WriterCall sync_caller       \<comment> \<open>the user calls \<open>synchronize\<close>, \<open>guard\<close>, \<open>reclaimer\<close> or drops the handle\<close>
  | WriterMove tid               \<comment> \<open>the write handle is sent to another thread\<close>
  | WriterStep
  | WriterIter "slab_key list"
  | ParkSpuriously
  | DropWriteGuard               \<comment> \<open>the user drops or publishes the write guard\<close>
  | DropReclaimer                \<comment> \<open>the last closure of \<open>reclaimer\<close> is dropped\<close>

fun exec :: "action \<Rightarrow> state \<Rightarrow> state step" where
  "exec (CloneReader from key) s = clone_reader from key s"
| "exec (DropReader key) s = release_refcount key s"
| "exec (NewGuard key) s = read_guard key s"
| "exec (DropGuard i) s = drop_guard i s"
| "exec (ReleaseResidual i) s = release_residual i s"
| "exec (ReleaseStoreZero i) s = release_store_zero i s"
| "exec (ReleaseUnpark i) s = release_unpark i s"
| "exec (WriterCall c) s = writer_call c s"
| "exec (WriterMove t) s = (if writer s = Idle then ok (s\<lparr>writer_tid := t\<rparr>) else None)"
| "exec WriterStep s = writer_step s"
| "exec (WriterIter ks) s = publish_set_map ks s"
| "exec ParkSpuriously s = park_spuriously s"
| "exec DropWriteGuard s = drop_write_guard s"
| "exec DropReclaimer s = drop_reclaimer s"

fun run :: "action list \<Rightarrow> state \<Rightarrow> state step" where
  "run [] s = ok s"
| "run (a # as) s =
     (case exec a s of None \<Rightarrow> None | Some (Inl e) \<Rightarrow> Some (Inl e) | Some (Inr s') \<Rightarrow> run as s')"

inductive reachable :: "(action \<Rightarrow> bool) \<Rightarrow> state \<Rightarrow> bool" for A where
  init: "build_map t key = Some (Inr s) \<Longrightarrow> reachable A s"
| step: "reachable A s \<Longrightarrow> A a \<Longrightarrow> exec a s = Some (Inr s') \<Longrightarrow> reachable A s'"

interpretation core_machine: machine exec run "reachable A" A for A
  by unfold_locales (auto intro: reachable.step split: option.splits sum.splits)

end
