(* ===== verification/ProtocolInv.thy ===== *)
theory ProtocolInv
  imports Protocol
begin

text \<open>
  The invariant of the protocol of \<open>Protocol\<close>: what the reference counts and the residual
  counter say about the guards at every program point of the writer, and that every step
  keeps it.
\<close>

section \<open>Counting guards\<close>

text \<open>
  While \<open>publish\<close> runs its loop the handles still to do point at the new writer map; every
  other handle points at the reader map.
\<close>

definition todo :: "writer_pc \<Rightarrow> slab_key list" where
  "todo pc = (case pc of PubSwap ks a \<Rightarrow> ks | _ \<Rightarrow> [])"

definition expected :: "state \<Rightarrow> slab_key \<Rightarrow> MapIndex" where
  "expected s k = (if k \<in> set (todo (writer s)) then writer_map s else other (writer_map s))"

definition live_on :: "slab_key \<Rightarrow> ReadGuard \<Rightarrow> bool" where
  "live_on k g \<longleftrightarrow> phase g = Live \<and> refcount_key g = k"

text \<open>A residual guard reads the map its handle no longer points at, or has yet to say it is done.\<close>

definition is_residual :: "(slab_key \<Rightarrow> MapIndex) \<Rightarrow> ReadGuard \<Rightarrow> bool" where
  "is_residual e g \<longleftrightarrow> phase g = Releasing \<or> phase g = Live \<and> map_index g \<noteq> e (refcount_key g)"

definition in_zero :: "ReadGuard \<Rightarrow> bool" where
  "in_zero g \<longleftrightarrow> phase g = ZeroStore"

definition n_live :: "state \<Rightarrow> slab_key \<Rightarrow> nat" where
  "n_live s k = cnt (live_on k) (guards s)"

definition n_res :: "state \<Rightarrow> nat" where
  "n_res s = cnt (is_residual (expected s)) (guards s)"

definition n_zero :: "state \<Rightarrow> nat" where
  "n_zero s = cnt in_zero (guards s)"

section \<open>The residual counter\<close>

text \<open>
  What the counter \<open>w\<close> holds at each program point, for \<open>R\<close> residual guards and \<open>Z\<close> guards
  about to store zero. While \<open>publish\<close> sums up, readers have already taken off what the
  writer is still to add; while the writer waits, \<open>isize::MIN\<close> marks the count.
\<close>

definition publishing_rel :: "nat \<Rightarrow> nat \<Rightarrow> isize \<Rightarrow> isize \<Rightarrow> bool" where
  "publishing_rel R Z w a \<longleftrightarrow> Z = 0 \<and> R \<le> unat a \<and> unat a < 2 ^ 63 \<and> w = of_nat R - a"

definition waiting_rel :: "nat \<Rightarrow> nat \<Rightarrow> isize \<Rightarrow> bool" where
  "waiting_rel R Z w \<longleftrightarrow> R < 2 ^ 63 \<and> Z \<le> 1 \<and> (Z = 0 \<or> R = 0)
     \<and> w = (if R = 0 \<and> Z = 0 then 0 else ISIZE_MIN + of_nat R)"

definition resting_rel :: "nat \<Rightarrow> nat \<Rightarrow> isize \<Rightarrow> bool" where
  "resting_rel R Z w \<longleftrightarrow> R < 2 ^ 63 \<and> Z = 0 \<and> w = of_nat R"

definition exclusive_rel :: "nat \<Rightarrow> nat \<Rightarrow> isize \<Rightarrow> bool" where
  "exclusive_rel R Z w \<longleftrightarrow> R = 0 \<and> Z = 0 \<and> w = 0"

definition res_rel :: "writer_pc \<Rightarrow> nat \<Rightarrow> nat \<Rightarrow> isize \<Rightarrow> bool" where
  "res_rel pc R Z w =
     (case pc of
        PubSwap ks a \<Rightarrow> publishing_rel R Z w a
      | PubUnlock a \<Rightarrow> publishing_rel R Z w a
      | PubFetchAdd a \<Rightarrow> publishing_rel R Z w a
      | SyncPark c \<Rightarrow> waiting_rel R Z w
      | SyncReload c \<Rightarrow> waiting_rel R Z w
      | SyncStoreZero c \<Rightarrow> R = 0 \<and> Z = 0 \<and> w = ISIZE_MIN
      | Idle \<Rightarrow> resting_rel R Z w
      | SyncLoad c \<Rightarrow> resting_rel R Z w
      | SyncSetThread c \<Rightarrow> resting_rel R Z w
      | SyncFetchAdd c \<Rightarrow> resting_rel R Z w
      | _ \<Rightarrow> exclusive_rel R Z w)"

lemmas res_rel_defs = res_rel_def publishing_rel_def waiting_rel_def resting_rel_def exclusive_rel_def

lemma of_nat_neq_min1: "R < 2 ^ 63 \<Longrightarrow> (of_nat R :: isize) \<noteq> ISIZE_MIN + 1"
proof
  assume R: "R < 2 ^ 63" and eq: "(of_nat R :: isize) = ISIZE_MIN + 1"
  from eq have "unat (of_nat R :: isize) = 2 ^ 63 + 1" by (simp add: ISIZE_MIN_eq)
  with R show False by (simp add: unat_of_nat)
qed

lemma publishing_neq_min1:
  assumes "0 < R" "R \<le> unat a" "unat a < 2 ^ 63"
  shows "of_nat R - a \<noteq> ISIZE_MIN + 1"
proof
  assume "of_nat R - a = ISIZE_MIN + 1"
  then have "of_nat R = a + (ISIZE_MIN + 1)" by (simp add: algebra_simps)
  then have "unat (of_nat R :: isize) = (unat a + (2 ^ 63 + 1)) mod 2 ^ 64"
    by (simp add: ISIZE_MIN_eq unat_word_ariths(1))
  moreover have "unat (of_nat R :: isize) = R"
    using assms by (simp add: unat_of_nat)
  ultimately have "R = (unat a + (2 ^ 63 + 1)) mod 2 ^ 64" by simp
  with assms show False
    by (cases "unat a + (2 ^ 63 + 1) = 2 ^ 64") simp_all
qed

lemma waiting_eq_min1: "R < 2 ^ 63 \<Longrightarrow> ISIZE_MIN + of_nat R = ISIZE_MIN + 1 \<longleftrightarrow> R = 1"
proof -
  assume R: "R < 2 ^ 63"
  have "ISIZE_MIN + of_nat R = ISIZE_MIN + 1 \<longleftrightarrow> (of_nat R :: isize) = of_nat 1" by simp
  also have "\<dots> \<longleftrightarrow> R = 1"
    using R by (simp only: word_unat_eq_iff unat_of_nat) simp
  finally show ?thesis .
qed

text \<open>
  The three reader steps on the counter. A residual reader takes one off and sees
  \<open>isize::MIN + 1\<close> exactly when it is the last one and the writer waits.
\<close>

lemma publishing_release:
  assumes "publishing_rel (Suc R) Z w a"
  shows "w \<noteq> ISIZE_MIN + 1 \<and> publishing_rel R Z (w - 1) a"
  using assms publishing_neq_min1 [of "Suc R" a]
  by (auto simp: publishing_rel_def algebra_simps)

lemma waiting_release:
  assumes "waiting_rel (Suc R) Z w"
  shows "waiting_rel R (if w = ISIZE_MIN + 1 then Suc Z else Z) (w - 1)"
  using assms waiting_eq_min1 [of "Suc R"]
  by (auto simp: waiting_rel_def)

lemma waiting_last: "waiting_rel (Suc 0) Z w \<Longrightarrow> w = ISIZE_MIN + 1"
  by (simp add: waiting_rel_def)

lemma resting_release:
  assumes "resting_rel (Suc R) Z w"
  shows "w \<noteq> ISIZE_MIN + 1 \<and> resting_rel R Z (w - 1)"
  using assms of_nat_neq_min1 [of "Suc R"]
  by (auto simp: resting_rel_def)

lemma res_rel_release:
  assumes "res_rel pc (Suc R) Z w"
  shows "res_rel pc R (if w = ISIZE_MIN + 1 then Suc Z else Z) (w - 1)"
  using assms publishing_release waiting_release resting_release
  by (cases pc) (auto simp: res_rel_def exclusive_rel_def)

lemma res_rel_store_zero:
  "res_rel pc R Z w \<Longrightarrow> 0 < Z \<Longrightarrow> res_rel pc R (Z - 1) 0 \<and> R = 0 \<and> Z = 1"
  unfolding res_rel_defs by (cases pc) auto

section \<open>The invariant\<close>

definition refcounts_ok :: "state \<Rightarrow> bool" where
  "refcounts_ok s \<longleftrightarrow> distinct (map fst (refcounts s))
     \<and> (\<forall>k v. map_of (refcounts s) k = Some v \<longrightarrow>
          v = encode (expected s k) (n_live s k) \<and> n_live s k \<le> 2 ^ 62)"

definition handles_ok :: "state \<Rightarrow> bool" where
  "handles_ok s \<longleftrightarrow>
     (\<forall>g\<in>set (guards s). phase g \<noteq> Released \<longrightarrow> refcount_key g \<in> fst ` set (refcounts s))"

definition residual_ok :: "state \<Rightarrow> bool" where
  "residual_ok s \<longleftrightarrow> res_rel (writer s) (n_res s) (n_zero s) (residual s)"

definition holds_lock :: "writer_pc \<Rightarrow> bool" where
  "holds_lock pc = (case pc of PubSetMap \<Rightarrow> True | PubSwap ks a \<Rightarrow> True | PubUnlock a \<Rightarrow> True | _ \<Rightarrow> False)"

definition publish_ok :: "state \<Rightarrow> bool" where
  "publish_ok s \<longleftrightarrow> refcounts_locked s = holds_lock (writer s)
     \<and> distinct (todo (writer s)) \<and> set (todo (writer s)) \<subseteq> fst ` set (refcounts s)
     \<and> (\<forall>g\<in>set (guards s). phase g = Live \<longrightarrow> refcount_key g \<in> set (todo (writer s)) \<longrightarrow>
           map_index g = writer_map s)"

definition past_set_thread :: "writer_pc \<Rightarrow> bool" where
  "past_set_thread pc =
     (case pc of SyncFetchAdd c \<Rightarrow> True | SyncPark c \<Rightarrow> True | SyncReload c \<Rightarrow> True
      | SyncStoreZero c \<Rightarrow> True | _ \<Rightarrow> False)"

definition is_parked :: "writer_pc \<Rightarrow> bool" where
  "is_parked pc = (case pc of SyncPark c \<Rightarrow> True | _ \<Rightarrow> False)"

text \<open>Nobody is forgotten: a parked writer is owed a wake-up.\<close>

definition wakeup_ok :: "state \<Rightarrow> bool" where
  "wakeup_ok s \<longleftrightarrow> (past_set_thread (writer s) \<longrightarrow> writer_thread s = Some (writer_tid s))
     \<and> (\<forall>g\<in>set (guards s). phase g = Unparking \<longrightarrow> writer_thread s \<noteq> None)
     \<and> (is_parked (writer s) \<longrightarrow>
          0 < n_res s \<or> 0 < n_zero s \<or> (\<exists>g\<in>set (guards s). phase g = Unparking)
          \<or> tokens s (writer_tid s))"

definition pinv :: "state \<Rightarrow> bool" where
  "pinv s \<longleftrightarrow> refcounts_ok s \<and> handles_ok s \<and> residual_ok s \<and> publish_ok s \<and> wakeup_ok s"

lemmas pinv_defs = pinv_def refcounts_ok_def handles_ok_def residual_ok_def publish_ok_def wakeup_ok_def

text \<open>A step is safe when it leads to the invariant, is not enabled, or aborts the process.\<close>

definition safe :: "state step \<Rightarrow> bool" where
  "safe r = (case r of None \<Rightarrow> True | Some (Inl e) \<Rightarrow> e = Abort | Some (Inr s) \<Rightarrow> pinv s)"

lemma safe_simps [simp]:
  "safe None" "safe (Some (Inl e)) = (e = Abort)" "safe (ok s) = pinv s"
  by (simp_all add: safe_def)

section \<open>Frame lemmas\<close>

lemma expected_frame [simp]:
  "expected (s\<lparr>residual := r\<rparr>) = expected s"
  "expected (s\<lparr>refcounts := rs\<rparr>) = expected s"
  "expected (s\<lparr>refcounts_locked := l\<rparr>) = expected s"
  "expected (s\<lparr>writer_thread := wt\<rparr>) = expected s"
  "expected (s\<lparr>guards := gs\<rparr>) = expected s"
  "expected (s\<lparr>writer_tid := t\<rparr>) = expected s"
  "expected (s\<lparr>tokens := tk\<rparr>) = expected s"
  by (simp_all add: expected_def fun_eq_iff)

lemma set_phase_frame [simp]:
  "residual (set_phase i p s) = residual s"
  "refcounts (set_phase i p s) = refcounts s"
  "refcounts_locked (set_phase i p s) = refcounts_locked s"
  "writer_thread (set_phase i p s) = writer_thread s"
  "writer_map (set_phase i p s) = writer_map s"
  "writer (set_phase i p s) = writer s"
  "writer_tid (set_phase i p s) = writer_tid s"
  "tokens (set_phase i p s) = tokens s"
  "expected (set_phase i p s) = expected s"
  "guards (set_phase i p s) = (guards s)[i := (guards s ! i)\<lparr>phase := p\<rparr>]"
  by (simp_all add: set_phase_def)

text \<open>How the counts change when one guard moves to another phase.\<close>

lemma n_live_set_phase:
  "i < length (guards s) \<Longrightarrow>
   n_live (set_phase i p s) k + (if live_on k (guards s ! i) then 1 else 0)
   = n_live s k + (if p = Live \<and> refcount_key (guards s ! i) = k then 1 else 0)"
  using cnt_update [of i "guards s" "live_on k" "(guards s ! i)\<lparr>phase := p\<rparr>"]
  by (simp add: n_live_def live_on_def)

lemma n_res_set_phase:
  "i < length (guards s) \<Longrightarrow>
   n_res (set_phase i p s) + (if is_residual (expected s) (guards s ! i) then 1 else 0)
   = n_res s + (if is_residual (expected s) ((guards s ! i)\<lparr>phase := p\<rparr>) then 1 else 0)"
  using cnt_update [of i "guards s" "is_residual (expected s)" "(guards s ! i)\<lparr>phase := p\<rparr>"]
  by (simp add: n_res_def)

lemma n_zero_set_phase:
  "i < length (guards s) \<Longrightarrow>
   n_zero (set_phase i p s) + (if phase (guards s ! i) = ZeroStore then 1 else 0)
   = n_zero s + (if p = ZeroStore then 1 else 0)"
  using cnt_update [of i "guards s" "in_zero" "(guards s ! i)\<lparr>phase := p\<rparr>"]
  by (simp add: n_zero_def in_zero_def)

lemma n_counts_frame [simp]:
  "n_live (s\<lparr>refcounts := rs\<rparr>) = n_live s"  "n_live (s\<lparr>residual := r\<rparr>) = n_live s"
  "n_live (s\<lparr>tokens := tk\<rparr>) = n_live s"  "n_live (s\<lparr>writer := pc\<rparr>) = n_live s"
  "n_res (s\<lparr>refcounts := rs\<rparr>) = n_res s"  "n_res (s\<lparr>residual := r\<rparr>) = n_res s"
  "n_res (s\<lparr>tokens := tk\<rparr>) = n_res s"
  "n_zero (s\<lparr>refcounts := rs\<rparr>) = n_zero s"  "n_zero (s\<lparr>residual := r\<rparr>) = n_zero s"
  "n_zero (s\<lparr>tokens := tk\<rparr>) = n_zero s"  "n_zero (s\<lparr>writer := pc\<rparr>) = n_zero s"
  by (simp_all add: n_live_def n_res_def n_zero_def fun_eq_iff)

lemma set_phase_record_frame:
  "set_phase i p (s\<lparr>refcounts := rs\<rparr>) = (set_phase i p s)\<lparr>refcounts := rs\<rparr>"
  "set_phase i p (s\<lparr>residual := r\<rparr>) = (set_phase i p s)\<lparr>residual := r\<rparr>"
  "set_phase i p (s\<lparr>tokens := tk\<rparr>) = (set_phase i p s)\<lparr>tokens := tk\<rparr>"
  by (simp_all add: set_phase_def)

lemma map_of_fst_iff: "k \<in> fst ` set al \<longleftrightarrow> (\<exists>v. map_of al k = Some v)"
  unfolding dom_map_of_conv_image_fst [symmetric] by (auto simp: dom_def)

lemma keys_update_present:
  "k \<in> fst ` set al \<Longrightarrow> fst ` set (AList.update k v al) = fst ` set al"
  unfolding dom_map_of_conv_image_fst [symmetric] by (auto simp: update_conv' split: if_splits)

lemma keys_delete: "fst ` set (AList.delete k al) = fst ` set al - {k}"
  unfolding dom_map_of_conv_image_fst [symmetric] by (auto simp: delete_conv' split: if_splits)

lemma ok_frame_refcounts:
  assumes "k \<in> fst ` set (refcounts s)"
  shows "handles_ok (s\<lparr>refcounts := AList.update k v (refcounts s)\<rparr>) = handles_ok s"
    and "publish_ok (s\<lparr>refcounts := AList.update k v (refcounts s)\<rparr>) = publish_ok s"
    and "wakeup_ok (s\<lparr>refcounts := AList.update k v (refcounts s)\<rparr>) = wakeup_ok s"
    and "residual_ok (s\<lparr>refcounts := AList.update k v (refcounts s)\<rparr>) = residual_ok s"
  by (simp_all add: handles_ok_def publish_ok_def wakeup_ok_def residual_ok_def keys_update_present [OF assms])

section \<open>Read handles keep the invariant\<close>

lemma inv_new_reader:
  assumes "pinv s"
  shows "safe (new_reader key s)"
proof (cases "refcounts_locked s \<or> key \<in> fst ` set (refcounts s)")
  case True
  then show ?thesis by (simp add: new_reader_def)
next
  case False
  let ?s = "s\<lparr>refcounts := refcounts s @ [(key, refcount_new (other (writer_map s)))]\<rparr>"
  from False have new: "key \<notin> fst ` set (refcounts s)" by simp
  with assms have none: "\<forall>g\<in>set (guards s). \<not> live_on key g"
    by (auto simp: pinv_def handles_ok_def live_on_def)
  then have zero: "n_live s key = 0" by (simp add: n_live_def cnt_zero_iff)
  have "todo (writer s) = []"
    using assms False by (cases "writer s") (auto simp: pinv_def publish_ok_def holds_lock_def todo_def)
  then have idx: "expected s key = other (writer_map s)" by (simp add: expected_def)
  have "refcounts_ok ?s"
    using assms new zero idx
    by (auto simp: pinv_def refcounts_ok_def map_of_append encode_0 map_add_def split: option.splits if_splits)
  moreover have "handles_ok ?s" "residual_ok ?s" "publish_ok ?s" "wakeup_ok ?s"
    using assms by (auto simp: pinv_defs)
  ultimately show ?thesis
    using False by (simp add: new_reader_def pinv_def)
qed

lemma inv_release_refcount:
  assumes "pinv s"
  shows "safe (release_refcount key s)"
proof (cases "refcounts_locked s \<or> key \<notin> fst ` set (refcounts s)
    \<or> (\<exists>g\<in>set (guards s). refcount_key g = key \<and> phase g \<noteq> Released)")
  case True
  then show ?thesis by (auto simp: release_refcount_def)
next
  case False
  let ?s = "s\<lparr>refcounts := AList.delete key (refcounts s)\<rparr>"
  have "todo (writer s) = []"
    using assms False by (cases "writer s") (auto simp: pinv_def publish_ok_def holds_lock_def todo_def)
  moreover have "refcounts_ok ?s"
    using assms by (auto simp: pinv_def refcounts_ok_def delete_conv' distinct_delete split: if_splits)
  moreover have "handles_ok ?s"
    using assms False by (auto simp: pinv_def handles_ok_def keys_delete)
  ultimately show ?thesis
    using assms False by (auto simp: release_refcount_def pinv_def residual_ok_def publish_ok_def wakeup_ok_def)
qed

section \<open>Read guards keep the invariant\<close>

lemma refcount_of_guard:
  assumes "pinv s" "i < length (guards s)" "phase (guards s ! i) \<noteq> Released"
  obtains v where "map_of (refcounts s) (refcount_key (guards s ! i)) = Some v"
    "v = encode (expected s (refcount_key (guards s ! i))) (n_live s (refcount_key (guards s ! i)))"
    "n_live s (refcount_key (guards s ! i)) \<le> 2 ^ 62"
proof -
  have "refcount_key (guards s ! i) \<in> fst ` set (refcounts s)"
    using assms by (auto simp: pinv_def handles_ok_def)
  then obtain v where v: "map_of (refcounts s) (refcount_key (guards s ! i)) = Some v"
    by (auto simp: map_of_fst_iff)
  with assms(1) show ?thesis
    by (intro that [of v]) (auto simp: pinv_def refcounts_ok_def)
qed

lemma inv_read_guard:
  assumes "pinv s"
  shows "safe (read_guard key s)"
proof (cases "map_of (refcounts s) key")
  case None
  then show ?thesis by (simp add: read_guard_def)
next
  case (Some v)
  let ?n = "n_live s key" and ?i = "expected s key"
  let ?g = "\<lparr>refcount_key = key, map_index = ?i, phase = Live\<rparr>"
  let ?s = "s\<lparr>refcounts := AList.update key (encode ?i (Suc ?n)) (refcounts s), guards := guards s @ [?g]\<rparr>"
  from Some assms have v: "v = encode ?i ?n" and n: "?n \<le> 2 ^ 62"
    by (auto simp: pinv_def refcounts_ok_def)
  then have inc: "increment v = (if ?n < 2 ^ 62 then Inr ?i else Inl Abort, encode ?i (Suc ?n))"
    by (simp add: increment_encode)
  have live: "n_live ?s k = (if k = key then Suc (n_live s k) else n_live s k)" for k
    by (simp add: n_live_def live_on_def)
  have res: "n_res ?s = n_res s" "n_zero ?s = n_zero s"
    by (simp_all add: n_res_def is_residual_def n_zero_def in_zero_def)
  have key: "key \<in> fst ` set (refcounts s)" using Some by (auto simp: map_of_fst_iff)
  have "pinv ?s" if "?n < 2 ^ 62"
    unfolding pinv_def
  proof (intro conjI)
    show "refcounts_ok ?s"
      using assms that live
      by (auto simp: pinv_def refcounts_ok_def update_conv' distinct_update split: if_splits)
    show "handles_ok ?s" using assms key by (auto simp: pinv_def handles_ok_def keys_update_present)
    show "residual_ok ?s" using assms res by (simp add: pinv_def residual_ok_def)
    show "publish_ok ?s"
      using assms by (auto simp: pinv_def publish_ok_def keys_update_present [OF key] expected_def)
    show "wakeup_ok ?s" using assms res by (auto simp: pinv_def wakeup_ok_def)
  qed
  then show ?thesis
    by (simp add: read_guard_def Some inc)
qed

text \<open>
  The parts of the invariant that a change of one guard's phase cannot break, given that
  guards neither come alive nor start to unpark.
\<close>

lemma handles_ok_set_phase:
  "handles_ok s \<Longrightarrow> i < length (guards s) \<Longrightarrow> phase (guards s ! i) \<noteq> Released \<Longrightarrow>
   handles_ok (set_phase i p s)"
  by (auto simp: handles_ok_def dest!: subsetD [OF set_update_subset_insert])

lemma publish_ok_set_phase:
  "publish_ok s \<Longrightarrow> p \<noteq> Live \<Longrightarrow> publish_ok (set_phase i p s)"
  by (auto simp: publish_ok_def dest!: subsetD [OF set_update_subset_insert])

lemma unparking_set_phase:
  "i < length (guards s) \<Longrightarrow> phase (guards s ! i) \<noteq> Unparking \<Longrightarrow>
   (\<exists>g\<in>set (guards s). phase g = Unparking) \<Longrightarrow>
   (\<exists>g\<in>set (guards (set_phase i p s)). phase g = Unparking)"
proof -
  assume i: "i < length (guards s)" "phase (guards s ! i) \<noteq> Unparking"
  assume "\<exists>g\<in>set (guards s). phase g = Unparking"
  then obtain j where j: "j < length (guards s)" "phase (guards s ! j) = Unparking"
    by (auto simp: in_set_conv_nth)
  with i have "j \<noteq> i" by auto
  with j show ?thesis
    by (auto simp: in_set_conv_nth intro!: exI [of _ j] bexI [of _ "guards s ! j"])
qed

lemma wakeup_ok_set_phase:
  assumes "wakeup_ok s" "i < length (guards s)" "phase (guards s ! i) \<noteq> Unparking" "p \<noteq> Unparking"
    and "n_res (set_phase i p s) = n_res s" "n_zero (set_phase i p s) = n_zero s"
  shows "wakeup_ok (set_phase i p s)"
proof -
  have "phase g = Unparking \<longrightarrow> g \<in> set (guards s)" if "g \<in> set (guards (set_phase i p s))" for g
    using that assms(4) by (auto dest!: subsetD [OF set_update_subset_insert])
  then have "\<forall>g\<in>set (guards (set_phase i p s)). phase g = Unparking \<longrightarrow> writer_thread s \<noteq> None"
    using assms(1) unfolding wakeup_ok_def by blast
  then show ?thesis
    using assms(1,5,6) unparking_set_phase [OF assms(2,3), of p]
    unfolding wakeup_ok_def by (simp del: set_phase_frame(10)) blast
qed

lemma inv_drop_guard:
  assumes "pinv s"
  shows "safe (drop_guard i s)"
proof (cases "in_phase i Live s")
  case False
  then show ?thesis by (simp add: drop_guard_def)
next
  case True
  let ?g = "guards s ! i"
  let ?k = "refcount_key ?g"
  let ?n = "n_live s ?k" and ?e = "expected s ?k"
  let ?p = "if ?e \<noteq> map_index ?g then Releasing else Released"
  let ?s = "set_phase i ?p (s\<lparr>refcounts := AList.update ?k (encode ?e (?n - 1)) (refcounts s)\<rparr>)"
  from True have i: "i < length (guards s)" and g: "phase ?g = Live" by (auto simp: in_phase_def)
  then obtain v where look: "map_of (refcounts s) ?k = Some v" and v: "v = encode ?e ?n" "?n \<le> 2 ^ 62"
    using refcount_of_guard [OF assms i] by auto
  have pos: "0 < ?n"
    using i g by (auto simp: n_live_def live_on_def intro!: cnt_nth_pos)
  have dec: "decrement v = (Inr ?e, encode ?e (?n - 1))"
    using v pos by (simp add: decrement_encode)
  have live: "n_live ?s k = (if k = ?k then ?n - 1 else n_live s k)" for k
    using n_live_set_phase [OF i, of ?p k] g pos
    by (auto simp: set_phase_record_frame live_on_def split: if_splits)
  have res: "n_res ?s = n_res s" "n_zero ?s = n_zero s"
    using n_res_set_phase [OF i, of ?p] n_zero_set_phase [OF i, of ?p] g
    by (auto simp: set_phase_record_frame is_residual_def split: if_splits)
  have key: "?k \<in> fst ` set (refcounts s)" using look by (auto simp: map_of_fst_iff)
  have "pinv ?s"
    unfolding pinv_def
  proof (intro conjI)
    show "refcounts_ok ?s"
      using assms live v(2) by (auto simp: pinv_def refcounts_ok_def update_conv' distinct_update split: if_splits)
    have eq: "?s = (set_phase i ?p s)\<lparr>refcounts := AList.update ?k (encode ?e (?n - 1))
        (refcounts (set_phase i ?p s))\<rparr>"
      by (simp add: set_phase_record_frame)
    have "wakeup_ok (set_phase i ?p s)"
      using assms res g by (intro wakeup_ok_set_phase i) (simp_all add: pinv_def set_phase_record_frame)
    moreover have "handles_ok (set_phase i ?p s)" "publish_ok (set_phase i ?p s)"
      using assms i g by (auto simp: pinv_def intro!: handles_ok_set_phase publish_ok_set_phase)
    ultimately show "handles_ok ?s" "publish_ok ?s" "wakeup_ok ?s"
      unfolding eq using key ok_frame_refcounts [of ?k "set_phase i ?p s"]
      by (simp_all only: set_phase_frame)
    show "residual_ok ?s" using assms res by (simp add: pinv_def residual_ok_def)
  qed
  then show ?thesis
    using True by (simp add: drop_guard_def Let_def look dec)
qed

lemma inv_release_residual:
  assumes "pinv s"
  shows "safe (release_residual i s)"
proof (cases "in_phase i Releasing s")
  case False
  then show ?thesis by (simp add: release_residual_def)
next
  case True
  let ?p = "if residual s \<noteq> ISIZE_MIN + 1 then Released else ZeroStore"
  let ?s = "set_phase i ?p (s\<lparr>residual := residual s - 1\<rparr>)"
  from True have i: "i < length (guards s)" and g: "phase (guards s ! i) = Releasing"
    by (auto simp: in_phase_def)
  have live: "n_live ?s k = n_live s k" for k
    using n_live_set_phase [OF i, of ?p k] g
    by (auto simp: set_phase_record_frame live_on_def split: if_splits)
  have res: "n_res s = Suc (n_res ?s)"
    using n_res_set_phase [OF i, of ?p] g
    by (auto simp: set_phase_record_frame is_residual_def split: if_splits)
  have zero: "n_zero ?s = (if residual s = ISIZE_MIN + 1 then Suc (n_zero s) else n_zero s)"
    using n_zero_set_phase [OF i, of ?p] g
    by (auto simp: set_phase_record_frame split: if_splits)
  have rel: "res_rel (writer s) (n_res ?s) (n_zero ?s) (residual s - 1)"
    using assms res_rel_release [of "writer s" "n_res ?s" "n_zero s" "residual s"]
    by (simp only: pinv_def residual_ok_def res zero)
  have "pinv ?s"
    unfolding pinv_def
  proof (intro conjI)
    show "refcounts_ok ?s" using assms live by (auto simp: pinv_def refcounts_ok_def)
    have "handles_ok (set_phase i ?p s)" "publish_ok (set_phase i ?p s)"
      using assms i g by (auto simp: pinv_def intro!: handles_ok_set_phase publish_ok_set_phase)
    then show "handles_ok ?s" "publish_ok ?s"
      by (simp_all add: set_phase_record_frame handles_ok_def publish_ok_def)
    show "residual_ok ?s" using rel by (simp add: residual_ok_def)
    have "0 < n_res ?s \<or> 0 < n_zero ?s" if "is_parked (writer s)"
      using assms that waiting_last [of "n_zero s" "residual s"] res zero
      by (cases "n_res ?s"; cases "writer s")
        (auto simp: pinv_def residual_ok_def res_rel_def is_parked_def)
    then show "wakeup_ok ?s"
      using assms by (auto simp: pinv_def wakeup_ok_def dest!: subsetD [OF set_update_subset_insert])
  qed
  then show ?thesis
    using True by (simp add: release_residual_def Let_def)
qed

lemma inv_release_store_zero:
  assumes "pinv s"
  shows "safe (release_store_zero i s)"
proof (cases "in_phase i ZeroStore s")
  case False
  then show ?thesis by (simp add: release_store_zero_def)
next
  case True
  let ?s = "set_phase i Unparking (s\<lparr>residual := 0\<rparr>)"
  from True have i: "i < length (guards s)" and g: "phase (guards s ! i) = ZeroStore"
    by (auto simp: in_phase_def)
  have live: "n_live ?s k = n_live s k" for k
    using n_live_set_phase [OF i, of Unparking k] g by (simp add: set_phase_record_frame live_on_def)
  have res: "n_res ?s = n_res s" "n_zero s = Suc (n_zero ?s)"
    using n_res_set_phase [OF i, of Unparking] n_zero_set_phase [OF i, of Unparking] g
    by (simp_all add: set_phase_record_frame is_residual_def)
  have "writer_thread s \<noteq> None"
    using assms res(2)
    by (cases "writer s") (auto simp: pinv_def residual_ok_def wakeup_ok_def res_rel_defs past_set_thread_def)
  moreover have "res_rel (writer s) (n_res s) (n_zero ?s) 0"
  proof -
    have eq: "n_zero ?s = n_zero s - 1" and "0 < n_zero s" using res(2) by auto
    with assms have "res_rel (writer s) (n_res s) (n_zero s - 1) 0"
      using res_rel_store_zero [of "writer s" "n_res s" "n_zero s" "residual s"]
      unfolding pinv_def residual_ok_def by blast
    then show ?thesis by (simp only: eq)
  qed
  moreover have "handles_ok (set_phase i Unparking s)" "publish_ok (set_phase i Unparking s)"
    using assms i g by (auto simp: pinv_def intro!: handles_ok_set_phase publish_ok_set_phase)
  moreover have "\<exists>g\<in>set (guards ?s). phase g = Unparking"
    using i by (auto intro!: bexI [of _ "(guards s ! i)\<lparr>phase := Unparking\<rparr>"] set_update_memI)
  ultimately have "pinv ?s"
    using assms live res(1)
    by (auto simp: pinv_def refcounts_ok_def handles_ok_def residual_ok_def publish_ok_def wakeup_ok_def
        set_phase_record_frame)
  then show ?thesis
    using True by (simp add: release_store_zero_def)
qed

lemma inv_release_unpark:
  assumes "pinv s"
  shows "safe (release_unpark i s)"
proof (cases "in_phase i Unparking s")
  case False
  then show ?thesis by (simp add: release_unpark_def)
next
  case True
  from True have i: "i < length (guards s)" and g: "phase (guards s ! i) = Unparking"
    by (auto simp: in_phase_def)
  with assms obtain t where t: "writer_thread s = Some t"
    by (auto simp: pinv_def wakeup_ok_def)
  let ?s = "set_phase i Released (s\<lparr>tokens := (tokens s)(t := True)\<rparr>)"
  have live: "n_live ?s k = n_live s k" for k
    using n_live_set_phase [OF i, of Released k] g by (simp add: set_phase_record_frame live_on_def)
  have res: "n_res ?s = n_res s" "n_zero ?s = n_zero s"
    using n_res_set_phase [OF i, of Released] n_zero_set_phase [OF i, of Released] g
    by (simp_all add: set_phase_record_frame is_residual_def)
  have "past_set_thread (writer s)" if "is_parked (writer s)"
    using that by (cases "writer s") (auto simp: is_parked_def past_set_thread_def)
  moreover have "handles_ok (set_phase i Released s)" "publish_ok (set_phase i Released s)"
    using assms i g by (auto simp: pinv_def intro!: handles_ok_set_phase publish_ok_set_phase)
  ultimately have "pinv ?s"
    using assms live res t
    by (auto simp: pinv_def refcounts_ok_def handles_ok_def residual_ok_def publish_ok_def wakeup_ok_def
        set_phase_record_frame)
  then show ?thesis
    using True by (simp add: release_unpark_def t)
qed

section \<open>The writer keeps the invariant\<close>

lemma expected_writer:
  "todo pc = todo (writer s) \<Longrightarrow> expected (s\<lparr>writer := pc\<rparr>) = expected s"
  by (simp add: expected_def fun_eq_iff)

text \<open>
  A step of the writer outside the loop of \<open>publish\<close>: it may change the program point, the
  residual counter, the writer thread, the mutex and the tokens.
\<close>

lemma inv_writer_move:
  assumes "pinv s" "todo pc = []" "todo (writer s) = []" "l = holds_lock pc"
    and "res_rel pc (n_res s) (n_zero s) r"
    and "past_set_thread pc \<Longrightarrow> wt = Some (writer_tid s)"
    and "wt = writer_thread s \<or> wt \<noteq> None"
    and "is_parked pc \<Longrightarrow> 0 < n_res s \<or> 0 < n_zero s \<or> (\<exists>g\<in>set (guards s). phase g = Unparking)
           \<or> tk (writer_tid s)"
  shows "pinv (s\<lparr>residual := r, refcounts_locked := l, writer_thread := wt, writer := pc, tokens := tk\<rparr>)"
    (is "pinv ?s")
proof -
  have e: "expected ?s = expected s"
    using assms(2,3) by (simp add: expected_def fun_eq_iff)
  have n: "n_live ?s = n_live s" "n_res ?s = n_res s" "n_zero ?s = n_zero s"
    unfolding n_live_def n_res_def n_zero_def e by (simp_all add: fun_eq_iff)
  show ?thesis
    unfolding pinv_def
  proof (intro conjI)
    show "refcounts_ok ?s"
      unfolding refcounts_ok_def e n using assms(1) by (simp add: pinv_def refcounts_ok_def)
    show "handles_ok ?s" using assms(1) by (simp add: pinv_def handles_ok_def)
    show "residual_ok ?s" unfolding residual_ok_def n using assms(5) by simp
    show "publish_ok ?s" using assms(1,2,3,4) by (simp add: pinv_def publish_ok_def)
    show "wakeup_ok ?s"
      unfolding wakeup_ok_def n using assms(1,6,7,8) by (auto simp: pinv_def wakeup_ok_def)
  qed
qed

lemmas pc_defs = todo_def holds_lock_def past_set_thread_def is_parked_def

lemma inv_res_rel: "pinv s \<Longrightarrow> res_rel (writer s) (n_res s) (n_zero s) (residual s)"
  by (simp add: pinv_def residual_ok_def)

lemma inv_lookup:
  "pinv s \<Longrightarrow> map_of (refcounts s) k = Some v \<Longrightarrow>
   v = encode (expected s k) (n_live s k) \<and> n_live s k \<le> 2 ^ 62"
  unfolding pinv_def refcounts_ok_def by blast

lemma inv_lock: "pinv s \<Longrightarrow> refcounts_locked s = holds_lock (writer s)"
  by (simp add: pinv_def publish_ok_def)

lemma inv_thread: "pinv s \<Longrightarrow> past_set_thread (writer s) \<Longrightarrow> writer_thread s = Some (writer_tid s)"
  by (simp add: pinv_def wakeup_ok_def)

lemma inv_set_pc:
  assumes "pinv s" "todo pc = []" "todo (writer s) = []" "holds_lock pc = holds_lock (writer s)"
    and "res_rel pc (n_res s) (n_zero s) (residual s)"
    and "past_set_thread pc \<Longrightarrow> past_set_thread (writer s)"
    and "is_parked pc \<Longrightarrow> 0 < n_res s \<or> 0 < n_zero s"
  shows "pinv (s\<lparr>writer := pc\<rparr>)"
proof -
  have "s\<lparr>writer := pc\<rparr> = s\<lparr>residual := residual s, refcounts_locked := holds_lock pc,
      writer_thread := writer_thread s, writer := pc, tokens := tokens s\<rparr>"
    using inv_lock [OF assms(1)] assms(4) by simp
  also have "pinv \<dots>"
    using assms inv_thread [OF assms(1)] by (intro inv_writer_move) auto
  finally show ?thesis .
qed

lemma after_sync_pc:
  "todo (after_sync c) = []" "\<not> holds_lock (after_sync c)" "\<not> past_set_thread (after_sync c)"
  "\<not> is_parked (after_sync c)" "res_rel (after_sync c) 0 0 0"
  by (cases c; simp add: pc_defs res_rel_defs)+

lemma of_nat_eq_0: "n < 2 ^ 63 \<Longrightarrow> (of_nat n :: isize) = 0 \<longleftrightarrow> n = 0"
proof -
  assume "n < 2 ^ 63"
  then have "unat (of_nat n :: isize) = n" by (simp add: unat_of_nat)
  then show ?thesis by (metis unat_eq_zero)
qed

lemma inv_sync_load:
  assumes "pinv s" "writer s = SyncLoad c"
  shows "pinv (sync_load c s)"
proof -
  from inv_res_rel [OF assms(1)] assms(2)
  have rel: "n_res s < 2 ^ 63" "n_zero s = 0" "residual s = of_nat (n_res s)"
    by (simp_all add: res_rel_def resting_rel_def)
  show ?thesis
  proof (cases "residual s = 0")
    case True
    with rel of_nat_eq_0 [OF rel(1)] have "n_res s = 0" by simp
    with assms rel(2) True after_sync_pc [of c] have "pinv (s\<lparr>writer := after_sync c\<rparr>)"
      by (intro inv_set_pc) (simp_all add: todo_def holds_lock_def)
    with True show ?thesis by (simp add: sync_load_def)
  next
    case False
    with assms rel have "pinv (s\<lparr>writer := SyncSetThread c\<rparr>)"
      by (intro inv_set_pc) (simp_all add: pc_defs res_rel_def resting_rel_def)
    with False show ?thesis by (simp add: sync_load_def)
  qed
qed

lemma inv_sync_set_thread:
  assumes "pinv s" "writer s = SyncSetThread c"
  shows "pinv (sync_set_thread c s)"
proof -
  have "sync_set_thread c s = s\<lparr>residual := residual s, refcounts_locked := refcounts_locked s,
      writer_thread := Some (writer_tid s), writer := SyncFetchAdd c, tokens := tokens s\<rparr>"
    by (simp add: sync_set_thread_def)
  also have "pinv \<dots>"
    using assms inv_res_rel [OF assms(1)] inv_lock [OF assms(1)]
    by (intro inv_writer_move) (auto simp: pc_defs res_rel_def)
  finally show ?thesis .
qed

lemma inv_sync_fetch_add:
  assumes "pinv s" "writer s = SyncFetchAdd c"
  shows "pinv (sync_fetch_add c s)"
proof -
  from inv_res_rel [OF assms(1)] assms(2)
  have rel: "n_res s < 2 ^ 63" "n_zero s = 0" "residual s = of_nat (n_res s)"
    by (simp_all add: res_rel_def resting_rel_def)
  let ?pc = "if residual s \<noteq> 0 then SyncPark c else SyncStoreZero c"
  have "sync_fetch_add c s = s\<lparr>residual := residual s + ISIZE_MIN, refcounts_locked := refcounts_locked s,
      writer_thread := writer_thread s, writer := ?pc, tokens := tokens s\<rparr>"
    by (simp add: sync_fetch_add_def Let_def)
  also have "pinv \<dots>"
    using assms rel of_nat_eq_0 [OF rel(1)] inv_lock [OF assms(1)] inv_thread [OF assms(1)]
    by (intro inv_writer_move) (auto simp: pc_defs res_rel_def waiting_rel_def)
  finally show ?thesis .
qed

lemma inv_sync_park:
  assumes "pinv s" "writer s = SyncPark c"
  shows "safe (sync_park c s)"
proof -
  have "s\<lparr>tokens := (tokens s)(writer_tid s := False), writer := SyncReload c\<rparr>
      = s\<lparr>residual := residual s, refcounts_locked := refcounts_locked s,
          writer_thread := writer_thread s, writer := SyncReload c,
          tokens := (tokens s)(writer_tid s := False)\<rparr>"
    by simp
  also have "pinv \<dots>"
    using assms inv_res_rel [OF assms(1)] inv_lock [OF assms(1)] inv_thread [OF assms(1)]
    by (intro inv_writer_move) (auto simp: pc_defs res_rel_def)
  finally show ?thesis by (simp add: sync_park_def)
qed

lemma inv_park_spuriously:
  assumes "pinv s"
  shows "safe (park_spuriously s)"
proof (cases "is_parked (writer s)")
  case True
  then obtain c where c: "writer s = SyncPark c" by (cases "writer s") (auto simp: is_parked_def)
  have "pinv (s\<lparr>writer := SyncReload c\<rparr>)"
    using assms c inv_res_rel [OF assms] by (intro inv_set_pc) (auto simp: pc_defs res_rel_def)
  with c show ?thesis by (simp add: park_spuriously_def)
next
  case False
  then show ?thesis by (cases "writer s") (auto simp: is_parked_def park_spuriously_def)
qed

text \<open>The sign of the two kinds of word the counter holds.\<close>

lemma sint_nonneg_iff: "0 \<le> sint w \<longleftrightarrow> unat w < 2 ^ 63" for w :: isize
proof -
  have "0 \<le> sint w \<longleftrightarrow> \<not> bit w 63"
    by (simp add: sint_uint signed_take_bit_nonnegative_iff bit_uint_iff)
  also have "\<dots> \<longleftrightarrow> unat w div 2 ^ 63 = 0"
  proof -
    have "unat w < 2 ^ 64" using unsigned_less [of w, where 'a = nat] by simp
    then have "unat w div 2 ^ 63 < 2" by (simp add: less_mult_imp_div_less)
    then show ?thesis by (simp only: bit_unat_odd) (auto simp: less_2_cases_iff)
  qed
  also have "\<dots> \<longleftrightarrow> unat w < 2 ^ 63" by (simp add: div_eq_0_iff)
  finally show ?thesis .
qed

lemma sint_waiting_neg: "R < 2 ^ 63 \<Longrightarrow> sint (ISIZE_MIN + of_nat R) < 0"
proof -
  assume R: "R < 2 ^ 63"
  then have "unat (ISIZE_MIN + of_nat R) = 2 ^ 63 + R"
    by (simp add: ISIZE_MIN_eq unat_word_ariths unat_of_nat)
  then have "\<not> unat (ISIZE_MIN + of_nat R) < 2 ^ 63" by simp
  with sint_nonneg_iff [of "ISIZE_MIN + of_nat R"] show ?thesis by linarith
qed

lemma inv_sync_reload:
  assumes "pinv s" "writer s = SyncReload c"
  shows "safe (Some (sync_reload c s))"
proof -
  from inv_res_rel [OF assms(1)] assms(2)
  have rel: "waiting_rel (n_res s) (n_zero s) (residual s)" by (simp add: res_rel_def)
  show ?thesis
  proof (cases "n_res s = 0 \<and> n_zero s = 0")
    case True
    with rel have "residual s = 0" by (simp add: waiting_rel_def)
    moreover from this True assms after_sync_pc [of c] have "pinv (s\<lparr>writer := after_sync c\<rparr>)"
      by (intro inv_set_pc) (simp_all add: todo_def holds_lock_def)
    ultimately show ?thesis by (simp add: sync_reload_def)
  next
    case False
    with rel have neg: "sint (residual s) < 0"
      using sint_waiting_neg [of "n_res s"] by (auto simp: waiting_rel_def)
    then have "residual s \<noteq> 0" by auto
    moreover from assms rel False have "pinv (s\<lparr>writer := SyncPark c\<rparr>)"
      by (intro inv_set_pc) (auto simp: pc_defs res_rel_def)
    ultimately show ?thesis using neg by (simp add: sync_reload_def)
  qed
qed

lemma inv_sync_store_zero:
  assumes "pinv s" "writer s = SyncStoreZero c"
  shows "pinv (sync_store_zero c s)"
proof -
  have "sync_store_zero c s = s\<lparr>residual := 0, refcounts_locked := refcounts_locked s,
      writer_thread := writer_thread s, writer := after_sync c, tokens := tokens s\<rparr>"
    by (simp add: sync_store_zero_def)
  also have "pinv \<dots>"
    using assms inv_res_rel [OF assms(1)] inv_lock [OF assms(1)] after_sync_pc [of c]
    by (intro inv_writer_move) (simp_all add: res_rel_def todo_def holds_lock_def)
  finally show ?thesis .
qed

lemma inv_publish_lock:
  assumes "pinv s" "writer s = PubLock"
  shows "safe (publish_lock s)"
proof -
  from inv_res_rel [OF assms(1)] assms(2) have zero: "residual s = 0"
    by (simp add: res_rel_def exclusive_rel_def)
  have "s\<lparr>refcounts_locked := True, writer := PubSetMap\<rparr>
      = s\<lparr>residual := residual s, refcounts_locked := True,
          writer_thread := writer_thread s, writer := PubSetMap, tokens := tokens s\<rparr>"
    by simp
  also have "pinv \<dots>"
    using assms inv_res_rel [OF assms(1)]
    by (intro inv_writer_move) (simp_all add: pc_defs res_rel_def)
  finally show ?thesis using zero by (simp add: publish_lock_def)
qed

lemma inv_publish_unlock:
  assumes "pinv s" "writer s = PubUnlock a"
  shows "pinv (publish_unlock a s)"
proof -
  have "publish_unlock a s = s\<lparr>residual := residual s, refcounts_locked := False,
      writer_thread := writer_thread s, writer := PubFetchAdd a, tokens := tokens s\<rparr>"
    by (simp add: publish_unlock_def)
  also have "pinv \<dots>"
    using assms inv_res_rel [OF assms(1)]
    by (intro inv_writer_move) (simp_all add: pc_defs res_rel_def)
  finally show ?thesis .
qed

lemma inv_publish_fetch_add:
  assumes "pinv s" "writer s = PubFetchAdd a"
  shows "pinv (publish_fetch_add a s)"
proof -
  have "publish_fetch_add a s = s\<lparr>residual := residual s + a, refcounts_locked := refcounts_locked s,
      writer_thread := writer_thread s, writer := Idle, tokens := tokens s\<rparr>"
    by (simp add: publish_fetch_add_def)
  also have "pinv \<dots>"
    using assms inv_res_rel [OF assms(1)] inv_lock [OF assms(1)]
    by (intro inv_writer_move) (simp_all add: pc_defs res_rel_def publishing_rel_def resting_rel_def)
  finally show ?thesis .
qed

text \<open>
  Setting the writer map makes the handles point at it: with no residual guard left, every
  live guard reads the map its handle points at.
\<close>

lemma n_res_cong:
  "guards t = guards s \<Longrightarrow>
   (\<And>g. g \<in> set (guards s) \<Longrightarrow> phase g = Live \<Longrightarrow> expected t (refcount_key g) = expected s (refcount_key g))
   \<Longrightarrow> n_res t = n_res s"
  unfolding n_res_def by (simp, rule cnt_cong) (auto simp: is_residual_def)

lemma inv_publish_set_map:
  assumes "pinv s"
  shows "safe (publish_set_map ks s)"
proof (cases "writer s = PubSetMap \<and> distinct ks \<and> set ks = fst ` set (refcounts s)")
  case False
  then show ?thesis unfolding publish_set_map_def by (simp only: if_False safe_simps)
next
  case True
  let ?s = "s\<lparr>writer_map := other (writer_map s), writer := PubSwap ks 0\<rparr>"
  from True have ks: "distinct ks" "set ks = fst ` set (refcounts s)" and pc: "writer s = PubSetMap" by auto
  have ex: "expected ?s k = expected s k" if "k \<in> fst ` set (refcounts s)" for k
    using that pc ks by (simp add: expected_def todo_def)
  have live_key: "refcount_key g \<in> fst ` set (refcounts s)" if "g \<in> set (guards s)" "phase g = Live" for g
    using assms that by (auto simp: pinv_def handles_ok_def)
  have n: "n_live ?s = n_live s" "n_zero ?s = n_zero s" by (simp_all add: n_live_def n_zero_def fun_eq_iff)
  have r: "n_res ?s = n_res s" using ex live_key by (intro n_res_cong) auto
  have ex_rel: "exclusive_rel (n_res s) (n_zero s) (residual s)"
    using inv_res_rel [OF assms] pc by (simp add: res_rel_def)
  have "pinv ?s"
    unfolding pinv_def
  proof (intro conjI)
    have "v = encode (expected ?s k) (n_live s k) \<and> n_live s k \<le> 2 ^ 62"
      if "map_of (refcounts s) k = Some v" for k v
      using inv_lookup [OF assms that] ex [of k] that unfolding map_of_fst_iff by simp
    then show "refcounts_ok ?s"
      unfolding refcounts_ok_def n using assms by (simp add: pinv_def refcounts_ok_def)
    show "handles_ok ?s" using assms by (simp add: pinv_def handles_ok_def)
    show "residual_ok ?s"
      unfolding residual_ok_def r n using ex_rel by (simp add: res_rel_def exclusive_rel_def publishing_rel_def)
    have "map_index g = other (writer_map s)" if "g \<in> set (guards s)" "phase g = Live" for g
      using ex_rel that pc
      by (auto simp: exclusive_rel_def n_res_def cnt_zero_iff is_residual_def expected_def todo_def)
    then show "publish_ok ?s"
      using assms pc ks by (auto simp: pinv_def publish_ok_def todo_def holds_lock_def)
    show "wakeup_ok ?s"
      using assms by (auto simp: pinv_def wakeup_ok_def past_set_thread_def is_parked_def)
  qed
  with True show ?thesis by (simp add: publish_set_map_def)
qed

lemma inv_publish_swap:
  assumes "pinv s" "writer s = PubSwap ks a"
  shows "safe (Some (publish_swap ks a s))"
proof (cases ks)
  case Nil
  with assms inv_res_rel [OF assms(1)] have "pinv (s\<lparr>writer := PubUnlock a\<rparr>)"
    by (intro inv_set_pc) (simp_all add: pc_defs res_rel_def)
  with Nil show ?thesis by simp
next
  case (Cons k ks')
  let ?n = "n_live s k"
  let ?v = "encode (other (writer_map s)) ?n" and ?sum = "a + of_nat ?n"
  let ?s = "s\<lparr>refcounts := AList.update k ?v (refcounts s), writer := PubSwap ks' ?sum\<rparr>"
  from assms Cons have dist: "k \<notin> set ks'" "distinct ks'" and key: "k \<in> fst ` set (refcounts s)"
    and sub: "set ks' \<subseteq> fst ` set (refcounts s)"
    and idx: "\<And>g. g \<in> set (guards s) \<Longrightarrow> phase g = Live \<Longrightarrow> refcount_key g \<in> set ks \<Longrightarrow>
           map_index g = writer_map s"
    by (auto simp: pinv_def publish_ok_def todo_def)
  from key obtain v where look: "map_of (refcounts s) k = Some v" by (auto simp: map_of_fst_iff)
  with inv_lookup [OF assms(1) look] assms(2) Cons
  have v: "v = encode (writer_map s) ?n" and n: "?n \<le> 2 ^ 62"
    by (simp_all add: expected_def todo_def)
  then have swap: "swap_maps v = (of_nat ?n, ?v)" by (simp add: swap_maps_encode)
  have rel: "n_zero s = 0" "n_res s \<le> unat a" "unat a < 2 ^ 63" "residual s = of_nat (n_res s) - a"
    using inv_res_rel [OF assms(1)] assms(2) by (simp_all add: res_rel_def publishing_rel_def)
  have sum: "unat ?sum = unat a + ?n"
    using rel(3) n by (simp add: unat_word_ariths unat_of_nat)
  have ex: "expected ?s j = (if j = k then other (writer_map s) else expected s j)" for j
    using dist by (simp add: expected_def todo_def assms(2) Cons)
  have live: "n_live ?s = n_live s" "n_zero ?s = n_zero s" by (simp_all add: n_live_def n_zero_def fun_eq_iff)
  have "n_res ?s = cnt (\<lambda>g. is_residual (expected s) g \<or> live_on k g) (guards s)"
    unfolding n_res_def
    by (simp, rule cnt_cong) (auto simp: is_residual_def live_on_def ex idx Cons)
  also have "\<dots> = n_res s + ?n"
    unfolding n_res_def n_live_def
    by (rule cnt_disj) (auto simp: is_residual_def live_on_def idx Cons expected_def todo_def assms(2))
  finally have res: "n_res ?s = n_res s + ?n" .
  have "pinv ?s" if "0 \<le> sint ?sum"
    unfolding pinv_def
  proof (intro conjI)
    show "refcounts_ok ?s"
      unfolding refcounts_ok_def live ex using assms(1) n
      by (auto simp: pinv_def refcounts_ok_def update_conv' distinct_update split: if_splits)
    show "handles_ok ?s" using assms(1) by (simp add: pinv_def handles_ok_def keys_update_present [OF key])
    have "unat ?sum < 2 ^ 63" using that by (simp add: sint_nonneg_iff)
    then show "residual_ok ?s"
      unfolding residual_ok_def live res using rel sum by (simp add: res_rel_def publishing_rel_def)
    show "publish_ok ?s"
      using assms Cons dist sub idx
      by (auto simp: pinv_def publish_ok_def todo_def holds_lock_def keys_update_present [OF key])
    show "wakeup_ok ?s"
      using assms by (auto simp: pinv_def wakeup_ok_def past_set_thread_def is_parked_def)
  qed
  then show ?thesis
    by (auto simp: Cons look swap Let_def not_less)
qed

section \<open>Every step is safe\<close>

lemma inv_writer_step: "pinv s \<Longrightarrow> safe (writer_step s)"
proof (cases "writer s")
  case Flushing
  assume "pinv s"
  with Flushing inv_res_rel [OF this] have "pinv (s\<lparr>writer := Writing\<rparr>)"
    by (intro inv_set_pc) (simp_all add: pc_defs res_rel_def)
  with Flushing show ?thesis by simp
next
  case Closing
  assume "pinv s"
  with Closing inv_res_rel [OF this] have "pinv (s\<lparr>writer := Closed\<rparr>)"
    by (intro inv_set_pc) (simp_all add: pc_defs res_rel_def)
  with Closing show ?thesis by simp
qed (simp_all add: inv_sync_load inv_sync_set_thread inv_sync_fetch_add inv_sync_park inv_sync_reload
       inv_sync_store_zero inv_publish_lock inv_publish_swap inv_publish_unlock inv_publish_fetch_add)

theorem inv_exec: "pinv s \<Longrightarrow> safe (exec a s)"
proof (cases a)
  case (WriterCall c)
  assume "pinv s"
  with inv_res_rel [OF this] have "pinv (s\<lparr>writer := SyncLoad c\<rparr>)" if "writer s = Idle \<or> writer s = Reclaiming"
    using that by (intro inv_set_pc) (auto simp: pc_defs res_rel_def exclusive_rel_def resting_rel_def)
  with WriterCall show ?thesis by auto
next
  case (WriterMove t)
  assume "pinv s"
  then have "pinv (s\<lparr>writer_tid := t\<rparr>)" if "writer s = Idle"
    using that by (simp add: pinv_defs n_live_def n_res_def n_zero_def past_set_thread_def is_parked_def)
  with WriterMove show ?thesis by simp
next
  case DropWriteGuard
  assume "pinv s"
  with inv_res_rel [OF this] have "pinv (s\<lparr>writer := PubLock\<rparr>)" if "writer s = Writing"
    using that by (intro inv_set_pc) (simp_all add: pc_defs res_rel_def)
  with DropWriteGuard show ?thesis by simp
next
  case DropReclaimer
  assume "pinv s"
  with inv_res_rel [OF this] have "pinv (s\<lparr>writer := Idle\<rparr>)" if "writer s = Reclaiming"
    using that by (intro inv_set_pc) (simp_all add: pc_defs res_rel_def exclusive_rel_def resting_rel_def)
  with DropReclaimer show ?thesis by simp
qed (simp_all add: inv_new_reader inv_release_refcount inv_read_guard inv_drop_guard inv_release_residual
       inv_release_store_zero inv_release_unpark inv_writer_step inv_publish_set_map inv_park_spuriously
       clone_reader_def del: writer_step.simps)

lemma inv_build_map: "build_map t key = Some (Inr s) \<Longrightarrow> pinv s"
proof -
  have "pinv (build_core t)"
    by (simp add: build_core_def pinv_defs res_rel_def resting_rel_def n_res_def n_zero_def
        holds_lock_def todo_def past_set_thread_def is_parked_def)
  then have "safe (build_map t key)" unfolding build_map_def by (rule inv_new_reader)
  then show "build_map t key = Some (Inr s) \<Longrightarrow> pinv s" by simp
qed

lemma reachable_inv: "reachable A s \<Longrightarrow> pinv s"
proof (induction rule: reachable.induct)
  case (init t key s)
  then show ?case by (rule inv_build_map)
next
  case (step s a s')
  then show ?case using inv_exec [of s a] by simp
qed

end
