(* ===== verification/Waiting.thy ===== *)
theory Waiting
  imports ProtocolInv
begin

text \<open>
  The wait of \<open>synchronize\<close>: how each step changes the numbers of guards in each phase, that
  a waiting writer is always woken, and when the cell \<open>writer_thread\<close> is accessed by two
  threads at once.
\<close>

section \<open>How the steps change the counts\<close>

text \<open>Guards still reading a map their handle no longer points at, and guards about to unpark.\<close>

definition is_stale :: "(slab_key \<Rightarrow> MapIndex) \<Rightarrow> ReadGuard \<Rightarrow> bool" where
  "is_stale e g \<longleftrightarrow> phase g = Live \<and> map_index g \<noteq> e (refcount_key g)"

definition in_unpark :: "ReadGuard \<Rightarrow> bool" where
  "in_unpark g \<longleftrightarrow> phase g = Unparking"

definition n_stale :: "state \<Rightarrow> nat" where
  "n_stale s = cnt (is_stale (expected s)) (guards s)"

definition n_unp :: "state \<Rightarrow> nat" where
  "n_unp s = cnt in_unpark (guards s)"

lemma n_unp_set_phase:
  "i < length (guards s) \<Longrightarrow>
   n_unp (set_phase i p s) + (if phase (guards s ! i) = Unparking then 1 else 0)
   = n_unp s + (if p = Unparking then 1 else 0)"
  using cnt_update [of i "guards s" in_unpark "(guards s ! i)\<lparr>phase := p\<rparr>"]
  by (simp add: n_unp_def in_unpark_def)

lemma n_stale_set_phase:
  "i < length (guards s) \<Longrightarrow>
   n_stale (set_phase i p s) + (if is_stale (expected s) (guards s ! i) then 1 else 0)
   = n_stale s + (if is_stale (expected s) ((guards s ! i)\<lparr>phase := p\<rparr>) then 1 else 0)"
  using cnt_update [of i "guards s" "is_stale (expected s)" "(guards s ! i)\<lparr>phase := p\<rparr>"]
  by (simp add: n_stale_def)

text \<open>What a reader's step leaves alone.\<close>

definition writer_same :: "state \<Rightarrow> state \<Rightarrow> bool" where
  "writer_same s t \<longleftrightarrow> writer t = writer s \<and> writer_tid t = writer_tid s
     \<and> writer_map t = writer_map s \<and> writer_thread t = writer_thread s"

lemma writer_same_expected: "writer_same s t \<Longrightarrow> expected t = expected s"
  by (simp add: writer_same_def expected_def fun_eq_iff)

lemma handle_effect:
  assumes "exec a s = Some (Inr t)" "a = CloneReader k k' \<or> a = DropReader k"
  shows "writer_same s t \<and> guards t = guards s \<and> tokens t = tokens s \<and> residual t = residual s"
  using assms
  by (auto simp: clone_reader_def new_reader_def release_refcount_def writer_same_def split: if_splits)

lemma read_guard_effect:
  assumes "pinv s" "read_guard k s = Some (Inr t)"
  shows "writer_same s t \<and> tokens t = tokens s \<and> residual t = residual s
     \<and> guards t = guards s @ [\<lparr>refcount_key = k, map_index = expected s k, phase = Live\<rparr>]"
proof -
  from assms(2) obtain v where look: "map_of (refcounts s) k = Some v"
    by (auto simp: read_guard_def split: option.splits)
  from inv_lookup [OF assms(1) look]
  have "increment v = (if n_live s k < 2 ^ 62 then Inr (expected s k) else Inl Abort,
      encode (expected s k) (Suc (n_live s k)))"
    by (simp add: increment_encode)
  with assms(2) look show ?thesis
    by (auto simp: read_guard_def writer_same_def split: if_splits)
qed

lemma drop_guard_effect:
  assumes "pinv s" "drop_guard i s = Some (Inr t)"
  defines "g \<equiv> guards s ! i"
  shows "writer_same s t \<and> tokens t = tokens s \<and> residual t = residual s \<and> i < length (guards s)
     \<and> phase g = Live \<and> guards t = (guards s)[i := g\<lparr>phase :=
          (if expected s (refcount_key g) \<noteq> map_index g then Releasing else Released)\<rparr>]"
proof -
  from assms(2) have i: "i < length (guards s)" and p: "phase g = Live"
    by (auto simp: drop_guard_def in_phase_def g_def split: if_splits)
  then obtain v where look: "map_of (refcounts s) (refcount_key g) = Some v"
    and v: "v = encode (expected s (refcount_key g)) (n_live s (refcount_key g))"
      "n_live s (refcount_key g) \<le> 2 ^ 62"
    using refcount_of_guard [OF assms(1) i] by (auto simp: g_def)
  have "0 < n_live s (refcount_key g)"
    using i p by (auto simp: n_live_def live_on_def g_def intro!: cnt_nth_pos)
  with v have "decrement v = (Inr (expected s (refcount_key g)),
      encode (expected s (refcount_key g)) (n_live s (refcount_key g) - 1))"
    by (simp add: decrement_encode)
  with assms(2) i p look show ?thesis
    by (simp add: drop_guard_def in_phase_def Let_def writer_same_def g_def set_phase_def) auto
qed

lemma release_residual_effect:
  assumes "release_residual i s = Some (Inr t)"
  shows "writer_same s t \<and> tokens t = tokens s \<and> residual t = residual s - 1 \<and> in_phase i Releasing s
     \<and> guards t = guards (set_phase i (if residual s \<noteq> ISIZE_MIN + 1 then Released else ZeroStore) s)"
  using assms by (auto simp: release_residual_def Let_def writer_same_def split: if_splits)

lemma release_store_zero_effect:
  assumes "release_store_zero i s = Some (Inr t)"
  shows "writer_same s t \<and> tokens t = tokens s \<and> residual t = 0 \<and> in_phase i ZeroStore s
     \<and> guards t = guards (set_phase i Unparking s)"
  using assms by (auto simp: release_store_zero_def writer_same_def split: if_splits)

lemma release_unpark_effect:
  assumes "release_unpark i s = Some (Inr t)"
  shows "writer_same s t \<and> residual t = residual s \<and> in_phase i Unparking s
     \<and> tokens t = (tokens s)(the (writer_thread s) := True) \<and> writer_thread s \<noteq> None
     \<and> guards t = guards (set_phase i Released s)"
  using assms by (auto simp: release_unpark_def writer_same_def split: if_splits option.splits)

text \<open>The effects on the four counts.\<close>

lemma counts_cong:
  "expected t = expected s \<Longrightarrow> guards t = guards s \<Longrightarrow>
   n_res t = n_res s \<and> n_zero t = n_zero s \<and> n_unp t = n_unp s \<and> n_stale t = n_stale s"
  by (simp add: n_res_def n_zero_def n_unp_def n_stale_def)

lemma counts_set_phase:
  assumes "writer_same s t" "guards t = guards (set_phase i p s)"
  shows "n_res t = n_res (set_phase i p s) \<and> n_zero t = n_zero (set_phase i p s)
     \<and> n_unp t = n_unp (set_phase i p s) \<and> n_stale t = n_stale (set_phase i p s)"
  using assms(2) writer_same_expected [OF assms(1)] by (intro counts_cong) simp_all

lemma read_guard_counts:
  assumes "pinv s" "read_guard k s = Some (Inr t)"
  shows "n_res t = n_res s \<and> n_zero t = n_zero s \<and> n_unp t = n_unp s \<and> n_stale t = n_stale s"
  using read_guard_effect [OF assms] writer_same_expected [of s t]
  by (simp add: n_res_def n_zero_def n_unp_def n_stale_def is_residual_def in_zero_def in_unpark_def is_stale_def)

lemma drop_guard_counts:
  assumes "pinv s" "drop_guard i s = Some (Inr t)"
  shows "n_res t = n_res s \<and> n_zero t = n_zero s \<and> n_unp t = n_unp s
     \<and> n_stale s = n_stale t + (if is_stale (expected s) (guards s ! i) then 1 else 0)"
proof -
  let ?g = "guards s ! i"
  let ?p = "if expected s (refcount_key ?g) \<noteq> map_index ?g then Releasing else Released"
  have e: "writer_same s t" "i < length (guards s)" "phase ?g = Live" "guards t = guards (set_phase i ?p s)"
    using drop_guard_effect [OF assms] by simp_all
  show ?thesis
    using counts_set_phase [OF e(1,4)] e(2,3) n_res_set_phase [of i s ?p] n_zero_set_phase [of i s ?p]
      n_unp_set_phase [of i s ?p] n_stale_set_phase [of i s ?p]
    by (auto simp: is_residual_def is_stale_def split: if_splits)
qed

lemma release_residual_counts:
  assumes "release_residual i s = Some (Inr t)"
  shows "n_res s = Suc (n_res t) \<and> n_unp t = n_unp s \<and> n_stale t = n_stale s
     \<and> n_zero t = (if residual s = ISIZE_MIN + 1 then Suc (n_zero s) else n_zero s)"
proof -
  let ?p = "if residual s \<noteq> ISIZE_MIN + 1 then Released else ZeroStore"
  have e: "writer_same s t" "in_phase i Releasing s" "guards t = guards (set_phase i ?p s)"
    using release_residual_effect [OF assms] by simp_all
  show ?thesis
    using counts_set_phase [OF e(1,3)] e(2) n_res_set_phase [of i s ?p] n_zero_set_phase [of i s ?p]
      n_unp_set_phase [of i s ?p] n_stale_set_phase [of i s ?p]
    by (auto simp: in_phase_def is_residual_def is_stale_def split: if_splits)
qed

lemma release_store_zero_counts:
  assumes "release_store_zero i s = Some (Inr t)"
  shows "n_res t = n_res s \<and> n_zero s = Suc (n_zero t) \<and> n_unp t = Suc (n_unp s) \<and> n_stale t = n_stale s"
proof -
  have e: "writer_same s t" "in_phase i ZeroStore s" "guards t = guards (set_phase i Unparking s)"
    using release_store_zero_effect [OF assms] by simp_all
  show ?thesis
    using counts_set_phase [OF e(1,3)] e(2) n_res_set_phase [of i s Unparking]
      n_zero_set_phase [of i s Unparking] n_unp_set_phase [of i s Unparking] n_stale_set_phase [of i s Unparking]
    by (simp add: in_phase_def is_residual_def is_stale_def)
qed

lemma release_unpark_counts:
  assumes "release_unpark i s = Some (Inr t)"
  shows "n_res t = n_res s \<and> n_zero t = n_zero s \<and> n_unp s = Suc (n_unp t) \<and> n_stale t = n_stale s"
proof -
  have e: "writer_same s t" "in_phase i Unparking s" "guards t = guards (set_phase i Released s)"
    using release_unpark_effect [OF assms] by simp_all
  show ?thesis
    using counts_set_phase [OF e(1,3)] e(2) n_res_set_phase [of i s Released]
      n_zero_set_phase [of i s Released] n_unp_set_phase [of i s Released] n_stale_set_phase [of i s Released]
    by (simp add: in_phase_def is_residual_def is_stale_def)
qed

section \<open>The wait ends\<close>

text \<open>Inside a call of \<open>synchronize\<close> made by \<open>c\<close>, and a rank of the program points.\<close>

definition syncing :: "sync_caller \<Rightarrow> writer_pc \<Rightarrow> bool" where
  "syncing c pc \<longleftrightarrow> pc \<in> {SyncLoad c, SyncSetThread c, SyncFetchAdd c, SyncPark c, SyncReload c, SyncStoreZero c}"

definition pc_rank :: "writer_pc \<Rightarrow> nat" where
  "pc_rank pc = (case pc of SyncLoad c \<Rightarrow> 4 | SyncSetThread c \<Rightarrow> 3 | SyncFetchAdd c \<Rightarrow> 2
     | SyncReload c \<Rightarrow> 1 | SyncStoreZero c \<Rightarrow> 1 | _ \<Rightarrow> 0)"

text \<open>
  The work left before a wait can end: six steps for each stale guard, one less for each step
  a guard has made towards its release, two for a token not yet taken.
\<close>

definition wait_measure :: "state \<Rightarrow> nat" where
  "wait_measure s = 5 * n_res s + n_stale s + 4 * n_zero s + 3 * n_unp s
     + (if tokens s (writer_tid s) then 2 else 0) + pc_rank (writer s)"

text \<open>The steps that bring a wait forward: the writer's own, and those that release a residual guard.\<close>

definition progress :: "state \<Rightarrow> action \<Rightarrow> bool" where
  "progress s a = (case a of WriterStep \<Rightarrow> True | ReleaseResidual i \<Rightarrow> True | ReleaseStoreZero i \<Rightarrow> True
     | ReleaseUnpark i \<Rightarrow> True
     | DropGuard i \<Rightarrow> i < length (guards s) \<and> is_stale (expected s) (guards s ! i) | _ \<Rightarrow> False)"

lemma writer_step_syncing:
  assumes "syncing c (writer s)" "writer_step s = Some (Inr t)"
  shows "writer t = after_sync c \<or> syncing c (writer t) \<and> wait_measure t < wait_measure s"
proof -
  have "guards t = guards s" "writer_map t = writer_map s" "writer_tid t = writer_tid s"
    using assms by (auto simp: syncing_def sync_load_def sync_set_thread_def sync_fetch_add_def sync_park_def
        sync_reload_def sync_store_zero_def Let_def split: if_splits)
  moreover have "todo (writer s) = []" using assms(1) by (auto simp: syncing_def todo_def)
  moreover have "writer t = after_sync c \<or> syncing c (writer t)
      \<and> (if tokens t (writer_tid s) then 2 else 0) + pc_rank (writer t)
        < (if tokens s (writer_tid s) then 2 else 0) + pc_rank (writer s)"
    using assms by (auto simp: syncing_def sync_load_def sync_set_thread_def sync_fetch_add_def sync_park_def
        sync_reload_def sync_store_zero_def Let_def pc_rank_def split: if_splits)
  moreover have "todo (writer t) = []" if "syncing c (writer t)"
    using that by (auto simp: syncing_def todo_def)
  ultimately show ?thesis
    using counts_cong [of t s] by (auto simp: wait_measure_def expected_def fun_eq_iff)
qed

lemma wait_step:
  assumes "pinv s" "syncing c (writer s)" "exec a s = Some (Inr t)" "a \<noteq> ParkSpuriously"
  shows "writer t = after_sync c \<or> syncing c (writer t) \<and> wait_measure t \<le> wait_measure s
     \<and> (progress s a \<longrightarrow> wait_measure t < wait_measure s)"
proof (cases a)
  case (CloneReader k k')
  with assms(3) have "writer_same s t \<and> guards t = guards s \<and> tokens t = tokens s"
    using handle_effect [of a s t k k'] by blast
  with assms(2) CloneReader show ?thesis
    using counts_cong [of t s] writer_same_expected [of s t]
    by (simp add: wait_measure_def writer_same_def progress_def)
next
  case (DropReader k)
  with assms(3) have "writer_same s t \<and> guards t = guards s \<and> tokens t = tokens s"
    using handle_effect [of a s t k k] by blast
  with assms(2) DropReader show ?thesis
    using counts_cong [of t s] writer_same_expected [of s t]
    by (simp add: wait_measure_def writer_same_def progress_def)
next
  case (NewGuard k)
  with assms show ?thesis
    using read_guard_effect [of s k t] read_guard_counts [of s k t]
    by (simp add: wait_measure_def writer_same_def progress_def)
next
  case (DropGuard i)
  with assms show ?thesis
    using drop_guard_effect [of s i t] drop_guard_counts [of s i t]
    by (auto simp: wait_measure_def writer_same_def progress_def)
next
  case (ReleaseResidual i)
  with assms show ?thesis
    using release_residual_effect [of i s t] release_residual_counts [of i s t]
    by (simp add: wait_measure_def writer_same_def)
next
  case (ReleaseStoreZero i)
  with assms show ?thesis
    using release_store_zero_effect [of i s t] release_store_zero_counts [of i s t]
    by (simp add: wait_measure_def writer_same_def)
next
  case (ReleaseUnpark i)
  with assms show ?thesis
    using release_unpark_effect [of i s t] release_unpark_counts [of i s t]
    by (simp add: wait_measure_def writer_same_def)
next
  case WriterStep
  with assms show ?thesis
    using writer_step_syncing [of c s t] by (auto simp del: writer_step.simps)
qed (use assms in \<open>auto simp: syncing_def publish_set_map_def split: if_splits\<close>)

lemma n_resE:
  assumes "0 < n_res s"
  obtains i where "in_phase i Releasing s"
    | i where "i < length (guards s)" "is_stale (expected s) (guards s ! i)"
proof -
  from assms obtain g where "g \<in> set (guards s)" "is_residual (expected s) g"
    by (auto simp: n_res_def cnt_pos_iff)
  then obtain i where "i < length (guards s)" "is_residual (expected s) (guards s ! i)"
    by (auto simp: in_set_conv_nth)
  with that show ?thesis by (auto simp: is_residual_def is_stale_def in_phase_def)
qed

lemma drop_guard_enabled:
  assumes "pinv s" "in_phase i Live s"
  shows "\<exists>t. drop_guard i s = Some (Inr t)"
proof -
  from assms(2) have i: "i < length (guards s)" "phase (guards s ! i) = Live" by (auto simp: in_phase_def)
  then obtain v where look: "map_of (refcounts s) (refcount_key (guards s ! i)) = Some v"
    using refcount_of_guard [OF assms(1) i(1)] by auto
  obtain j n where "n < 2 ^ 63" "v = encode j n" using encode_surj by blast
  then show ?thesis
    using assms(2) look by (simp add: drop_guard_def Let_def decrement_def to_map_index_encode)
qed

lemma parked_enabled:
  assumes "pinv s" "writer s = SyncPark c"
  shows "\<exists>a t. progress s a \<and> exec a s = Some (Inr t)"
proof -
  from assms consider "0 < n_res s" | "0 < n_zero s" | g where "g \<in> set (guards s)" "phase g = Unparking"
    | "tokens s (writer_tid s)"
    by (auto simp: pinv_def wakeup_ok_def is_parked_def)
  then show ?thesis
  proof cases
    case 1
    then show ?thesis
    proof (cases rule: n_resE)
      case (1 i)
      then show ?thesis
        by (intro exI [of _ "ReleaseResidual i"]) (simp add: progress_def release_residual_def Let_def)
    next
      case (2 i)
      with drop_guard_enabled [OF assms(1), of i] show ?thesis
        by (intro exI [of _ "DropGuard i"]) (auto simp: progress_def is_stale_def in_phase_def)
    qed
  next
    case 2
    then obtain i where "in_phase i ZeroStore s"
      by (auto simp: n_zero_def cnt_pos_iff in_zero_def in_phase_def in_set_conv_nth)
    then show ?thesis
      by (intro exI [of _ "ReleaseStoreZero i"]) (simp add: progress_def release_store_zero_def)
  next
    case (3 g)
    then obtain i where "in_phase i Unparking s" by (auto simp: in_phase_def in_set_conv_nth)
    moreover have "writer_thread s = Some (writer_tid s)"
      using inv_thread [OF assms(1)] assms(2) by (simp add: past_set_thread_def)
    ultimately show ?thesis
      by (intro exI [of _ "ReleaseUnpark i"]) (simp add: progress_def release_unpark_def)
  next
    case 4
    with assms(2) show ?thesis
      by (intro exI [of _ WriterStep]) (simp add: progress_def sync_park_def)
  qed
qed

lemma wait_enabled:
  assumes "pinv s" "syncing c (writer s)"
  shows "\<exists>a t. progress s a \<and> exec a s = Some (Inr t)"
proof (cases "writer s = SyncPark c")
  case True
  with assms(1) show ?thesis by (rule parked_enabled)
next
  case False
  with assms inv_writer_step [OF assms(1)] show ?thesis
    by (intro exI [of _ WriterStep])
      (auto simp: syncing_def progress_def sync_reload_def split: if_splits)
qed

text \<open>A run in which every step brings the wait forward.\<close>

fun progress_run :: "action list \<Rightarrow> state \<Rightarrow> bool" where
  "progress_run [] s = True"
| "progress_run (a # as) s =
     (progress s a \<and> (case exec a s of Some (Inr t) \<Rightarrow> progress_run as t | _ \<Rightarrow> False))"

lemma wait_completes:
  assumes "pinv s" "syncing c (writer s)"
  shows "\<exists>as t. progress_run as s \<and> run as s = Some (Inr t) \<and> writer t = after_sync c
     \<and> length as \<le> Suc (wait_measure s)"
  using assms
proof (induction "wait_measure s" arbitrary: s rule: less_induct)
  case less
  then obtain a t where a: "progress s a" "exec a s = Some (Inr t)"
    using wait_enabled by blast
  then have "a \<noteq> ParkSpuriously" by (auto simp: progress_def)
  with less.prems a consider "writer t = after_sync c"
    | "syncing c (writer t)" "wait_measure t < wait_measure s"
    using wait_step [of s c a t] by blast
  then show ?case
  proof cases
    case 1
    with a show ?thesis by (intro exI [of _ "[a]"] exI [of _ t]) simp
  next
    case 2
    moreover have "pinv t" using inv_exec [OF less.prems(1), of a] a by simp
    ultimately obtain as u where "progress_run as t" "run as t = Some (Inr u)" "writer u = after_sync c"
      "length as \<le> Suc (wait_measure t)"
      using less.hyps by blast
    with a 2 show ?thesis by (intro exI [of _ "a # as"] exI [of _ u]) simp
  qed
qed

section \<open>Accesses of \<open>writer_thread\<close>\<close>

text \<open>
  The cell is not atomic. A reader about to unpark reads it, and the writer about to record
  its thread writes it: both at once is a data race.
\<close>

definition thread_race :: "state \<Rightarrow> bool" where
  "thread_race s \<longleftrightarrow> (\<exists>c. writer s = SyncSetThread c) \<and> (\<exists>i. in_phase i Unparking s)"

text \<open>
  As long as \<open>park\<close> returns only for a token of this protocol, a reader unparks a writer that
  is still parked, and there is a token only when every residual reader is done.
\<close>

definition no_tokens :: "state \<Rightarrow> bool" where
  "no_tokens s \<longleftrightarrow> (\<forall>t. \<not> tokens s t)"

definition wake_rel :: "writer_pc \<Rightarrow> nat \<Rightarrow> nat \<Rightarrow> nat \<Rightarrow> bool \<Rightarrow> bool" where
  "wake_rel pc R Z U tok =
     (if is_parked pc then U \<le> 1 \<and> (U = 0 \<or> R = 0 \<and> Z = 0) \<and> (tok \<longrightarrow> R = 0 \<and> Z = 0 \<and> U = 0)
      else U = 0 \<and> \<not> tok \<and> ((\<exists>c. pc = SyncReload c) \<longrightarrow> R = 0 \<and> Z = 0))"

definition wake_ok :: "state \<Rightarrow> bool" where
  "wake_ok s \<longleftrightarrow> wake_rel (writer s) (n_res s) (n_zero s) (n_unp s) (tokens s (writer_tid s))
     \<and> (\<forall>t. t \<noteq> writer_tid s \<longrightarrow> \<not> tokens s t)"

definition not_spurious :: "action \<Rightarrow> bool" where
  "not_spurious a \<longleftrightarrow> a \<noteq> ParkSpuriously"

lemma parked_res:
  "pinv s \<Longrightarrow> is_parked (writer s) \<Longrightarrow> waiting_rel (n_res s) (n_zero s) (residual s)"
  using inv_res_rel [of s] by (cases "writer s") (simp_all add: is_parked_def res_rel_def)

lemma zero_parked:
  "pinv s \<Longrightarrow> 0 < n_zero s \<Longrightarrow> is_parked (writer s) \<or> (\<exists>c. writer s = SyncReload c)"
  using inv_res_rel [of s] by (cases "writer s") (simp_all add: is_parked_def res_rel_defs)

lemma wake_ok_cong:
  assumes "wake_ok s" "writer_same s t" "tokens t = tokens s"
    and "n_res t = n_res s" "n_zero t = n_zero s" "n_unp t = n_unp s"
  shows "wake_ok t"
  using assms by (simp add: wake_ok_def writer_same_def)

lemma wake_release_residual:
  assumes "pinv s" "wake_ok s" "release_residual i s = Some (Inr t)"
  shows "wake_ok t"
proof -
  have eff: "writer_same s t" "tokens t = tokens s" using release_residual_effect [OF assms(3)] by auto
  have n: "n_res s = Suc (n_res t)" "n_unp t = n_unp s"
    "n_zero t = (if residual s = ISIZE_MIN + 1 then Suc (n_zero s) else n_zero s)"
    using release_residual_counts [OF assms(3)] by auto
  then show ?thesis
    using assms(2) eff by (auto simp: wake_ok_def wake_rel_def writer_same_def split: if_splits)
qed

lemma wake_release_store_zero:
  assumes "pinv s" "wake_ok s" "release_store_zero i s = Some (Inr t)"
  shows "wake_ok t"
proof -
  have eff: "writer_same s t" "tokens t = tokens s" using release_store_zero_effect [OF assms(3)] by auto
  have n: "n_res t = n_res s" "n_unp t = Suc (n_unp s)" "n_zero s = Suc (n_zero t)"
    using release_store_zero_counts [OF assms(3)] by auto
  have "is_parked (writer s)"
    using zero_parked [OF assms(1)] n(3) assms(2) by (auto simp: wake_ok_def wake_rel_def is_parked_def split: if_splits)
  moreover from this have "n_zero s \<le> 1" "n_res s = 0"
    using parked_res [OF assms(1)] n(3) by (auto simp: waiting_rel_def)
  ultimately show ?thesis
    using assms(2) eff n by (auto simp: wake_ok_def wake_rel_def writer_same_def split: if_splits)
qed

lemma wake_release_unpark:
  assumes "pinv s" "wake_ok s" "release_unpark i s = Some (Inr t)"
  shows "wake_ok t"
proof -
  have eff: "writer_same s t" "tokens t = (tokens s)(the (writer_thread s) := True)"
    using release_unpark_effect [OF assms(3)] by auto
  have n: "n_res t = n_res s" "n_zero t = n_zero s" "n_unp s = Suc (n_unp t)"
    using release_unpark_counts [OF assms(3)] by auto
  then have parked: "is_parked (writer s)"
    using assms(2) by (auto simp: wake_ok_def wake_rel_def split: if_splits)
  then have "writer_thread s = Some (writer_tid s)"
    using inv_thread [OF assms(1)] by (cases "writer s") (auto simp: is_parked_def past_set_thread_def)
  with parked n eff assms(2) show ?thesis
    by (auto simp: wake_ok_def wake_rel_def writer_same_def)
qed

lemma n_unp_writer [simp]:
  "n_unp (s\<lparr>writer := pc\<rparr>) = n_unp s" "n_unp (s\<lparr>residual := r\<rparr>) = n_unp s"
  "n_unp (s\<lparr>writer_thread := wt\<rparr>) = n_unp s" "n_unp (s\<lparr>tokens := tk\<rparr>) = n_unp s"
  "n_unp (s\<lparr>refcounts_locked := l\<rparr>) = n_unp s" "n_unp (s\<lparr>refcounts := rs\<rparr>) = n_unp s"
  "n_unp (s\<lparr>writer_map := m\<rparr>) = n_unp s" "n_unp (s\<lparr>writer_tid := t\<rparr>) = n_unp s"
  by (simp_all add: n_unp_def)

text \<open>Outside the park loop the relation only says that nothing is pending.\<close>

lemma wake_quiet:
  assumes "wake_ok s" "\<not> is_parked (writer s)" "n_unp t = n_unp s" "tokens t = tokens s"
    and "\<forall>c. writer t \<noteq> SyncReload c"
  shows "wake_ok t"
proof -
  have "\<not> tokens s u" for u
    using assms(1,2) by (cases "u = writer_tid s") (simp_all add: wake_ok_def wake_rel_def)
  moreover have "n_unp s = 0" using assms(1,2) by (simp add: wake_ok_def wake_rel_def)
  ultimately show ?thesis using assms(3-5) by (simp add: wake_ok_def wake_rel_def)
qed

lemma wake_park:
  assumes "wake_ok s" "writer s = SyncPark c" "sync_park c s = Some (Inr t)"
  shows "wake_ok t"
proof -
  from assms(3) have t: "t = s\<lparr>tokens := (tokens s)(writer_tid s := False), writer := SyncReload c\<rparr>"
    and tok: "tokens s (writer_tid s)"
    by (auto simp: sync_park_def split: if_splits)
  have "expected t = expected s" by (simp add: t expected_def todo_def assms(2) fun_eq_iff)
  then have "n_res t = n_res s" "n_zero t = n_zero s" by (simp_all add: n_res_def n_zero_def t)
  with assms(1,2) tok show ?thesis
    by (simp add: wake_ok_def wake_rel_def is_parked_def) (simp add: t)
qed

lemma publish_swap_effect:
  "publish_swap ks a s = Inr t \<Longrightarrow>
   guards t = guards s \<and> tokens t = tokens s \<and> writer_tid t = writer_tid s
   \<and> writer_thread t = writer_thread s \<and> (\<forall>c. writer t \<noteq> SyncReload c)"
  by (cases ks) (auto simp: Let_def split: option.splits prod.splits if_splits)

lemma after_sync_neq [simp]: "after_sync c \<noteq> SyncReload c'"
  by (cases c) simp_all

lemma wake_writer_step:
  assumes "wake_ok s" "writer_step s = Some (Inr t)"
  shows "wake_ok t"
proof (cases "is_parked (writer s)")
  case True
  then obtain c where c: "writer s = SyncPark c" by (cases "writer s") (auto simp: is_parked_def)
  from assms(2) c have "sync_park c s = Some (Inr t)" by simp
  with assms(1) c show ?thesis by (rule wake_park)
next
  case False
  have "n_unp t = n_unp s \<and> tokens t = tokens s \<and> (\<forall>c. writer t \<noteq> SyncReload c)"
  proof (cases "writer s")
    case (PubSwap ks a)
    with assms(2) have "publish_swap ks a s = Inr t" by simp
    then show ?thesis using publish_swap_effect [of ks a s t] by (simp add: n_unp_def)
  next
    case (SyncPark c)
    with False show ?thesis by (simp add: is_parked_def)
  next
    case (SyncLoad c)
    with assms(2) show ?thesis by (auto simp: sync_load_def split: if_splits)
  next
    case (SyncReload c)
    with assms(2) show ?thesis by (auto simp: sync_reload_def split: if_splits)
  next
    case PubLock
    with assms(2) show ?thesis by (auto simp: publish_lock_def split: if_splits)
  qed (use assms(2) in \<open>auto simp: sync_set_thread_def sync_fetch_add_def sync_store_zero_def
        publish_unlock_def publish_fetch_add_def Let_def split: if_splits\<close>)
  with assms(1) False show ?thesis by (intro wake_quiet [of s t]) simp_all
qed

lemma wake_exec:
  assumes "pinv s" "wake_ok s" "exec a s = Some (Inr t)" "not_spurious a"
  shows "wake_ok t"
proof (cases a)
  case (CloneReader k k')
  with assms(3) have "writer_same s t \<and> guards t = guards s \<and> tokens t = tokens s"
    using handle_effect [of a s t k k'] by blast
  with counts_cong [of t s] writer_same_expected [of s t] show ?thesis
    by (intro wake_ok_cong [OF assms(2)]) auto
next
  case (DropReader k)
  with assms(3) have "writer_same s t \<and> guards t = guards s \<and> tokens t = tokens s"
    using handle_effect [of a s t k k] by blast
  with counts_cong [of t s] writer_same_expected [of s t] show ?thesis
    by (intro wake_ok_cong [OF assms(2)]) auto
next
  case (NewGuard k)
  with assms read_guard_effect [of s k t] read_guard_counts [of s k t] show ?thesis
    by (intro wake_ok_cong [OF assms(2)]) auto
next
  case (DropGuard i)
  with assms drop_guard_effect [of s i t] drop_guard_counts [of s i t] show ?thesis
    by (intro wake_ok_cong [OF assms(2)]) auto
next
  case (ReleaseResidual i)
  with assms show ?thesis by (intro wake_release_residual [of s i t]) simp_all
next
  case (ReleaseStoreZero i)
  with assms show ?thesis by (intro wake_release_store_zero [of s i t]) simp_all
next
  case (ReleaseUnpark i)
  with assms show ?thesis by (intro wake_release_unpark [of s i t]) simp_all
next
  case WriterStep
  with assms(2,3) show ?thesis by (intro wake_writer_step [of s t]) (simp_all del: writer_step.simps)
next
  case ParkSpuriously
  with assms(4) show ?thesis by (simp add: not_spurious_def)
qed (use assms(3) in \<open>auto intro!: wake_quiet [OF assms(2)] simp: publish_set_map_def is_parked_def
       split: if_splits\<close>)

lemma wake_build_map: "build_map t key = Some (Inr s) \<Longrightarrow> wake_ok s"
  by (auto simp: build_map_def new_reader_def build_core_def wake_ok_def wake_rel_def is_parked_def n_unp_def
      split: if_splits)

lemma reachable_wake: "reachable not_spurious s \<Longrightarrow> wake_ok s"
proof (induction rule: reachable.induct)
  case (init t key s)
  then show ?case by (rule wake_build_map)
next
  case (step s a s')
  then show ?case by (blast intro: wake_exec reachable_inv)
qed

end
