(* ===== verification/CoreProps.thy ===== *)
theory CoreProps
  imports Waiting
begin

text \<open>
  The properties of \<open>src/core/mod.rs\<close> and \<open>src/read.rs\<close> that the invariant gives: exclusion
  between readers and the writer, absence of faults, the end of every wait, and the
  accesses of \<open>writer_thread\<close>.
\<close>

section \<open>Exclusion\<close>

text \<open>The program points at which the writer may touch its map, or hands out owned values.\<close>

definition exclusive :: "writer_pc \<Rightarrow> bool" where
  "exclusive pc \<longleftrightarrow> pc \<in> {Flushing, Writing, PubLock, PubSetMap, Reclaiming, Closing}"

lemma exclusive_index:
  assumes "pinv s" "exclusive (writer s)" "g \<in> set (guards s)" "phase g = Live"
  shows "map_index g = other (writer_map s)"
proof -
  have "n_res s = 0" "todo (writer s) = []"
    using inv_res_rel [OF assms(1)] assms(2)
    by (auto simp: exclusive_def res_rel_def exclusive_rel_def todo_def)
  with assms(3,4) show ?thesis
    by (auto simp: n_res_def cnt_zero_iff is_residual_def expected_def)
qed

text \<open>Two runs the witnesses use: one reader held across a publication, until the writer waits for it.\<close>

definition write_once :: "slab_key list \<Rightarrow> action list" where
  "write_once ks = [WriterCall ByGuard, WriterStep, WriterStep, DropWriteGuard, WriterStep, WriterIter ks]
     @ replicate (length ks + 3) WriterStep"

definition held_reader :: "action list" where
  "held_reader = [NewGuard 0] @ write_once [0]"

definition succeeds :: "state step \<Rightarrow> bool" where
  "succeeds r = (case r of Some (Inr s) \<Rightarrow> True | _ \<Rightarrow> False)"

definition example_start :: state where
  "example_start = (build_core 7)\<lparr>refcounts := [(0, 0)]\<rparr>"

definition example_run :: "action list \<Rightarrow> state" where
  "example_run as = (case run as example_start of Some (Inr t) \<Rightarrow> t | _ \<Rightarrow> example_start)"

lemma example_built: "build_map 7 0 = Some (Inr example_start)"
  by (simp add: build_map_def new_reader_def build_core_def example_start_def refcount_new_eq)

lemma example_reachable:
  assumes "list_all A as" "succeeds (run as example_start)"
  shows "reachable A (example_run as)"
proof -
  have "reachable A example_start" using example_built by (rule reachable.init)
  with assms show ?thesis
    by (auto simp: example_run_def succeeds_def intro: core_machine.reach_run split: option.splits sum.splits)
qed

definition waiting_run :: "action list" where
  "waiting_run = held_reader @ [WriterCall ByGuard, WriterStep, WriterStep, WriterStep]"

definition writing_run :: "action list" where
  "writing_run = [WriterCall ByGuard, WriterStep, WriterStep, NewGuard 0]"

definition race_run :: "action list" where
  "race_run = waiting_run @ [DropGuard 0, ReleaseResidual 0, ReleaseStoreZero 0, ParkSpuriously, WriterStep,
     WriterStep, NewGuard 0, DropWriteGuard, WriterStep, WriterIter [0], WriterStep, WriterStep, WriterStep,
     WriterStep, WriterCall ByGuard, WriterStep]"

lemma example_states:
  "reachable (\<lambda>_. True) (example_run [])"
  "reachable (\<lambda>_. True) (example_run held_reader)"
  "reachable (\<lambda>_. True) (example_run waiting_run)"
  "reachable (\<lambda>_. True) (example_run writing_run)"
  "reachable not_spurious (example_run waiting_run)"
  by (rule example_reachable; code_simp)+

text \<open>
  C9: at every point where the writer changes its map, re-applies the log to it or hands out
  reclaimed values, no live read guard refers to the writer's map. This holds for every
  interleaving, spurious wake-ups included.
\<close>

theorem writer_excludes_readers:
  assumes "reachable A s" "exclusive (writer s)" "g \<in> set (guards s)" "phase g = Live"
  shows "map_index g \<noteq> writer_map s"
  using exclusive_index [OF reachable_inv [OF assms(1)] assms(2-4)] by simp

theorem writer_excludes_readers_witness:
  "writer (example_run writing_run) = Writing
   \<and> map_index (guards (example_run writing_run) ! 0) \<noteq> writer_map (example_run writing_run)"
proof
  show w: "writer (example_run writing_run) = Writing" by code_simp
  have "guards (example_run writing_run) = [\<lparr>refcount_key = 0, map_index = First, phase = Live\<rparr>]"
    by code_simp
  then show "map_index (guards (example_run writing_run) ! 0) \<noteq> writer_map (example_run writing_run)"
    by (intro writer_excludes_readers [OF example_states(4)]) (simp_all add: w exclusive_def)
qed

section \<open>Faults\<close>

text \<open>
  C10: no step from a reachable state is undefined or panics: reference counts are never used
  after they were freed, the index transmute is always valid, both debug assertions
  (\<open>residual == 0\<close> in \<open>publish\<close>, \<open>residual < 0\<close> in the park loop) hold, and the branch on a
  missing \<open>writer_thread\<close> is unreachable.
\<close>

theorem core_never_faults:
  assumes "reachable A s"
  shows "exec a s \<noteq> Some (Inl (UB u)) \<and> exec a s \<noteq> Some (Inl (Panic msg))"
  using inv_exec [OF reachable_inv [OF assms], of a] by auto

theorem core_never_faults_witness:
  "exec (DropGuard 0) (example_run waiting_run) \<noteq> Some (Inl (UB UseAfterFree))
   \<and> exec (DropGuard 0) (example_run waiting_run) \<noteq> Some (Inl (Panic []))"
  using core_never_faults [OF example_states(3)] .

lemma abort_read_guard:
  assumes "pinv s"
  shows "read_guard k s = Some (Inl Abort) \<longleftrightarrow> k \<in> fst ` set (refcounts s) \<and> n_live s k = 2 ^ 62"
proof (cases "map_of (refcounts s) k")
  case None
  then show ?thesis by (auto simp: read_guard_def map_of_fst_iff)
next
  case (Some v)
  with inv_lookup [OF assms Some] show ?thesis
    unfolding map_of_fst_iff by (auto simp: read_guard_def increment_encode)
qed

lemma abort_publish_swap:
  assumes "pinv s" "writer s = PubSwap ks a"
  shows "publish_swap ks a s = Inl Abort \<longleftrightarrow> (\<exists>k ks'. ks = k # ks' \<and> 2 ^ 63 \<le> unat a + n_live s k)"
proof (cases ks)
  case Nil
  then show ?thesis by simp
next
  case (Cons k ks')
  from assms Cons have "k \<in> fst ` set (refcounts s)"
    by (auto simp: pinv_def publish_ok_def todo_def)
  then obtain v where look: "map_of (refcounts s) k = Some v" by (auto simp: map_of_fst_iff)
  have a: "unat a < 2 ^ 63"
    using inv_res_rel [OF assms(1)] assms(2) by (simp add: res_rel_def publishing_rel_def)
  have n: "n_live s k \<le> 2 ^ 62" and v: "v = encode (expected s k) (n_live s k)"
    using inv_lookup [OF assms(1) look] by simp_all
  have "unat (a + of_nat (n_live s k)) = unat a + n_live s k"
    using a n by (simp add: unat_word_ariths unat_of_nat)
  then have "sint (a + of_nat (n_live s k)) < 0 \<longleftrightarrow> 2 ^ 63 \<le> unat a + n_live s k"
    using sint_nonneg_iff [of "a + of_nat (n_live s k)"] by (simp add: not_le [symmetric] not_less)
  then show ?thesis
    using n by (simp add: Cons look v swap_maps_encode Let_def)
qed

text \<open>
  C27: in a release build the process aborts exactly on a real overflow: a read guard requested on a handle that
  already has \<open>2 ^ 62\<close> live guards, or a \<open>publish\<close> whose sum of residual readers does not fit
  an \<open>isize\<close>. The sign test after the wrapping addition never misses one and never fires early.
\<close>

theorem abort_iff_overflow:
  assumes "reachable A s"
  shows "exec a s = Some (Inl Abort) \<longleftrightarrow>
     (\<exists>k. a = NewGuard k \<and> k \<in> fst ` set (refcounts s) \<and> n_live s k = 2 ^ 62)
     \<or> (\<exists>k ks acc. a = WriterStep \<and> writer s = PubSwap (k # ks) acc \<and> 2 ^ 63 \<le> unat acc + n_live s k)"
proof (cases a)
  case (NewGuard k)
  with abort_read_guard [OF reachable_inv [OF assms]] show ?thesis by simp
next
  case WriterStep
  with abort_publish_swap [OF reachable_inv [OF assms]] show ?thesis
    by (cases "writer s") (auto simp: sync_park_def sync_reload_def publish_lock_def)
next
  case (DropGuard i)
  have "drop_guard i s \<noteq> Some (Inl Abort)"
    using drop_guard_enabled [OF reachable_inv [OF assms], of i]
    by (cases "in_phase i Live s") (auto simp: drop_guard_def)
  with DropGuard show ?thesis by simp
qed (auto simp: clone_reader_def new_reader_def release_refcount_def release_residual_def Let_def
      release_store_zero_def release_unpark_def publish_set_map_def park_spuriously_def
      split: option.splits writer_pc.splits)

theorem abort_iff_overflow_witness:
  "exec (NewGuard 0) (example_run held_reader) \<noteq> Some (Inl Abort)"
proof -
  have "guards (example_run held_reader) = [\<lparr>refcount_key = 0, map_index = First, phase = Live\<rparr>]"
    by code_simp
  then have "n_live (example_run held_reader) 0 = 1" by (simp add: n_live_def live_on_def)
  then show ?thesis using abort_iff_overflow [OF example_states(2), of "NewGuard 0"] by simp
qed

section \<open>Meaning of the counters\<close>

text \<open>
  Outside the swap loop of \<open>publish\<close>, the word of every registered reference count holds
  exactly the number of live guards of its handle and points at the reader map.
\<close>

lemma refcount_counts_guards:
  assumes "reachable A s" "map_of (refcounts s) k = Some v" "\<not> refcounts_locked s"
  shows "v = encode (other (writer_map s)) (cnt (live_on k) (guards s))"
proof -
  have "pinv s" using assms(1) by (rule reachable_inv)
  moreover from this assms(3) have "todo (writer s) = []"
    by (cases "writer s") (auto simp: pinv_def publish_ok_def holds_lock_def todo_def)
  ultimately show ?thesis
    using inv_lookup [OF _ assms(2)] by (simp add: expected_def n_live_def)
qed

lemma residual_counts_readers:
  assumes "reachable A s" "writer s = Idle \<or> writer s = PubLock"
  shows "residual s = of_nat (cnt (\<lambda>g. phase g = Releasing \<or>
           phase g = Live \<and> map_index g = writer_map s) (guards s))
     \<and> (writer s = PubLock \<longrightarrow> residual s = 0)"
proof -
  have "is_residual (expected s) = (\<lambda>g. phase g = Releasing \<or> phase g = Live \<and> map_index g = writer_map s)"
    using assms(2) by (auto simp: is_residual_def expected_def todo_def fun_eq_iff neq_iff_other)
  then show ?thesis
    using inv_res_rel [OF reachable_inv [OF assms(1)]] assms(2)
    by (auto simp: res_rel_def resting_rel_def exclusive_rel_def n_res_def)
qed

text \<open>
  C26: the counters count what they are meant to. Whenever the mutex is free, that is outside \<open>publish\<close>, the word of every
  registered reference count holds exactly the number of live guards of its handle and points at the
  reader map. When the writer is not inside a call, \<open>residual\<close> is exactly the number of residual readers: live
  guards that still read the map their handle has left, and guards that have left it but have not yet
  said so. It is zero before every \<open>publish\<close>.
\<close>

theorem counters_count_readers:
  assumes "reachable A s"
  shows "(\<not> refcounts_locked s \<longrightarrow> (\<forall>k v. map_of (refcounts s) k = Some v \<longrightarrow>
            v = encode (other (writer_map s)) (cnt (live_on k) (guards s))))
     \<and> (writer s = Idle \<or> writer s = PubLock \<longrightarrow>
          residual s = of_nat (cnt (\<lambda>g. phase g = Releasing \<or>
            phase g = Live \<and> map_index g = writer_map s) (guards s)))
     \<and> (writer s = PubLock \<longrightarrow> residual s = 0)"
  using refcount_counts_guards [OF assms] residual_counts_readers [OF assms] by blast

theorem counters_count_readers_witness:
  "map_of (refcounts (example_run held_reader)) 0
     = Some (encode (other (writer_map (example_run held_reader)))
         (cnt (live_on 0) (guards (example_run held_reader))))
   \<and> residual (example_run held_reader) = of_nat (cnt (\<lambda>g. phase g = Releasing \<or>
        phase g = Live \<and> map_index g = writer_map (example_run held_reader)) (guards (example_run held_reader)))
   \<and> residual (example_run held_reader) = 1"
proof -
  have "\<not> refcounts_locked (example_run held_reader)" "writer (example_run held_reader) = Idle"
    "map_of (refcounts (example_run held_reader)) 0 = Some (2 ^ 63 + 1)" "residual (example_run held_reader) = 1"
    by code_simp+
  then show ?thesis using counters_count_readers [OF example_states(2)] by simp
qed

text \<open>
  C20: at most one reader wins the race to wake the writer, in every interleaving, and it does
  so only when no residual reader is left.
\<close>

theorem one_reader_wakes:
  assumes "reachable A s"
  shows "cnt (\<lambda>g. phase g = ZeroStore) (guards s) \<le> 1
     \<and> (0 < cnt (\<lambda>g. phase g = ZeroStore) (guards s) \<longrightarrow>
          residual s = ISIZE_MIN \<and> cnt (\<lambda>g. phase g = Releasing) (guards s) = 0)"
proof -
  have z: "n_zero s = cnt (\<lambda>g. phase g = ZeroStore) (guards s)"
    unfolding n_zero_def by (rule cnt_cong) (simp add: in_zero_def)
  have "cnt (\<lambda>g. phase g = Releasing) (guards s) \<le> n_res s"
    unfolding n_res_def by (rule cnt_mono) (simp add: is_residual_def)
  with inv_res_rel [OF reachable_inv [OF assms]] show ?thesis
    by (cases "writer s") (auto simp: res_rel_defs z split: if_splits)
qed

theorem one_reader_wakes_witness:
  "residual (example_run (waiting_run @ [DropGuard 0, ReleaseResidual 0])) = ISIZE_MIN"
proof -
  let ?s = "example_run (waiting_run @ [DropGuard 0, ReleaseResidual 0])"
  have "reachable (\<lambda>_. True) ?s" by (rule example_reachable; code_simp)
  moreover have "guards ?s = [\<lparr>refcount_key = 0, map_index = First, phase = ZeroStore\<rparr>]" by code_simp
  ultimately show ?thesis using one_reader_wakes [of "\<lambda>_. True" ?s] by simp
qed

section \<open>Waiting\<close>

text \<open>
  C14: no wake-up is lost. Whenever the writer is parked its park token is set, or there is
  a guard that still reads the writer's map or is inside \<open>release_residual\<close>; a guard about to
  unpark will unpark the very thread that is parked.
\<close>

theorem parked_writer_is_woken:
  assumes "reachable A s" "writer s = SyncPark c"
  shows "writer_thread s = Some (writer_tid s) \<and>
     (tokens s (writer_tid s) \<or>
      (\<exists>g\<in>set (guards s). phase g \<in> {Releasing, ZeroStore, Unparking}
         \<or> phase g = Live \<and> map_index g = writer_map s))"
proof -
  have inv: "pinv s" using assms(1) by (rule reachable_inv)
  then have "writer_thread s = Some (writer_tid s)"
    using inv_thread [OF inv] assms(2) by (simp add: past_set_thread_def)
  moreover have "\<exists>g\<in>set (guards s). phase g \<in> {Releasing, ZeroStore, Unparking}
      \<or> phase g = Live \<and> map_index g = writer_map s" if "0 < n_res s"
    using that assms(2)
    by (auto simp: n_res_def cnt_pos_iff is_residual_def expected_def todo_def neq_iff_other)
  moreover have "\<exists>g\<in>set (guards s). phase g \<in> {Releasing, ZeroStore, Unparking}" if "0 < n_zero s"
    using that by (auto simp: n_zero_def cnt_pos_iff in_zero_def)
  ultimately show ?thesis
    using inv assms(2) unfolding pinv_def wakeup_ok_def is_parked_def by auto
qed

theorem parked_writer_is_woken_witness:
  "writer (example_run waiting_run) = SyncPark ByGuard
   \<and> writer_thread (example_run waiting_run) = Some (writer_tid (example_run waiting_run))"
proof
  show w: "writer (example_run waiting_run) = SyncPark ByGuard" by code_simp
  show "writer_thread (example_run waiting_run) = Some (writer_tid (example_run waiting_run))"
    using parked_writer_is_woken [OF example_states(3) w] by simp
qed

text \<open>
  C12: a call of \<open>synchronize\<close> can always be completed. From every reachable state inside the
  call there is a run, no longer than the measure of the outstanding work, that consists only of
  steps of the writer and of steps releasing residual guards, and that returns to the caller.
\<close>

theorem synchronize_completes:
  assumes "reachable A s" "syncing c (writer s)"
  shows "\<exists>as t. progress_run as s \<and> run as s = Some (Inr t) \<and> writer t = after_sync c
     \<and> length as \<le> Suc (wait_measure s)"
  using wait_completes [OF reachable_inv [OF assms(1)] assms(2)] .

theorem synchronize_completes_witness:
  "\<exists>as t. progress_run as (example_run waiting_run) \<and> run as (example_run waiting_run) = Some (Inr t)
     \<and> writer t = Flushing \<and> length as \<le> Suc (wait_measure (example_run waiting_run))"
proof -
  have "syncing ByGuard (writer (example_run waiting_run))" unfolding syncing_def by code_simp
  then show ?thesis using synchronize_completes [OF example_states(3), of ByGuard] by simp
qed

text \<open>
  C13: nothing can delay a waiting writer for ever. As long as \<open>park\<close> does not return
  spuriously, no step of any thread (new guards and new handles included) increases the
  outstanding work of the wait, and every step of the writer or of a residual reader
  decreases it, until \<open>synchronize\<close> returns.
\<close>

theorem synchronize_not_delayed:
  assumes "reachable A s" "syncing c (writer s)" "exec a s = Some (Inr t)" "a \<noteq> ParkSpuriously"
  shows "writer t = after_sync c \<or>
     syncing c (writer t) \<and> wait_measure t \<le> wait_measure s \<and> (progress s a \<longrightarrow> wait_measure t < wait_measure s)"
  using wait_step [OF reachable_inv [OF assms(1)] assms(2-4)] .

theorem synchronize_not_delayed_witness:
  "wait_measure (example_run (waiting_run @ [DropGuard 0])) < wait_measure (example_run waiting_run)"
proof -
  let ?s = "example_run waiting_run" and ?t = "example_run (waiting_run @ [DropGuard 0])"
  have w: "writer ?s = SyncPark ByGuard" "writer ?t = SyncPark ByGuard" by code_simp+
  have g: "guards ?s = [\<lparr>refcount_key = 0, map_index = First, phase = Live\<rparr>]" "writer_map ?s = First"
    by code_simp+
  have ok: "succeeds (run waiting_run example_start)" "succeeds (run (waiting_run @ [DropGuard 0]) example_start)"
    by code_simp+
  then have "exec (DropGuard 0) ?s = Some (Inr ?t)"
    using core_machine.run_snoc [of waiting_run "DropGuard 0" example_start]
    by (auto simp: example_run_def succeeds_def split: option.splits sum.splits)
  moreover have "progress ?s (DropGuard 0)"
    by (simp add: progress_def is_stale_def expected_def todo_def g w)
  ultimately show ?thesis
    using synchronize_not_delayed [OF example_states(3), of ByGuard "DropGuard 0" ?t]
    by (simp add: syncing_def w)
qed

section \<open>The cell \<open>writer_thread\<close>\<close>

text \<open>
  Provided that \<open>park\<close> returns only for an \<open>unpark\<close> of this protocol, the non-atomic cell
  \<open>writer_thread\<close> is, in the interleaving semantics, never read by a reader while the writer is about to write it.
\<close>

theorem no_thread_race_without_spurious_wakeup:
  assumes "reachable not_spurious s"
  shows "\<not> thread_race s"
proof -
  have "n_unp s = 0" if "writer s = SyncSetThread c" for c
    using reachable_wake [OF assms] that by (simp add: wake_ok_def wake_rel_def is_parked_def)
  then show ?thesis
    by (auto simp: thread_race_def n_unp_def cnt_zero_iff in_unpark_def in_phase_def)
qed

theorem no_thread_race_without_spurious_wakeup_witness:
  "\<not> thread_race (example_run waiting_run)"
  using no_thread_race_without_spurious_wakeup [OF example_states(5)] .

text \<open>
  C32: with the spurious wake-ups that \<open>std::thread::park\<close> documents, the data race is
  reachable: a reader that has stored zero may still have to read \<open>writer_thread\<close> when the
  writer, woken spuriously, has written and published again and is about to overwrite the
  cell in its next \<open>synchronize\<close>.
\<close>

theorem thread_race_after_spurious_wakeup:
  "\<exists>s. reachable (\<lambda>_. True) s \<and> thread_race s"
proof (intro exI conjI)
  show "reachable (\<lambda>_. True) (example_run race_run)" by (rule example_reachable; code_simp)
  have "writer (example_run race_run) = SyncSetThread ByGuard" by code_simp
  moreover have "in_phase 0 Unparking (example_run race_run)" by code_simp
  ultimately show "thread_race (example_run race_run)" by (auto simp: thread_race_def)
qed

end
