(* ===== verification/Aliasing.thy ===== *)
theory Aliasing
  imports Prelude
begin

text \<open>
  \<open>src/util/aliasing.rs\<close>: values that may be aliased. All aliases of a value form a family
  (the notion of the documentation of \<open>Alias\<close>); the heap records for each family whether its
  value is alive, was dropped or was moved out. The value itself does not change while it
  is aliased, so an alias carries it beside the name of its family.
\<close>

section \<open>Heap and aliases\<close>

datatype family_state = Unused | Alive | Dropped | MovedOut

record heap =
  next_family :: nat
  families :: "nat \<Rightarrow> family_state"

definition empty_heap :: heap where
  "empty_heap = \<lparr>next_family = 0, families = (\<lambda>_. Unused)\<rparr>"

datatype 'a Alias = Alias (family: nat) (aliased: 'a)

definition alive :: "heap \<Rightarrow> nat \<Rightarrow> bool" where
  "alive h f \<longleftrightarrow> families h f = Alive"

text \<open>\<open>Alias::new\<close> starts a family of its own.\<close>

definition alias_new :: "'a \<Rightarrow> heap \<Rightarrow> 'a Alias \<times> heap" where
  "alias_new v h =
     (Alias (next_family h) v,
      h\<lparr>next_family := Suc (next_family h), families := (families h)(next_family h := Alive)\<rparr>)"

text \<open>\<open>Alias::copy\<close> stays in the family; the value must be safe to read.\<close>

definition alias_copy :: "'a Alias \<Rightarrow> heap \<Rightarrow> 'a Alias res" where
  "alias_copy a h = (if alive h (family a) then Inr a else Inl (UB UseAfterFree))"

definition alias_into_owned :: "'a Alias \<Rightarrow> heap \<Rightarrow> ('a \<times> heap) res" where
  "alias_into_owned a h =
     (if alive h (family a)
      then Inr (aliased a, h\<lparr>families := (families h)(family a := MovedOut)\<rparr>)
      else Inl (UB DoubleFree))"

definition alias_drop :: "'a Alias \<Rightarrow> heap \<Rightarrow> heap res" where
  "alias_drop a h =
     (if alive h (family a) then Inr (h\<lparr>families := (families h)(family a := Dropped)\<rparr>)
      else Inl (UB DoubleFree))"

definition alias_deref :: "'a Alias \<Rightarrow> heap \<Rightarrow> 'a res" where
  "alias_deref a h = (if alive h (family a) then Inr (aliased a) else Inl (UB UseAfterFree))"

text \<open>\<open>PartialEq\<close> and \<open>Hash\<close> of an alias go through \<open>deref\<close>; \<open>hash\<close> is the hash function of the value type.\<close>

definition alias_eq :: "'a Alias \<Rightarrow> 'a Alias \<Rightarrow> heap \<Rightarrow> bool res" where
  "alias_eq a b h = bind_res (alias_deref a h) (\<lambda>x. bind_res (alias_deref b h) (\<lambda>y. Inr (x = y)))"

definition alias_hash :: "('a \<Rightarrow> 'h) \<Rightarrow> 'a Alias \<Rightarrow> heap \<Rightarrow> 'h res" where
  "alias_hash hash a h = bind_res (alias_deref a h) (\<lambda>x. Inr (hash x))"

text \<open>\<open>Debug\<close> and \<open>Display\<close> format the value, with the formatter of its type.\<close>

definition alias_debug_fmt :: "('a \<Rightarrow> string) \<Rightarrow> 'a Alias \<Rightarrow> heap \<Rightarrow> string res" where
  "alias_debug_fmt debug a h = bind_res (alias_deref a h) (\<lambda>x. Inr (debug x))"

definition alias_display_fmt :: "('a \<Rightarrow> string) \<Rightarrow> 'a Alias \<Rightarrow> heap \<Rightarrow> string res" where
  "alias_display_fmt display a h = bind_res (alias_deref a h) (\<lambda>x. Inr (display x))"

text \<open>
  Lookups by a borrowed form go through the wrapper \<open>BorrowHelper\<close>: \<open>new_ref\<close> wraps the form that is looked for, and an
  alias lends the wrapped borrowed form of its value. Its derived \<open>PartialEq\<close> and \<open>Hash\<close> are those of the field.
\<close>

datatype 'q BorrowHelper = BorrowHelper (helper_value: 'q)

definition new_ref :: "'q \<Rightarrow> 'q BorrowHelper" where
  "new_ref q = BorrowHelper q"

definition helper_hash :: "('q \<Rightarrow> 'h) \<Rightarrow> 'q BorrowHelper \<Rightarrow> 'h" where
  "helper_hash hash b = hash (helper_value b)"

definition alias_borrow :: "('a \<Rightarrow> 'q) \<Rightarrow> 'a Alias \<Rightarrow> heap \<Rightarrow> 'q BorrowHelper res" where
  "alias_borrow borrow a h = bind_res (alias_deref a h) (\<lambda>x. Inr (new_ref (borrow x)))"

section \<open>Basic facts\<close>

definition heap_ok :: "heap \<Rightarrow> bool" where
  "heap_ok h \<longleftrightarrow> (\<forall>f. families h f = Unused \<longleftrightarrow> next_family h \<le> f)"

definition alive_set :: "heap \<Rightarrow> nat set" where
  "alive_set h = {f. alive h f}"

lemma heap_ok_empty [simp]: "heap_ok empty_heap"
  by (simp add: heap_ok_def empty_heap_def)

lemma finite_alive: "heap_ok h \<Longrightarrow> finite (alive_set h)"
proof (rule finite_subset)
  assume "heap_ok h"
  then show "alive_set h \<subseteq> {..<next_family h}"
    by (auto simp: alive_set_def alive_def heap_ok_def) (metis family_state.distinct(1) not_less)
qed simp

lemma heap_ok_alive: "heap_ok h \<Longrightarrow> families h f = Alive \<Longrightarrow> f < next_family h"
  by (metis family_state.distinct(1) heap_ok_def not_less)

lemma alias_newD:
  assumes "alias_new v h = (a, h')" "heap_ok h"
  shows "aliased a = v" "heap_ok h'" "family a \<notin> alive_set h" "alive_set h' = insert (family a) (alive_set h)"
  using assms heap_ok_alive [of h "next_family h"]
  by (auto simp: alias_new_def heap_ok_def alive_set_def alive_def split: if_splits)

lemma alias_drop_eq:
  "alive h (family a) \<Longrightarrow> alias_drop a h = Inr (h\<lparr>families := (families h)(family a := Dropped)\<rparr>)"
  by (simp add: alias_drop_def)

lemma alive_set_drop [simp]:
  "alive_set (h\<lparr>families := (families h)(f := Dropped)\<rparr>) = alive_set h - {f}"
  by (auto simp: alive_set_def alive_def)

lemma alive_set_moved [simp]:
  "alive_set (h\<lparr>families := (families h)(f := MovedOut)\<rparr>) = alive_set h - {f}"
  by (auto simp: alive_set_def alive_def)

lemma alive_iff: "alive h f \<longleftrightarrow> f \<in> alive_set h"
  by (simp add: alive_set_def)

lemma heap_ok_drop:
  "heap_ok h \<Longrightarrow> alive h f \<Longrightarrow> heap_ok (h\<lparr>families := (families h)(f := Dropped)\<rparr>)"
  "heap_ok h \<Longrightarrow> alive h f \<Longrightarrow> heap_ok (h\<lparr>families := (families h)(f := MovedOut)\<rparr>)"
  using heap_ok_alive [of h f] by (auto simp: heap_ok_def alive_def)

section \<open>The contract of a family\<close>

text \<open>
  Dropping or taking the value of one alias ends its whole family and no other: afterwards no member
  can be read, copied, compared, hashed, borrowed, formatted, dropped or taken, and every other family is as before.
\<close>

lemma alias_family_ends_once:
  assumes "alias_drop a h = Inr h' \<or> (\<exists>v. alias_into_owned a h = Inr (v, h'))"
  shows "(family b = family a \<longrightarrow>
       alias_deref b h' = Inl (UB UseAfterFree) \<and> alias_copy b h' = Inl (UB UseAfterFree)
       \<and> alias_eq b c h' = Inl (UB UseAfterFree) \<and> alias_hash f b h' = Inl (UB UseAfterFree)
       \<and> alias_borrow g b h' = Inl (UB UseAfterFree) \<and> alias_debug_fmt d b h' = Inl (UB UseAfterFree)
       \<and> alias_display_fmt d b h' = Inl (UB UseAfterFree)
       \<and> alias_drop b h' = Inl (UB DoubleFree) \<and> alias_into_owned b h' = Inl (UB DoubleFree))
     \<and> (family b \<noteq> family a \<longrightarrow> alias_deref b h' = alias_deref b h \<and> alias_copy b h' = alias_copy b h)"
  using assms
  by (auto simp: alias_drop_def alias_into_owned_def alias_deref_def alias_copy_def alias_eq_def alias_hash_def
      alias_borrow_def alias_debug_fmt_def alias_display_fmt_def alive_def
      split: if_splits)

end
