(* ===== verification/Hashmap.thy ===== *)
theory Hashmap
  imports Aliasing
begin

text \<open>
  The hash map the crate builds on (\<open>hashbrown::HashMap\<close>, a third-party package) is a
  parameter: a record of the operations the crate calls, on tables that hold aliases of keys
  and values, and a locale with their documented laws. A table is looked up by a plain key,
  which is compared with the keys behind the stored aliases.
\<close>

section \<open>Operations and laws\<close>

type_synonym ('k, 'v) entry = "'k Alias \<times> 'v Alias"
type_synonym ('k, 'v) content = "'k \<rightharpoonup> ('k, 'v) entry"

record ('m, 'k, 'v, 's) hashbrown =
  hb_with_capacity_and_hasher :: "usize \<Rightarrow> 's \<Rightarrow> 'm"
  hb_len :: "'m \<Rightarrow> nat"
  hb_is_empty :: "'m \<Rightarrow> bool"
  hb_contains_key :: "'m \<Rightarrow> 'k \<Rightarrow> bool"
  hb_get :: "'m \<Rightarrow> 'k \<Rightarrow> 'v Alias option"
  hb_iter :: "'m \<Rightarrow> ('k, 'v) entry list"
  hb_insert_unique :: "'m \<Rightarrow> 'k Alias \<Rightarrow> 'v Alias \<Rightarrow> 'm"   \<comment> \<open>\<open>insert_unique_unchecked\<close>, \<open>insert\<close> of a vacant entry\<close>
  hb_set :: "'m \<Rightarrow> 'k \<Rightarrow> 'v Alias \<Rightarrow> 'm"               \<comment> \<open>assignment through \<open>get_mut\<close> of a present key\<close>
  hb_remove_entry :: "'m \<Rightarrow> 'k \<Rightarrow> ('k, 'v) entry option \<times> 'm"

definition entry_key :: "('k, 'v) entry \<Rightarrow> 'k" where
  "entry_key e = aliased (fst e)"

definition keyed :: "('k, 'v) entry list \<Rightarrow> ('k \<times> ('k, 'v) entry) list" where
  "keyed es = map (\<lambda>e. (entry_key e, e)) es"

text \<open>The content of a table, and tables without duplicate keys.\<close>

definition content_of :: "('m, 'k, 'v, 's) hashbrown \<Rightarrow> 'm \<Rightarrow> ('k, 'v) content" where
  "content_of H m = map_of (keyed (hb_iter H m))"

definition unique_keys :: "('m, 'k, 'v, 's) hashbrown \<Rightarrow> 'm \<Rightarrow> bool" where
  "unique_keys H m \<longleftrightarrow> distinct (map entry_key (hb_iter H m))"

locale hash_table =
  fixes H :: "('m, 'k, 'v, 's) hashbrown"
  assumes new_law: "hb_iter H (hb_with_capacity_and_hasher H c h) = []"
    and len_law: "unique_keys H m \<Longrightarrow> hb_len H m = length (hb_iter H m)"
    and empty_law: "unique_keys H m \<Longrightarrow> hb_is_empty H m \<longleftrightarrow> hb_iter H m = []"
    and contains_law: "unique_keys H m \<Longrightarrow> hb_contains_key H m k \<longleftrightarrow> content_of H m k \<noteq> None"
    and get_law: "unique_keys H m \<Longrightarrow> hb_get H m k = map_option snd (content_of H m k)"
    and insert_unique: "unique_keys H m \<Longrightarrow> content_of H m (aliased ka) = None
          \<Longrightarrow> unique_keys H (hb_insert_unique H m ka va)"
    and insert_content: "unique_keys H m \<Longrightarrow> content_of H m (aliased ka) = None
          \<Longrightarrow> content_of H (hb_insert_unique H m ka va) = (content_of H m)(aliased ka \<mapsto> (ka, va))"
    and set_unique: "unique_keys H m \<Longrightarrow> content_of H m k \<noteq> None \<Longrightarrow> unique_keys H (hb_set H m k va)"
    and set_content: "unique_keys H m \<Longrightarrow> content_of H m k = Some e
          \<Longrightarrow> content_of H (hb_set H m k va) = (content_of H m)(k \<mapsto> (fst e, va))"
    and remove_result: "unique_keys H m \<Longrightarrow> fst (hb_remove_entry H m k) = content_of H m k"
    and remove_unique: "unique_keys H m \<Longrightarrow> unique_keys H (snd (hb_remove_entry H m k))"
    and remove_content: "unique_keys H m
          \<Longrightarrow> content_of H (snd (hb_remove_entry H m k)) = (content_of H m)(k := None)"

section \<open>Content\<close>

lemma map_of_keyed: "map_of (keyed es) k = Some e \<Longrightarrow> e \<in> set es \<and> entry_key e = k"
  by (drule map_of_SomeD) (auto simp: keyed_def)

lemma content_of_key: "content_of H m k = Some e \<Longrightarrow> entry_key e = k"
  unfolding content_of_def by (drule map_of_keyed) simp

lemma finite_content [simp]: "finite (dom (content_of H m))"
  by (simp add: content_of_def finite_dom_map_of)

lemma map_of_keyed_unique:
  "distinct (map entry_key es) \<Longrightarrow> e \<in> set es \<Longrightarrow> map_of (keyed es) (entry_key e) = Some e"
  by (rule map_of_is_SomeI) (auto simp: keyed_def comp_def)

lemma content_ran: "unique_keys H m \<Longrightarrow> ran (content_of H m) = set (hb_iter H m)"
  by (auto simp: content_of_def unique_keys_def ran_def dest: map_of_keyed intro: map_of_keyed_unique)

lemma dom_keyed: "dom (map_of (keyed es)) = entry_key ` set es"
  by (simp add: keyed_def dom_map_of_conv_image_fst image_image)

context hash_table
begin

lemma new_content [simp]: "content_of H (hb_with_capacity_and_hasher H c h) = Map.empty"
  by (simp add: content_of_def new_law keyed_def)

lemma new_unique [simp]: "unique_keys H (hb_with_capacity_and_hasher H c h)"
  by (simp add: unique_keys_def new_law)

lemma len_card: "unique_keys H m \<Longrightarrow> hb_len H m = card (dom (content_of H m))"
  by (simp add: len_law content_of_def dom_keyed unique_keys_def distinct_map card_image distinct_card)

lemma empty_dom: "unique_keys H m \<Longrightarrow> hb_is_empty H m \<longleftrightarrow> content_of H m = Map.empty"
  by (simp add: empty_law content_of_def keyed_def)

end

section \<open>Association lists provide the laws\<close>

text \<open>
  A concrete provider: tables as lists of entries. It shows that the laws can hold and gives
  the runs of the examples something to compute with.
\<close>

fun list_get :: "('k, 'v) entry list \<Rightarrow> 'k \<Rightarrow> ('k, 'v) entry option" where
  "list_get [] k = None"
| "list_get (e # es) k = (if entry_key e = k then Some e else list_get es k)"

definition list_map :: "(('k, 'v) entry list, 'k, 'v, 's) hashbrown" where
  "list_map = \<lparr>
     hb_with_capacity_and_hasher = (\<lambda>c h. []),
     hb_len = length,
     hb_is_empty = (\<lambda>m. m = []),
     hb_contains_key = (\<lambda>m k. list_get m k \<noteq> None),
     hb_get = (\<lambda>m k. map_option snd (list_get m k)),
     hb_iter = (\<lambda>m. m),
     hb_insert_unique = (\<lambda>m ka va. (ka, va) # m),
     hb_set = (\<lambda>m k va. map (\<lambda>e. if entry_key e = k then (fst e, va) else e) m),
     hb_remove_entry = (\<lambda>m k. (list_get m k, filter (\<lambda>e. entry_key e \<noteq> k) m))\<rparr>"

lemma list_get_map_of: "list_get es k = map_of (keyed es) k"
  by (induction es) (auto simp: keyed_def)

lemma entry_key_Pair [simp]: "entry_key (ka, va) = aliased ka"
  by (simp add: entry_key_def)

lemma entry_key_set [simp]: "entry_key (if entry_key e = k then (fst e, va) else e) = entry_key e"
  by (simp add: entry_key_def)

lemma keyed_set:
  "map_of (keyed (map (\<lambda>e. if entry_key e = k then (fst e, va) else e) m)) k' =
     (if k' = k then map_option (\<lambda>e. (fst e, va)) (map_of (keyed m) k) else map_of (keyed m) k')"
  by (induction m) (auto simp: keyed_def entry_key_def)

lemma keyed_filter:
  "map_of (keyed (filter (\<lambda>e. entry_key e \<noteq> k) m)) k' =
     (if k' = k then None else map_of (keyed m) k')"
  by (induction m) (auto simp: keyed_def)

interpretation list_map: hash_table list_map
proof unfold_locales
  fix m :: "('k, 'v) entry list" and k :: 'k and e :: "('k, 'v) entry" and va :: "'v Alias"
  assume "content_of list_map m k = Some e"
  then show "content_of list_map (hb_set list_map m k va) = (content_of list_map m)(k \<mapsto> (fst e, va))"
    by (auto simp: content_of_def list_map_def keyed_set)
qed (auto simp: content_of_def unique_keys_def list_map_def list_get_map_of keyed_def map_of_eq_None_iff
       comp_def image_image distinct_map_filter keyed_filter [unfolded keyed_def])

end
