(* ===== verification/Oplog.thy ===== *)
theory Oplog
  imports Store Hashmap
begin

text \<open>
  \<open>src/write.rs\<close>: the operation log, the write handle with its two maps, the operations of a
  write guard, evicted and leaked values. The functions here are the sequential code; when
  each may run is the business of the protocol (\<open>Protocol\<close>), and \<open>System\<close> puts both together.
\<close>

section \<open>Operations and tokens\<close>

datatype ('k, 'v) RawOperation =
    InsertUnique "'k Alias" "'v Alias"
  | Replace 'k "'v Alias"
  | Remove 'k
  | Drop "'v Alias"

record ('k, 'v) Operation =
  raw :: "('k, 'v) RawOperation"
  leaky :: bool

definition operation_new :: "('k, 'v) RawOperation \<Rightarrow> ('k, 'v) Operation" where
  "operation_new r = \<lparr>raw = r, leaky = False\<rparr>"

definition make_leaky :: "('k, 'v) Operation \<Rightarrow> ('k, 'v) Operation" where
  "make_leaky op = op\<lparr>leaky := True\<rparr>"

record 'v Leaked =
  leaked_value :: "'v Alias"
  leaked_uid :: usize

record 'v Evicted =
  evicted_leaked :: "'v Leaked"
  evicted_operation :: nat

text \<open>
  The write handle with what it reaches: the two maps of the core, the log, its identity, and
  the heaps its keys and values live in.
\<close>

record ('m, 'k, 'v) WriteHandle =
  maps :: "'m MapArray"
  operations :: "('k, 'v) Operation list"
  uid :: usize
  kheap :: heap
  vheap :: heap

text \<open>
  \<open>WriterUid::next\<close> on the global counter: the previous value, or a panic when it is zero.
\<close>

definition writer_uid_next :: "usize \<Rightarrow> usize res \<times> usize" where
  "writer_uid_next next_uid =
     ((if next_uid = 0 then Inl (Panic ''Maximum number of maps exceeded for this architecture'')
       else Inr next_uid), next_uid + 1)"

definition write_handle_new :: "'m MapArray \<Rightarrow> usize \<Rightarrow> ('m, 'k, 'v) WriteHandle res \<times> usize" where
  "write_handle_new ms next_uid =
     (let (r, next') = writer_uid_next next_uid in
      (bind_res r (\<lambda>u. Inr \<lparr>maps = ms, operations = [], uid = u, kheap = empty_heap, vheap = empty_heap\<rparr>),
       next'))"

section \<open>Re-applying the log\<close>

text \<open>
  Looking up a key hashes and compares stored keys, and growing a table hashes all of them:
  each such access requires all stored keys to be alive.
\<close>

definition keys_readable :: "('m, 'k, 'v, 's) hashbrown \<Rightarrow> heap \<Rightarrow> 'm \<Rightarrow> bool" where
  "keys_readable H kh m = list_all (\<lambda>e. alive kh (family (fst e))) (hb_iter H m)"

definition drop_unless :: "bool \<Rightarrow> 'v Alias \<Rightarrow> heap \<Rightarrow> heap res" where
  "drop_unless b a h = (if b then Inr h else alias_drop a h)"

fun flush_raw :: "('m, 'k, 'v, 's) hashbrown \<Rightarrow> ('k, 'v) RawOperation \<Rightarrow> bool \<Rightarrow> 'm \<times> heap \<times> heap
    \<Rightarrow> ('m \<times> heap \<times> heap) res" where
  "flush_raw H (InsertUnique key val) lk (m, kh, vh) =
     bind_res (alias_deref key kh) (\<lambda>k.
       if \<not> keys_readable H kh m then Inl (UB UseAfterFree)
       else if hb_contains_key H m k then Inl (UB DuplicateKey)
       else Inr (hb_insert_unique H m key val, kh, vh))"
| "flush_raw H (Replace key val) lk (m, kh, vh) =
     (if \<not> keys_readable H kh m then Inl (UB UseAfterFree)
      else case hb_get H m key of
        None \<Rightarrow> Inl (UB UnwrapNone)
      | Some slot \<Rightarrow> bind_res (drop_unless lk slot vh) (\<lambda>vh'. Inr (hb_set H m key val, kh, vh')))"
| "flush_raw H (Remove key) lk (m, kh, vh) =
     (if \<not> keys_readable H kh m then Inl (UB UseAfterFree)
      else case hb_remove_entry H m key of
        (None, m') \<Rightarrow> Inl (UB UnwrapNone)
      | (Some (k, v), m') \<Rightarrow>
          bind_res (alias_drop k kh) (\<lambda>kh'.
          bind_res (drop_unless lk v vh) (\<lambda>vh'. Inr (m', kh', vh'))))"
| "flush_raw H (Drop val) lk (m, kh, vh) = bind_res (alias_drop val vh) (\<lambda>vh'. Inr (m, kh, vh'))"

text \<open>One round of the loop of \<open>flush_operations\<close>, on the map with index \<open>i\<close>, and the whole loop.\<close>

definition flush_op :: "('m, 'k, 'v, 's) hashbrown \<Rightarrow> MapIndex \<Rightarrow> ('m, 'k, 'v) WriteHandle
    \<Rightarrow> ('m, 'k, 'v) WriteHandle res" where
  "flush_op H i w =
     (case operations w of
        [] \<Rightarrow> Inr w
      | op # ops \<Rightarrow>
          bind_res (flush_raw H (raw op) (leaky op) (map_get (maps w) i, kheap w, vheap w))
            (\<lambda>(m, kh, vh). Inr (w\<lparr>maps := map_put (maps w) i m, operations := ops, kheap := kh, vheap := vh\<rparr>)))"

fun flush_loop :: "('m, 'k, 'v, 's) hashbrown \<Rightarrow> MapIndex \<Rightarrow> nat \<Rightarrow> ('m, 'k, 'v) WriteHandle
    \<Rightarrow> ('m, 'k, 'v) WriteHandle res" where
  "flush_loop H i 0 w = Inr w"
| "flush_loop H i (Suc n) w = bind_res (flush_op H i w) (flush_loop H i n)"

definition flush_operations :: "('m, 'k, 'v, 's) hashbrown \<Rightarrow> MapIndex \<Rightarrow> ('m, 'k, 'v) WriteHandle
    \<Rightarrow> ('m, 'k, 'v) WriteHandle res" where
  "flush_operations H i w = flush_loop H i (length (operations w)) w"

section \<open>The operations of a write guard\<close>

text \<open>\<open>i\<close> is the index of the writer's map, \<open>push\<close> appends to the log.\<close>

definition push :: "('k, 'v) RawOperation \<Rightarrow> ('m, 'k, 'v) WriteHandle \<Rightarrow> ('m, 'k, 'v) WriteHandle" where
  "push r w = w\<lparr>operations := operations w @ [operation_new r]\<rparr>"

definition evicted_new :: "('m, 'k, 'v) WriteHandle \<Rightarrow> 'v Alias \<Rightarrow> 'v Evicted" where
  "evicted_new w a =
     \<lparr>evicted_leaked = \<lparr>leaked_value = a, leaked_uid = uid w\<rparr>, evicted_operation = length (operations w) - 1\<rparr>"

type_synonym ('m, 'k, 'v) guard_result = "('v Evicted option \<times> ('m, 'k, 'v) WriteHandle) res"

definition guard_insert :: "('m, 'k, 'v, 's) hashbrown \<Rightarrow> MapIndex \<Rightarrow> 'k \<Rightarrow> 'v \<Rightarrow> ('m, 'k, 'v) WriteHandle
    \<Rightarrow> ('m, 'k, 'v) guard_result" where
  "guard_insert H i key val w =
     (let m = map_get (maps w) i; (va, vh) = alias_new val (vheap w) in
      if \<not> keys_readable H (kheap w) m then Inl (UB UseAfterFree)
      else case hb_get H m key of
        None \<Rightarrow>
          (let (ka, kh) = alias_new key (kheap w) in
           bind_res (alias_copy ka kh) (\<lambda>ka'.
           bind_res (alias_copy va vh) (\<lambda>va'.
             Inr (None, push (InsertUnique ka va)
               (w\<lparr>maps := map_put (maps w) i (hb_insert_unique H m ka' va'), kheap := kh, vheap := vh\<rparr>)))))
      | Some old \<Rightarrow>
          bind_res (alias_copy va vh) (\<lambda>va'.
            let w' = push (Replace key va) (w\<lparr>maps := map_put (maps w) i (hb_set H m key va'), vheap := vh\<rparr>)
            in Inr (Some (evicted_new w' old), w')))"

definition guard_replace :: "('m, 'k, 'v, 's) hashbrown \<Rightarrow> MapIndex \<Rightarrow> 'k \<Rightarrow> ('v \<Rightarrow> 'v)
    \<Rightarrow> ('m, 'k, 'v) WriteHandle \<Rightarrow> ('m, 'k, 'v) guard_result" where
  "guard_replace H i key f w =
     (let m = map_get (maps w) i in
      if \<not> keys_readable H (kheap w) m then Inl (UB UseAfterFree)
      else case hb_get H m key of
        Some old \<Rightarrow>
          bind_res (alias_deref old (vheap w)) (\<lambda>v.
            let (new_value, vh) = alias_new (f v) (vheap w) in
            bind_res (alias_copy new_value vh) (\<lambda>copied.
              let w' = push (Replace key copied)
                         (w\<lparr>maps := map_put (maps w) i (hb_set H m key new_value), vheap := vh\<rparr>)
              in Inr (Some (evicted_new w' old), w')))
      | None \<Rightarrow> Inr (None, w))"

definition guard_remove :: "('m, 'k, 'v, 's) hashbrown \<Rightarrow> MapIndex \<Rightarrow> 'k \<Rightarrow> ('m, 'k, 'v) WriteHandle
    \<Rightarrow> ('m, 'k, 'v) guard_result" where
  "guard_remove H i key w =
     (let m = map_get (maps w) i in
      if \<not> keys_readable H (kheap w) m then Inl (UB UseAfterFree)
      else case hb_remove_entry H m key of
        (None, m') \<Rightarrow> Inr (None, w\<lparr>maps := map_put (maps w) i m'\<rparr>)
      | (Some e, m') \<Rightarrow>
          (let w' = push (Remove key) (w\<lparr>maps := map_put (maps w) i m'\<rparr>)
           in Inr (Some (evicted_new w' (snd e)), w')))"

definition LEAKED_VALUE_MISMATCH :: string where
  "LEAKED_VALUE_MISMATCH = ''Leaked value is not from this map''"

definition into_inner :: "'v Leaked \<Rightarrow> 'v Alias" where
  "into_inner l = leaked_value l"

definition drop_lazily :: "'v Leaked \<Rightarrow> ('m, 'k, 'v) WriteHandle \<Rightarrow> ('m, 'k, 'v) WriteHandle res" where
  "drop_lazily l w =
     (if uid w = leaked_uid l then Inr (push (Drop (into_inner l)) w)
      else Inl (Panic LEAKED_VALUE_MISMATCH))"

text \<open>\<open>Evicted::leak\<close> marks the operation that evicted the value; the index is not checked.\<close>

definition leak :: "'v Evicted \<Rightarrow> ('m, 'k, 'v) WriteHandle \<Rightarrow> ('v Leaked \<times> ('m, 'k, 'v) WriteHandle) res" where
  "leak e w =
     (let j = evicted_operation e in
      if j < length (operations w)
      then Inr (evicted_leaked e, w\<lparr>operations := (operations w)[j := make_leaky (operations w ! j)]\<rparr>)
      else Inl (UB BadIndex))"

definition evicted_deref :: "'v Evicted \<Rightarrow> heap \<Rightarrow> 'v res" where
  "evicted_deref e vh = alias_deref (leaked_value (evicted_leaked e)) vh"

definition leaked_deref :: "'v Leaked \<Rightarrow> heap \<Rightarrow> 'v res" where
  "leaked_deref l vh = alias_deref (leaked_value l) vh"

text \<open>The closure that \<open>reclaimer\<close> returns, which \<open>reclaim_one\<close> calls.\<close>

definition reclaim :: "'v Leaked \<Rightarrow> ('m, 'k, 'v) WriteHandle \<Rightarrow> ('v \<times> ('m, 'k, 'v) WriteHandle) res" where
  "reclaim l w =
     (if uid w = leaked_uid l
      then bind_res (alias_into_owned (leaked_value l) (vheap w)) (\<lambda>(v, vh). Inr (v, w\<lparr>vheap := vh\<rparr>))
      else Inl (Panic LEAKED_VALUE_MISMATCH))"

text \<open>\<open>Core::drop\<close>: drains the reader's map and drops every key and value.\<close>

fun drop_entries :: "('k, 'v) entry list \<Rightarrow> heap \<times> heap \<Rightarrow> (heap \<times> heap) res" where
  "drop_entries [] hs = Inr hs"
| "drop_entries ((k, v) # es) (kh, vh) =
     bind_res (alias_drop k kh) (\<lambda>kh'. bind_res (alias_drop v vh) (\<lambda>vh'. drop_entries es (kh', vh')))"

definition core_drop :: "('m, 'k, 'v, 's) hashbrown \<Rightarrow> MapIndex \<Rightarrow> ('m, 'k, 'v) WriteHandle
    \<Rightarrow> ('m, 'k, 'v) WriteHandle res" where
  "core_drop H writer_index w =
     bind_res (drop_entries (hb_iter H (map_get (maps w) (other writer_index))) (kheap w, vheap w))
       (\<lambda>(kh, vh). Inr (w\<lparr>kheap := kh, vheap := vh\<rparr>))"

end
