(* ===== verification/OplogInv.thy ===== *)
theory OplogInv
  imports Oplog
begin

text \<open>
  The meaning of the operation log. Replaying the log on the content of the stale map gives
  the content of the fresh map together with the families it releases; every family that is
  alive is owned exactly once, by the fresh map, by the log or by a leaked value. Every
  operation of the write handle keeps this, and under it re-applying the log never faults.
\<close>

section \<open>Replaying the log on contents\<close>

definition released :: "bool \<Rightarrow> 'v Alias \<Rightarrow> nat list" where
  "released lk a = (if lk then [] else [family a])"

fun effect :: "('k, 'v) RawOperation \<Rightarrow> bool \<Rightarrow> ('k, 'v) content
    \<Rightarrow> (('k, 'v) content \<times> nat list \<times> nat list) option" where
  "effect (InsertUnique ka va) lk A =
     (if A (aliased ka) = None then Some (A(aliased ka \<mapsto> (ka, va)), [], []) else None)"
| "effect (Replace k va) lk A =
     (case A k of None \<Rightarrow> None | Some e \<Rightarrow> Some (A(k \<mapsto> (fst e, va)), [], released lk (snd e)))"
| "effect (Remove k) lk A =
     (case A k of None \<Rightarrow> None | Some e \<Rightarrow> Some (A(k := None), [family (fst e)], released lk (snd e)))"
| "effect (Drop va) lk A = Some (A, [], [family va])"

fun replay :: "('k, 'v) Operation list \<Rightarrow> ('k, 'v) content \<Rightarrow> (('k, 'v) content \<times> nat list \<times> nat list) option" where
  "replay [] A = Some (A, [], [])"
| "replay (op # ops) A =
     (case effect (raw op) (leaky op) A of
        None \<Rightarrow> None
      | Some (B, kd, vd) \<Rightarrow>
          (case replay ops B of None \<Rightarrow> None | Some (F, kd', vd') \<Rightarrow> Some (F, kd @ kd', vd @ vd')))"

lemma replay_ConsE:
  assumes "replay (op # ops) A = Some (F, kd, vd)"
  obtains B kd1 vd1 kd2 vd2 where "effect (raw op) (leaky op) A = Some (B, kd1, vd1)"
    "replay ops B = Some (F, kd2, vd2)" "kd = kd1 @ kd2" "vd = vd1 @ vd2"
  using assms by (auto split: option.splits)

definition kfams :: "('k, 'v) content \<Rightarrow> nat multiset" where
  "kfams A = image_mset (\<lambda>e. family (fst e)) (ran_mset A)"

definition vfams :: "('k, 'v) content \<Rightarrow> nat multiset" where
  "vfams A = image_mset (\<lambda>e. family (snd e)) (ran_mset A)"

lemmas fams_defs = kfams_def vfams_def ran_mset_insert ran_mset_update

lemma fams_remove:
  assumes "finite (dom A)" "A k = Some e"
  shows "kfams A = add_mset (family (fst e)) (kfams (A(k := None)))"
    and "vfams A = add_mset (family (snd e)) (vfams (A(k := None)))"
  using ran_mset_remove [OF assms] by (simp_all add: kfams_def vfams_def)

lemma fams_update:
  assumes "finite (dom A)" "A k = Some e"
  shows "kfams (A(k \<mapsto> e')) = add_mset (family (fst e')) (kfams (A(k := None)))"
    and "vfams (A(k \<mapsto> e')) = add_mset (family (snd e')) (vfams (A(k := None)))"
  using ran_mset_update [OF assms] by (simp_all add: kfams_def vfams_def)

lemma fams_insert:
  assumes "finite (dom A)" "A k = None"
  shows "kfams (A(k \<mapsto> e)) = add_mset (family (fst e)) (kfams A)"
    and "vfams (A(k \<mapsto> e)) = add_mset (family (snd e)) (vfams A)"
  using ran_mset_insert [OF assms] by (simp_all add: kfams_def vfams_def)

lemma fams_empty [simp]: "kfams Map.empty = {#}" "vfams Map.empty = {#}"
  by (simp_all add: kfams_def vfams_def)

lemma effect_finite: "effect r lk A = Some (B, kd, vd) \<Longrightarrow> finite (dom A) \<Longrightarrow> finite (dom B)"
  by (cases r) (auto split: if_splits option.splits)

lemma effect_keys:
  assumes "effect r lk A = Some (B, kd, vd)" "finite (dom A)"
  shows "kfams A \<subseteq># kfams B + mset kd"
  using assms by (cases r) (auto simp: fams_insert fams_update fams_remove split: if_splits option.splits)

text \<open>No key of the stale map is released twice or lost: it stays, or the log releases it.\<close>

lemma replay_keys:
  assumes "replay ops A = Some (F, kd, vd)" "finite (dom A)"
  shows "kfams A \<subseteq># kfams F + mset kd"
  using assms
proof (induction ops arbitrary: A kd vd)
  case Nil
  then show ?case by simp
next
  case (Cons op ops)
  from Cons.prems(1) obtain B kd1 vd1 kd2 vd2 where
    e: "effect (raw op) (leaky op) A = Some (B, kd1, vd1)"
    and r: "replay ops B = Some (F, kd2, vd2)" and kd: "kd = kd1 @ kd2"
    by (rule replay_ConsE)
  have "kfams A \<subseteq># kfams B + mset kd1" using effect_keys [OF e Cons.prems(2)] .
  also have "\<dots> \<subseteq># (kfams F + mset kd2) + mset kd1"
    using Cons.IH [OF r effect_finite [OF e Cons.prems(2)]] by simp
  finally show ?case by (simp add: kd ac_simps)
qed

lemma replay_append:
  "replay (ops @ [op]) A =
     (case replay ops A of None \<Rightarrow> None | Some (B, kd, vd) \<Rightarrow>
        (case effect (raw op) (leaky op) B of None \<Rightarrow> None
         | Some (F, kd', vd') \<Rightarrow> Some (F, kd @ kd', vd @ vd')))"
proof (induction ops arbitrary: A)
  case Nil
  then show ?case by (auto split: option.splits)
next
  case (Cons a ops)
  then show ?case by (auto split: option.splits)
qed

section \<open>What an operation evicts\<close>

text \<open>The value an operation takes out of the map and would release.\<close>

fun evicts :: "('k, 'v) RawOperation \<Rightarrow> ('k, 'v) content \<Rightarrow> 'v Alias option" where
  "evicts (Replace k va) A = map_option snd (A k)"
| "evicts (Remove k) A = map_option snd (A k)"
| "evicts _ A = None"

fun evicts_at :: "nat \<Rightarrow> ('k, 'v) Operation list \<Rightarrow> ('k, 'v) content \<Rightarrow> 'v Alias option" where
  "evicts_at j [] A = None"
| "evicts_at 0 (op # ops) A = (if leaky op then None else evicts (raw op) A)"
| "evicts_at (Suc j) (op # ops) A =
     (case effect (raw op) (leaky op) A of None \<Rightarrow> None | Some (B, kd, vd) \<Rightarrow> evicts_at j ops B)"

lemma evicts_at_length: "evicts_at j ops A = Some a \<Longrightarrow> j < length ops"
  by (induction j ops A rule: evicts_at.induct) (auto split: option.splits)

lemma effect_leaky:
  "effect r lk A = Some (B, kd, vd) \<Longrightarrow> evicts r A = Some a \<Longrightarrow> \<not> lk
   \<Longrightarrow> vd = [family a] \<and> effect r True A = Some (B, kd, [])"
  by (cases r) (auto simp: released_def split: option.splits)

lemma effect_content_leaky:
  "effect r lk A = Some (B, kd, vd) \<Longrightarrow> \<exists>vd'. effect r lk' A = Some (B, kd, vd')"
  by (cases r) (auto split: if_splits option.splits)

text \<open>Leaking an evicted value takes exactly its family out of what the log releases.\<close>

lemma replay_leak:
  assumes "replay ops A = Some (F, kd, vd)" "evicts_at j ops A = Some a"
  shows "\<exists>vd'. replay (ops[j := make_leaky (ops ! j)]) A = Some (F, kd, vd')
     \<and> mset vd = add_mset (family a) (mset vd')"
  using assms
proof (induction j ops A arbitrary: kd vd rule: evicts_at.induct)
  case (1 j A)
  then show ?case by simp
next
  case (2 op ops A)
  from 2(1) obtain B kd1 vd1 kd2 vd2 where e: "effect (raw op) (leaky op) A = Some (B, kd1, vd1)"
    and r: "replay ops B = Some (F, kd2, vd2)" and v: "kd = kd1 @ kd2" "vd = vd1 @ vd2"
    by (rule replay_ConsE)
  have "\<not> leaky op" "evicts (raw op) A = Some a" using 2(2) by (auto split: if_splits)
  with effect_leaky [OF e] r v show ?case by (auto simp: make_leaky_def)
next
  case (3 j op ops A)
  from 3(2) obtain B kd1 vd1 kd2 vd2 where e: "effect (raw op) (leaky op) A = Some (B, kd1, vd1)"
    and r: "replay ops B = Some (F, kd2, vd2)" and v: "kd = kd1 @ kd2" "vd = vd1 @ vd2"
    by (rule replay_ConsE)
  have ev: "evicts_at j ops B = Some a" using 3(3) e by simp
  from 3(1) [OF e refl refl r ev] obtain vd' where
    "replay (ops[j := make_leaky (ops ! j)]) B = Some (F, kd2, vd')" "mset vd2 = add_mset (family a) (mset vd')"
    by auto
  with e v show ?case by simp
qed

lemma evicts_at_leak:
  "evicts_at j ops A = Some a \<Longrightarrow> i \<noteq> j \<Longrightarrow> evicts_at j (ops[i := make_leaky (ops ! i)]) A = Some a"
proof (induction j ops A arbitrary: i rule: evicts_at.induct)
  case (1 j A)
  then show ?case by simp
next
  case (2 op ops A)
  then show ?case by (cases i) simp_all
next
  case (3 j op ops A)
  then show ?case
    using effect_content_leaky [of "raw op" "leaky op" A _ _ _ True]
    by (cases i) (fastforce simp: make_leaky_def split: option.splits)+
qed

lemma evicts_at_append: "evicts_at j ops A = Some a \<Longrightarrow> evicts_at j (ops @ ops') A = Some a"
  by (induction j ops A rule: evicts_at.induct) (auto split: option.splits)

lemma evicts_at_last:
  "replay ops A = Some (B, kd, vd) \<Longrightarrow> evicts r B = Some a
   \<Longrightarrow> evicts_at (length ops) (ops @ [operation_new r]) A = Some a"
  by (induction ops arbitrary: A kd vd) (auto simp: operation_new_def split: option.splits)

section \<open>Ownership\<close>

text \<open>
  With \<open>fresh\<close> the index of the map that has all operations and \<open>held\<close> the families of the leaked
  values in the hands of the user: the log leads from the stale to the fresh content, and
  every living family has exactly one owner.
\<close>

definition fresh_content :: "('m, 'k, 'v, 's) hashbrown \<Rightarrow> MapIndex \<Rightarrow> ('m, 'k, 'v) WriteHandle \<Rightarrow> ('k, 'v) content" where
  "fresh_content H i w = content_of H (map_get (maps w) i)"

definition owned :: "('k, 'v) content \<Rightarrow> nat list \<Rightarrow> nat list \<Rightarrow> nat multiset \<Rightarrow> heap \<Rightarrow> heap \<Rightarrow> bool" where
  "owned F kd vd held kh vh \<longleftrightarrow> heap_ok kh \<and> heap_ok vh
     \<and> mset kd + kfams F = mset_set (alive_set kh)
     \<and> mset vd + held + vfams F = mset_set (alive_set vh)"

definition log_ok :: "('k, 'v) content \<Rightarrow> ('k, 'v) content \<Rightarrow> ('k, 'v) Operation list \<Rightarrow> nat multiset \<Rightarrow> heap \<Rightarrow> heap \<Rightarrow> bool" where
  "log_ok S F ops held kh vh \<longleftrightarrow> (\<exists>kd vd. replay ops S = Some (F, kd, vd) \<and> owned F kd vd held kh vh)"

definition handle_ok :: "('m, 'k, 'v, 's) hashbrown \<Rightarrow> MapIndex \<Rightarrow> nat multiset \<Rightarrow> ('m, 'k, 'v) WriteHandle \<Rightarrow> bool" where
  "handle_ok H fresh held w \<longleftrightarrow>
     unique_keys H (map_get (maps w) fresh) \<and> unique_keys H (map_get (maps w) (other fresh))
     \<and> log_ok (content_of H (map_get (maps w) (other fresh))) (content_of H (map_get (maps w) fresh))
          (operations w) held (kheap w) (vheap w)"

definition keys_alive :: "heap \<Rightarrow> ('k, 'v) content \<Rightarrow> bool" where
  "keys_alive kh A \<longleftrightarrow> (\<forall>e\<in>ran A. alive kh (family (fst e)))"

definition values_alive :: "heap \<Rightarrow> ('k, 'v) content \<Rightarrow> bool" where
  "values_alive vh A \<longleftrightarrow> (\<forall>e\<in>ran A. alive vh (family (snd e)))"

lemma keys_alive_iff: "finite (dom A) \<Longrightarrow> keys_alive kh A \<longleftrightarrow> set_mset (kfams A) \<subseteq> alive_set kh"
  by (auto simp: keys_alive_def kfams_def set_ran_mset alive_iff)

lemma values_alive_iff: "finite (dom A) \<Longrightarrow> values_alive vh A \<longleftrightarrow> set_mset (vfams A) \<subseteq> alive_set vh"
  by (auto simp: values_alive_def vfams_def set_ran_mset alive_iff)

lemma keys_readable_iff: "unique_keys H m \<Longrightarrow> keys_readable H kh m \<longleftrightarrow> keys_alive kh (content_of H m)"
  by (simp add: keys_readable_def keys_alive_def content_ran list_all_iff)

lemma keys_aliveD: "keys_alive kh A \<Longrightarrow> A k = Some e \<Longrightarrow> alive kh (family (fst e))"
  unfolding keys_alive_def by (erule bspec) (rule ranI)

lemma values_aliveD: "values_alive vh A \<Longrightarrow> A k = Some e \<Longrightarrow> alive vh (family (snd e))"
  unfolding values_alive_def by (erule bspec) (rule ranI)

lemma subset_mset_set: "X \<subseteq># mset_set A \<Longrightarrow> set_mset X \<subseteq> A"
  by (cases "finite A") (auto dest: mset_subset_eqD)

lemma owned_alive:
  assumes "owned F kd vd held kh vh" "finite (dom F)"
  shows "keys_alive kh F" "values_alive vh F"
    and "set kd \<subseteq> alive_set kh" "set vd \<subseteq> alive_set vh" "set_mset held \<subseteq> alive_set vh"
proof -
  have k: "mset kd + kfams F = mset_set (alive_set kh)"
    and v: "mset vd + held + vfams F = mset_set (alive_set vh)"
    using assms(1) by (auto simp: owned_def)
  have "set_mset (mset kd + kfams F) \<subseteq> alive_set kh"
    by (rule subset_mset_set) (simp add: k)
  moreover have "set_mset (mset vd + held + vfams F) \<subseteq> alive_set vh"
    by (rule subset_mset_set) (simp add: v)
  ultimately show "keys_alive kh F" "values_alive vh F"
    and "set kd \<subseteq> alive_set kh" "set vd \<subseteq> alive_set vh" "set_mset held \<subseteq> alive_set vh"
    using assms(2) by (auto simp: keys_alive_iff values_alive_iff)
qed

text \<open>The keys of the stale map are alive as long as the log has not been re-applied.\<close>

lemma log_keys_alive:
  assumes "log_ok S F ops held kh vh" "finite (dom S)"
  shows "keys_alive kh S"
proof -
  from assms(1) obtain kd vd where r: "replay ops S = Some (F, kd, vd)"
    and o: "mset kd + kfams F = mset_set (alive_set kh)"
    by (auto simp: log_ok_def owned_def)
  have "kfams S \<subseteq># mset_set (alive_set kh)"
    using replay_keys [OF r assms(2)] by (simp add: o [symmetric] ac_simps)
  then show ?thesis using assms(2) by (simp add: keys_alive_iff subset_mset_set)
qed

section \<open>Re-applying one operation\<close>

lemma owned_drop_key:
  assumes "owned F (f # kd) vd held kh vh"
  shows "alive kh f \<and> owned F kd vd held (kh\<lparr>families := (families kh)(f := Dropped)\<rparr>) vh"
proof -
  have "add_mset f (mset kd + kfams F) = mset_set (alive_set kh)" using assms by (simp add: owned_def)
  from mset_set_take [OF this] assms show ?thesis
    by (auto simp: owned_def alive_iff intro!: heap_ok_drop)
qed

lemma owned_drop_value:
  assumes "owned F kd (f # vd) held kh vh"
  shows "alive vh f \<and> owned F kd vd held kh (vh\<lparr>families := (families vh)(f := Dropped)\<rparr>)"
proof -
  have "add_mset f (mset vd + held + vfams F) = mset_set (alive_set vh)" using assms by (simp add: owned_def)
  from mset_set_take [OF this] assms show ?thesis
    by (auto simp: owned_def alive_iff intro!: heap_ok_drop)
qed

lemma owned_drop_unless:
  assumes "owned F kd (released lk a @ vd) held kh vh"
  shows "\<exists>vh'. drop_unless lk a vh = Inr vh' \<and> owned F kd vd held kh vh'"
  using assms owned_drop_value [of F kd "family a" vd held kh vh]
  by (cases lk) (simp_all add: released_def drop_unless_def alias_drop_def)

context hash_table
begin

lemma flush_raw_ok:
  assumes u: "unique_keys H m"
    and e: "effect r lk (content_of H m) = Some (B, kd1, vd1)"
    and rest: "replay ops B = Some (F, kd, vd)"
    and o: "owned F (kd1 @ kd) (vd1 @ vd) held kh vh"
    and new: "\<forall>ka va. r = InsertUnique ka va \<longrightarrow> alive kh (family ka)"
    and keys: "keys_alive kh (content_of H m)"
  shows "\<exists>m' kh' vh'. flush_raw H r lk (m, kh, vh) = Inr (m', kh', vh')
     \<and> unique_keys H m' \<and> content_of H m' = B \<and> owned F kd vd held kh' vh'"
proof -
  have kr: "keys_readable H kh m" using keys u by (simp add: keys_readable_iff)
  show ?thesis
  proof (cases r)
    case (InsertUnique ka va)
    with e o new show ?thesis
      by (auto simp: alias_deref_def kr contains_law [OF u] insert_unique [OF u] insert_content [OF u]
          split: if_splits)
  next
    case (Replace k va)
    with e obtain en where en: "content_of H m k = Some en" by (auto split: option.splits)
    from Replace e o obtain vh' where "drop_unless lk (snd en) vh = Inr vh'" "owned F kd vd held kh vh'"
      using owned_drop_unless [of F kd lk "snd en" vd held kh vh] by (auto simp: en)
    with Replace e en show ?thesis
      by (simp add: kr get_law [OF u] set_unique [OF u] set_content [OF u])
  next
    case (Remove k)
    with e obtain en where en: "content_of H m k = Some en" by (auto split: option.splits)
    from Remove e o have o1: "owned F (family (fst en) # kd) (released lk (snd en) @ vd) held kh vh"
      by (auto simp: en)
    from owned_drop_key [OF this] obtain kh' where kh': "alias_drop (fst en) kh = Inr kh'"
      "owned F kd (released lk (snd en) @ vd) held kh' vh"
      by (auto simp: alias_drop_def)
    from owned_drop_unless [OF this(2)] obtain vh' where
      "drop_unless lk (snd en) vh = Inr vh'" "owned F kd vd held kh' vh'" by auto
    moreover obtain m' where m': "hb_remove_entry H m k = (Some (fst en, snd en), m')"
      using remove_result [OF u, of k] en by (cases "hb_remove_entry H m k") simp
    moreover have "unique_keys H m'" "content_of H m' = B"
      using remove_unique [OF u, of k] remove_content [OF u, of k] Remove e en by (auto simp: m')
    ultimately show ?thesis
      using Remove kh' by (simp add: kr split_beta)
  next
    case (Drop va)
    with e o owned_drop_value [of F kd "family va" vd held kh vh] show ?thesis
      by (auto simp: alias_drop_def u)
  qed
qed

lemma flush_op_ok:
  assumes ok: "handle_ok H fresh held w"
  shows "\<exists>w'. flush_op H (other fresh) w = Inr w' \<and> handle_ok H fresh held w'
     \<and> map_get (maps w') fresh = map_get (maps w) fresh \<and> operations w' = tl (operations w) \<and> uid w' = uid w"
proof (cases "operations w")
  case Nil
  with ok show ?thesis by (simp add: flush_op_def)
next
  case (Cons op ops)
  let ?m = "map_get (maps w) (other fresh)" and ?F = "content_of H (map_get (maps w) fresh)"
  from ok have u: "unique_keys H ?m" and log: "log_ok (content_of H ?m) ?F (op # ops) held (kheap w) (vheap w)"
    by (simp_all add: handle_ok_def Cons)
  from log obtain kd0 vd0 where r: "replay (op # ops) (content_of H ?m) = Some (?F, kd0, vd0)"
    and o: "owned ?F kd0 vd0 held (kheap w) (vheap w)"
    by (auto simp: log_ok_def)
  from r obtain B kd1 vd1 kd vd where e: "effect (raw op) (leaky op) (content_of H ?m) = Some (B, kd1, vd1)"
    and rest: "replay ops B = Some (?F, kd, vd)" and d: "kd0 = kd1 @ kd" "vd0 = vd1 @ vd"
    by (rule replay_ConsE)
  have new: "alive (kheap w) (family ka)" if "raw op = InsertUnique ka va" for ka va
  proof -
    from that e have kd1: "kd1 = []" and B: "B (aliased ka) = Some (ka, va)" by (auto split: if_splits)
    have "mset kd + kfams ?F = mset_set (alive_set (kheap w))" using o d kd1 by (simp add: owned_def)
    then have "kfams B \<subseteq># mset_set (alive_set (kheap w))"
      using replay_keys [OF rest effect_finite [OF e]] by (simp add: ac_simps)
    then have "keys_alive (kheap w) B"
      using effect_finite [OF e] by (simp add: keys_alive_iff subset_mset_set)
    with B show ?thesis by (auto dest: keys_aliveD)
  qed
  have keys: "keys_alive (kheap w) (content_of H ?m)" using log_keys_alive [OF log] by simp
  from flush_raw_ok [OF u e rest o [unfolded d] _ keys] new
  obtain m' kh' vh' where "flush_raw H (raw op) (leaky op) (?m, kheap w, vheap w) = Inr (m', kh', vh')"
    "unique_keys H m'" "content_of H m' = B" "owned ?F kd vd held kh' vh'" by blast
  with ok rest show ?thesis by (auto simp: flush_op_def Cons handle_ok_def log_ok_def)
qed

lemma flush_loop_ok:
  assumes "handle_ok H fresh held w"
  shows "\<exists>w'. flush_loop H (other fresh) n w = Inr w' \<and> handle_ok H fresh held w'
     \<and> map_get (maps w') fresh = map_get (maps w) fresh \<and> operations w' = drop n (operations w) \<and> uid w' = uid w"
  using assms
proof (induction n arbitrary: w)
  case 0
  then show ?case by simp
next
  case (Suc n)
  from flush_op_ok [OF Suc.prems] obtain w1 where w1: "flush_op H (other fresh) w = Inr w1" "handle_ok H fresh held w1"
    "map_get (maps w1) fresh = map_get (maps w) fresh" "operations w1 = tl (operations w)" "uid w1 = uid w"
    by blast
  from Suc.IH [OF w1(2)] show ?case by (simp add: w1 drop_Suc)
qed

text \<open>With an empty log both maps have the same content, and their roles can be exchanged.\<close>

lemma handle_ok_empty_log:
  assumes "handle_ok H fresh held w" "operations w = []"
  shows "content_of H (map_get (maps w) (other fresh)) = content_of H (map_get (maps w) fresh)"
    and "handle_ok H (other fresh) held w"
  using assms by (auto simp: handle_ok_def log_ok_def)

lemma flush_operations_ok:
  assumes "handle_ok H fresh held w"
  shows "\<exists>w'. flush_operations H (other fresh) w = Inr w' \<and> handle_ok H fresh held w'
     \<and> map_get (maps w') fresh = map_get (maps w) fresh \<and> operations w' = [] \<and> uid w' = uid w"
  using flush_loop_ok [OF assms, of "length (operations w)"] by (simp add: flush_operations_def)

end

end
