(* ===== verification/OplogOps.thy ===== *)
theory OplogOps
  imports OplogInv
begin

text \<open>
  The operations of a write guard, of evicted and of leaked values keep the ownership
  invariant, and behave on the values like the operations of a plain map.
\<close>

section \<open>Contents as values\<close>

definition values_of :: "('k, 'v) content \<Rightarrow> 'k \<rightharpoonup> 'v" where
  "values_of A k = map_option (\<lambda>e. aliased (snd e)) (A k)"

definition view_of :: "('m, 'k, 'v, 's) hashbrown \<Rightarrow> MapIndex \<Rightarrow> ('m, 'k, 'v) WriteHandle \<Rightarrow> 'k \<rightharpoonup> 'v" where
  "view_of H i w = values_of (content_of H (map_get (maps w) i))"

definition evicted_value :: "'v Evicted \<Rightarrow> 'v Alias" where
  "evicted_value e = leaked_value (evicted_leaked e)"

lemma values_of_simps [simp]:
  "values_of (A(k \<mapsto> e)) = (values_of A)(k \<mapsto> aliased (snd e))"
  "values_of (A(k := None)) = (values_of A)(k := None)"
  "values_of Map.empty = Map.empty"
  by (auto simp: values_of_def fun_eq_iff)

section \<open>Transfers of ownership\<close>

lemma owned_insert:
  assumes "owned F kd vd held kh vh" "finite (dom F)" "F (aliased ka) = None"
    and "alias_new k kh = (ka, kh')" "alias_new v vh = (va, vh')"
  shows "owned (F(aliased ka \<mapsto> (ka, va))) kd vd held kh' vh'"
proof -
  have "heap_ok kh" "heap_ok vh" using assms(1) by (simp_all add: owned_def)
  with assms(1) show ?thesis
    using alias_newD [OF assms(4)] alias_newD [OF assms(5)]
    unfolding owned_def fams_insert [OF assms(2,3)] by (auto simp: finite_alive)
qed

lemma owned_replace:
  assumes "owned F kd vd held kh vh" "finite (dom F)" "F k = Some e" "alias_new v vh = (va, vh')"
  shows "owned (F(k \<mapsto> (fst e, va))) kd (vd @ [family (snd e)]) held kh vh'"
proof -
  have "heap_ok vh" using assms(1) by (simp add: owned_def)
  with assms(1) show ?thesis
    using alias_newD [OF assms(4)]
    unfolding owned_def fams_update [OF assms(2,3)] fams_remove [OF assms(2,3)] by (auto simp: finite_alive)
qed

lemma owned_remove:
  assumes "owned F kd vd held kh vh" "finite (dom F)" "F k = Some e"
  shows "owned (F(k := None)) (kd @ [family (fst e)]) (vd @ [family (snd e)]) held kh vh"
  using assms(1) unfolding owned_def fams_remove [OF assms(2,3)] by auto

lemma owned_give_back:
  assumes "owned F kd vd (add_mset f held) kh vh"
  shows "owned F kd (vd @ [f]) held kh vh"
  using assms unfolding owned_def by auto

lemma owned_take_out:
  assumes "owned F kd vd (add_mset f held) kh vh"
  shows "alive vh f" "owned F kd vd held kh (vh\<lparr>families := (families vh)(f := MovedOut)\<rparr>)"
proof -
  have "add_mset f (mset vd + held + vfams F) = mset_set (alive_set vh)" using assms by (simp add: owned_def)
  from mset_set_take [OF this] assms
  show "alive vh f" "owned F kd vd held kh (vh\<lparr>families := (families vh)(f := MovedOut)\<rparr>)"
    by (auto simp: owned_def alive_iff intro!: heap_ok_drop)
qed

lemma log_push:
  assumes "log_ok S F ops held kh vh" "effect r False F = Some (F', kd', vd')"
    and "\<And>kd vd. owned F kd vd held kh vh \<Longrightarrow> owned F' (kd @ kd') (vd @ vd') held' kh' vh'"
  shows "log_ok S F' (ops @ [operation_new r]) held' kh' vh'"
  using assms by (fastforce simp: log_ok_def replay_append operation_new_def)

section \<open>Tokens\<close>

text \<open>
  An evicted value names the operation of the log that took it out of the map, and that
  operation still releases it.
\<close>

definition token_ok :: "('m, 'k, 'v, 's) hashbrown \<Rightarrow> MapIndex \<Rightarrow> ('m, 'k, 'v) WriteHandle \<Rightarrow> 'v Evicted \<Rightarrow> bool" where
  "token_ok H fresh w e \<longleftrightarrow> leaked_uid (evicted_leaked e) = uid w
     \<and> evicts_at (evicted_operation e) (operations w) (content_of H (map_get (maps w) (other fresh)))
         = Some (evicted_value e)"

text \<open>What every operation of a write guard guarantees.\<close>

definition guard_post :: "('m, 'k, 'v, 's) hashbrown \<Rightarrow> MapIndex \<Rightarrow> nat multiset \<Rightarrow> ('m, 'k, 'v) WriteHandle
    \<Rightarrow> 'v Evicted option \<Rightarrow> ('m, 'k, 'v) WriteHandle \<Rightarrow> bool" where
  "guard_post H fresh held w r w' \<longleftrightarrow>
     handle_ok H fresh held w' \<and> map_get (maps w') (other fresh) = map_get (maps w) (other fresh)
     \<and> uid w' = uid w \<and> (\<exists>ops. operations w' = operations w @ ops)
     \<and> alive_set (kheap w) \<subseteq> alive_set (kheap w') \<and> alive_set (vheap w) \<subseteq> alive_set (vheap w')
     \<and> (\<forall>e. r = Some e \<longrightarrow> token_ok H fresh w' e \<and> evicted_operation e = length (operations w))"

lemma token_ok_extend:
  assumes "token_ok H fresh w e" "map_get (maps w') (other fresh) = map_get (maps w) (other fresh)"
    and "uid w' = uid w" "operations w' = operations w @ ops"
  shows "token_ok H fresh w' e"
  using assms by (simp add: token_ok_def evicts_at_append)

lemma handle_ok_log:
  "handle_ok H fresh held w \<Longrightarrow> log_ok (content_of H (map_get (maps w) (other fresh)))
     (content_of H (map_get (maps w) fresh)) (operations w) held (kheap w) (vheap w)"
  by (simp add: handle_ok_def)

lemma handle_ok_alive:
  assumes "handle_ok H fresh held w"
  shows "keys_alive (kheap w) (content_of H (map_get (maps w) fresh))"
    and "values_alive (vheap w) (content_of H (map_get (maps w) fresh))"
    and "keys_alive (kheap w) (content_of H (map_get (maps w) (other fresh)))"
    and "set_mset held \<subseteq> alive_set (vheap w)"
    and "heap_ok (kheap w)" "heap_ok (vheap w)"
proof -
  from handle_ok_log [OF assms] obtain kd vd where
    o: "owned (content_of H (map_get (maps w) fresh)) kd vd held (kheap w) (vheap w)"
    by (auto simp: log_ok_def)
  from owned_alive [OF o] show "keys_alive (kheap w) (content_of H (map_get (maps w) fresh))"
    "values_alive (vheap w) (content_of H (map_get (maps w) fresh))" "set_mset held \<subseteq> alive_set (vheap w)"
    by simp_all
  from o show "heap_ok (kheap w)" "heap_ok (vheap w)" by (simp_all add: owned_def)
  show "keys_alive (kheap w) (content_of H (map_get (maps w) (other fresh)))"
    using log_keys_alive [OF handle_ok_log [OF assms]] by simp
qed

lemma handle_ok_readable:
  "handle_ok H fresh held w \<Longrightarrow> keys_readable H (kheap w) (map_get (maps w) fresh)"
  using handle_ok_alive(1) [of H fresh held w] by (simp add: keys_readable_iff handle_ok_def)

lemma alive_alias_new:
  assumes "alias_new v h = (a, h')" "heap_ok h"
  shows "alive h' (family a)" "aliased a = v" "alive_set h \<subseteq> alive_set h'"
  using alias_newD [OF assms] by (auto simp: alive_iff)

section \<open>The operations of the write guard\<close>

lemma evicted_new_push:
  "evicted_operation (evicted_new (push r w) a) = length (operations w)"
  "evicted_leaked (evicted_new (push r w) a) = \<lparr>leaked_value = a, leaked_uid = uid w\<rparr>"
  by (simp_all add: evicted_new_def push_def)

lemma token_new:
  assumes "log_ok (content_of H (map_get (maps w) (other fresh))) F (operations w) held kh vh"
    and "evicts r F = Some a"
  shows "token_ok H fresh (push r w) (evicted_new (push r w) a)"
proof -
  from assms(1) obtain kd vd where
    "replay (operations w) (content_of H (map_get (maps w) (other fresh))) = Some (F, kd, vd)"
    by (auto simp: log_ok_def)
  from evicts_at_last [OF this assms(2)] show ?thesis
    by (simp add: token_ok_def evicted_new_push evicted_value_def) (simp add: push_def)
qed

lemma evicts_present:
  "A k = Some e \<Longrightarrow> evicts (Replace k va) A = Some (snd e)"
  "A k = Some e \<Longrightarrow> evicts (Remove k) A = Some (snd e)"
  by simp_all

context hash_table
begin

lemma guard_insert_ok:
  assumes ok: "handle_ok H i held w"
  shows "\<exists>r w'. guard_insert H i k v w = Inr (r, w') \<and> guard_post H i held w r w'
     \<and> view_of H i w' = (view_of H i w)(k \<mapsto> v)
     \<and> map_option (\<lambda>e. aliased (evicted_value e)) r = view_of H i w k"
proof -
  let ?m = "map_get (maps w) i"
  have u: "unique_keys H ?m" using ok by (simp add: handle_ok_def)
  obtain va vh where va: "alias_new v (vheap w) = (va, vh)" by (cases "alias_new v (vheap w)")
  obtain ka kh where ka: "alias_new k (kheap w) = (ka, kh)" by (cases "alias_new k (kheap w)")
  note new = alive_alias_new [OF va handle_ok_alive(6) [OF ok]] alive_alias_new [OF ka handle_ok_alive(5) [OF ok]]
  show ?thesis
  proof (cases "content_of H ?m k")
    case None
    have "log_ok (content_of H (map_get (maps w) (other i))) ((content_of H ?m)(k \<mapsto> (ka, va)))
        (operations w @ [operation_new (InsertUnique ka va)]) held kh vh"
      using owned_insert [of "content_of H ?m" _ _ held "kheap w" "vheap w" ka k kh v va vh] ka va new None
      by (intro log_push [OF handle_ok_log [OF ok]]) auto
    with ok None new show ?thesis
      by (simp add: guard_insert_def va ka handle_ok_readable [OF ok] get_law [OF u] alias_copy_def push_def
          guard_post_def handle_ok_def insert_unique [OF u] insert_content [OF u] view_of_def)
        (simp add: values_of_def)
  next
    case (Some e)
    let ?w = "w\<lparr>maps := map_put (maps w) i (hb_set H ?m k va), vheap := vh\<rparr>"
    have log: "log_ok (content_of H (map_get (maps w) (other i))) ((content_of H ?m)(k \<mapsto> (fst e, va)))
        (operations w @ [operation_new (Replace k va)]) held (kheap w) vh"
      using owned_replace [of "content_of H ?m" _ _ held "kheap w" "vheap w" k e v va vh] va Some
      by (intro log_push [OF handle_ok_log [OF ok]]) (auto simp: released_def)
    have "token_ok H i (push (Replace k va) ?w) (evicted_new (push (Replace k va) ?w) (snd e))"
      using handle_ok_log [OF ok] by (intro token_new [OF _ evicts_present(1) [of "content_of H ?m", OF Some]]) simp
    with ok Some new log show ?thesis
      by (simp add: guard_insert_def va handle_ok_readable [OF ok] get_law [OF u] alias_copy_def guard_post_def
          handle_ok_def set_unique [OF u] set_content [OF u Some] evicted_new_push view_of_def evicted_value_def Let_def)
        (simp add: push_def values_of_def set_unique [OF u] set_content [OF u Some])
  qed
qed

lemma guard_replace_ok:
  assumes ok: "handle_ok H i held w"
  shows "\<exists>r w'. guard_replace H i k f w = Inr (r, w') \<and> guard_post H i held w r w'
     \<and> view_of H i w' = (case view_of H i w k of None \<Rightarrow> view_of H i w | Some v \<Rightarrow> (view_of H i w)(k \<mapsto> f v))
     \<and> map_option (\<lambda>e. aliased (evicted_value e)) r = view_of H i w k"
proof -
  let ?m = "map_get (maps w) i"
  have u: "unique_keys H ?m" using ok by (simp add: handle_ok_def)
  show ?thesis
  proof (cases "content_of H ?m k")
    case None
    with ok show ?thesis
      by (simp add: guard_replace_def handle_ok_readable [OF ok] get_law [OF u] guard_post_def view_of_def values_of_def)
  next
    case (Some e)
    obtain va vh where va: "alias_new (f (aliased (snd e))) (vheap w) = (va, vh)"
      by (cases "alias_new (f (aliased (snd e))) (vheap w)")
    note new = alive_alias_new [OF va handle_ok_alive(6) [OF ok]]
    let ?w = "w\<lparr>maps := map_put (maps w) i (hb_set H ?m k va), vheap := vh\<rparr>"
    have live: "alive (vheap w) (family (snd e))" using handle_ok_alive(2) [OF ok] Some by (rule values_aliveD)
    have log: "log_ok (content_of H (map_get (maps w) (other i))) ((content_of H ?m)(k \<mapsto> (fst e, va)))
        (operations w @ [operation_new (Replace k va)]) held (kheap w) vh"
      using owned_replace [of "content_of H ?m" _ _ held "kheap w" "vheap w" k e _ va vh] va Some
      by (intro log_push [OF handle_ok_log [OF ok]]) (auto simp: released_def)
    have "token_ok H i (push (Replace k va) ?w) (evicted_new (push (Replace k va) ?w) (snd e))"
      using handle_ok_log [OF ok] by (intro token_new [OF _ evicts_present(1) [of "content_of H ?m", OF Some]]) simp
    with ok Some new log live show ?thesis
      by (simp add: guard_replace_def va handle_ok_readable [OF ok] get_law [OF u] alias_copy_def alias_deref_def
          guard_post_def handle_ok_def set_unique [OF u] set_content [OF u Some] evicted_new_push view_of_def
          evicted_value_def Let_def)
        (simp add: push_def values_of_def view_of_def set_unique [OF u] set_content [OF u Some])
  qed
qed

lemma guard_remove_ok:
  assumes ok: "handle_ok H i held w"
  shows "\<exists>r w'. guard_remove H i k w = Inr (r, w') \<and> guard_post H i held w r w'
     \<and> view_of H i w' = (view_of H i w)(k := None)
     \<and> map_option (\<lambda>e. aliased (evicted_value e)) r = view_of H i w k"
proof -
  let ?m = "map_get (maps w) i"
  have u: "unique_keys H ?m" using ok by (simp add: handle_ok_def)
  obtain m' where m': "hb_remove_entry H ?m k = (content_of H ?m k, m')" "unique_keys H m'"
      "content_of H m' = (content_of H ?m)(k := None)"
    using remove_result [OF u, of k] remove_unique [OF u, of k] remove_content [OF u, of k]
    by (cases "hb_remove_entry H ?m k") simp
  show ?thesis
  proof (cases "content_of H ?m k")
    case None
    then have "content_of H m' = content_of H ?m" using m'(3) by auto
    with ok None m'(1,2) show ?thesis
      by (simp add: guard_remove_def handle_ok_readable [OF ok] guard_post_def handle_ok_def view_of_def values_of_def)
        (simp add: fun_eq_iff values_of_def)
  next
    case (Some e)
    let ?w = "w\<lparr>maps := map_put (maps w) i m'\<rparr>"
    have log: "log_ok (content_of H (map_get (maps w) (other i))) ((content_of H ?m)(k := None))
        (operations w @ [operation_new (Remove k)]) held (kheap w) (vheap w)"
      using owned_remove [of "content_of H ?m" _ _ held "kheap w" "vheap w" k e] Some
      by (intro log_push [OF handle_ok_log [OF ok]]) (auto simp: released_def)
    have "token_ok H i (push (Remove k) ?w) (evicted_new (push (Remove k) ?w) (snd e))"
      using handle_ok_log [OF ok] by (intro token_new [OF _ evicts_present(2) [of "content_of H ?m", OF Some]]) simp
    with ok Some log m' show ?thesis
      by (simp add: guard_remove_def handle_ok_readable [OF ok] guard_post_def handle_ok_def evicted_new_push
          view_of_def evicted_value_def Let_def)
        (simp add: push_def values_of_def m')
  qed
qed

end

section \<open>Leaked values\<close>

lemma drop_lazily_ok:
  assumes "handle_ok H i (add_mset (family (leaked_value l)) held) w" "leaked_uid l = uid w"
  shows "drop_lazily l w = Inr (push (Drop (leaked_value l)) w)
     \<and> handle_ok H i held (push (Drop (leaked_value l)) w)"
proof -
  have "log_ok (content_of H (map_get (maps w) (other i))) (content_of H (map_get (maps w) i))
      (operations w @ [operation_new (Drop (leaked_value l))]) held (kheap w) (vheap w)"
    by (rule log_push [OF handle_ok_log [OF assms(1)], where kd' = "[]" and vd' = "[family (leaked_value l)]"])
      (simp_all add: owned_give_back)
  with assms show ?thesis by (simp add: drop_lazily_def into_inner_def handle_ok_def push_def)
qed

lemma leak_ok:
  assumes "handle_ok H i held w" "token_ok H i w e"
  shows "\<exists>w'. leak e w = Inr (evicted_leaked e, w') \<and> handle_ok H i (add_mset (family (evicted_value e)) held) w'
     \<and> maps w' = maps w \<and> uid w' = uid w \<and> kheap w' = kheap w \<and> vheap w' = vheap w
     \<and> (\<forall>e'. token_ok H i w e' \<and> evicted_operation e' \<noteq> evicted_operation e \<longrightarrow> token_ok H i w' e')"
proof -
  let ?S = "content_of H (map_get (maps w) (other i))" and ?F = "content_of H (map_get (maps w) i)"
  let ?j = "evicted_operation e"
  let ?w' = "w\<lparr>operations := (operations w)[?j := make_leaky (operations w ! ?j)]\<rparr>"
  have ev: "evicts_at ?j (operations w) ?S = Some (evicted_value e)" using assms(2) by (simp add: token_ok_def)
  from handle_ok_log [OF assms(1)] obtain kd vd where r: "replay (operations w) ?S = Some (?F, kd, vd)"
    and o: "owned ?F kd vd held (kheap w) (vheap w)"
    by (auto simp: log_ok_def)
  from replay_leak [OF r ev] obtain vd' where
    "replay (operations ?w') ?S = Some (?F, kd, vd')" "mset vd = add_mset (family (evicted_value e)) (mset vd')"
    by auto
  moreover from this(2) o have "owned ?F kd vd' (add_mset (family (evicted_value e)) held) (kheap w) (vheap w)"
    by (simp add: owned_def)
  ultimately have "handle_ok H i (add_mset (family (evicted_value e)) held) ?w'"
    using assms(1) by (auto simp: handle_ok_def log_ok_def)
  moreover have "leak e w = Inr (evicted_leaked e, ?w')"
    using evicts_at_length [OF ev] by (simp add: leak_def Let_def)
  moreover have "token_ok H i ?w' e'" if "token_ok H i w e'" "evicted_operation e' \<noteq> ?j" for e'
    using that by (simp add: token_ok_def evicts_at_leak)
  ultimately show ?thesis by auto
qed

lemma reclaim_ok:
  assumes "handle_ok H i (add_mset (family (leaked_value l)) held) w" "leaked_uid l = uid w"
  shows "\<exists>w'. reclaim l w = Inr (aliased (leaked_value l), w') \<and> handle_ok H i held w'
     \<and> maps w' = maps w \<and> operations w' = operations w \<and> uid w' = uid w \<and> kheap w' = kheap w"
proof -
  from handle_ok_log [OF assms(1)] obtain kd vd where
    r: "replay (operations w) (content_of H (map_get (maps w) (other i)))
          = Some (content_of H (map_get (maps w) i), kd, vd)"
    and o: "owned (content_of H (map_get (maps w) i)) kd vd (add_mset (family (leaked_value l)) held) (kheap w) (vheap w)"
    by (auto simp: log_ok_def)
  show ?thesis
    using owned_take_out [OF o] r assms by (auto simp: reclaim_def alias_into_owned_def handle_ok_def log_ok_def)
qed

section \<open>Tear-down\<close>

lemma ran_mset_content: "unique_keys H m \<Longrightarrow> ran_mset (content_of H m) = mset (hb_iter H m)"
proof -
  assume u: "unique_keys H m"
  have "mset_set (dom (content_of H m)) = mset (map entry_key (hb_iter H m))"
    using u by (simp add: content_of_def dom_keyed unique_keys_def mset_set_set flip: set_map del: mset_map)
  moreover have "the (content_of H m (entry_key e)) = e" if "e \<in> set (hb_iter H m)" for e
    using u that by (simp add: content_of_def unique_keys_def map_of_keyed_unique)
  then have "map (\<lambda>e. the (content_of H m (entry_key e))) (hb_iter H m) = hb_iter H m"
    by (simp add: map_idI)
  ultimately show ?thesis
    unfolding ran_mset_def by (metis (no_types, lifting) list.map_comp comp_def map_eq_conv mset_map)
qed

lemma drop_entries_ok:
  assumes "mset (map (\<lambda>e. family (fst e)) es) + K = mset_set (alive_set kh)"
    and "mset (map (\<lambda>e. family (snd e)) es) + V = mset_set (alive_set vh)"
    and "heap_ok kh" "heap_ok vh"
  shows "\<exists>kh' vh'. drop_entries es (kh, vh) = Inr (kh', vh') \<and> K = mset_set (alive_set kh')
     \<and> V = mset_set (alive_set vh') \<and> heap_ok kh' \<and> heap_ok vh'"
  using assms
proof (induction es arbitrary: kh vh)
  case Nil
  then show ?case by simp
next
  case (Cons e es)
  obtain k v where e: "e = (k, v)" by (cases e)
  have k: "add_mset (family k) (mset (map (\<lambda>e. family (fst e)) es) + K) = mset_set (alive_set kh)"
    and v: "add_mset (family v) (mset (map (\<lambda>e. family (snd e)) es) + V) = mset_set (alive_set vh)"
    using Cons.prems by (simp_all add: e)
  let ?kh = "kh\<lparr>families := (families kh)(family k := Dropped)\<rparr>"
  let ?vh = "vh\<lparr>families := (families vh)(family v := Dropped)\<rparr>"
  have al: "alive kh (family k)" "alive vh (family v)"
    using mset_set_take(1) [OF k] mset_set_take(1) [OF v] by (simp_all add: alive_iff)
  have "\<exists>kh' vh'. drop_entries es (?kh, ?vh) = Inr (kh', vh') \<and> K = mset_set (alive_set kh')
     \<and> V = mset_set (alive_set vh') \<and> heap_ok kh' \<and> heap_ok vh'"
    using mset_set_take(2) [OF k] mset_set_take(2) [OF v] heap_ok_drop(1) [OF Cons.prems(3) al(1)]
      heap_ok_drop(1) [OF Cons.prems(4) al(2)] by (intro Cons.IH) simp_all
  then show ?case by (simp add: e alias_drop_def al)
qed

lemma core_drop_ok:
  assumes "handle_ok H i held w" "operations w = []"
  shows "\<exists>w'. core_drop H (other i) w = Inr w' \<and> alive_set (kheap w') = {} \<and> mset_set (alive_set (vheap w')) = held
     \<and> heap_ok (kheap w') \<and> heap_ok (vheap w')"
proof -
  let ?m = "map_get (maps w) i"
  have "owned (content_of H ?m) [] [] held (kheap w) (vheap w)" and u: "unique_keys H ?m"
    using assms by (auto simp: handle_ok_def log_ok_def)
  then have "mset (map (\<lambda>e. family (fst e)) (hb_iter H ?m)) + {#} = mset_set (alive_set (kheap w))"
    "mset (map (\<lambda>e. family (snd e)) (hb_iter H ?m)) + held = mset_set (alive_set (vheap w))"
    "heap_ok (kheap w)" "heap_ok (vheap w)"
    by (simp_all add: owned_def kfams_def vfams_def ran_mset_content [OF u] ac_simps)
  from drop_entries_ok [OF this] obtain kh vh where
    d: "drop_entries (hb_iter H ?m) (kheap w, vheap w) = Inr (kh, vh)" "{#} = mset_set (alive_set kh)"
      "held = mset_set (alive_set vh)" "heap_ok kh" "heap_ok vh" by blast
  then have "alive_set kh = {}" by (simp add: finite_alive mset_set_empty_iff)
  with d show ?thesis by (simp add: core_drop_def)
qed

end
