(* ===== verification/Views.thy ===== *)
theory Views
  imports OplogOps
begin

text \<open>
  \<open>src/view.rs\<close>: the read operations of a view. A view of a read guard and a view of a write
  guard read the map their guard refers to (\<open>with_map\<close>); reading a key or a value behind an
  alias that is no longer alive is undefined. A key of a borrowed form \<open>Q\<close> is the key it
  hashes and compares as.
\<close>

section \<open>Operations\<close>

definition view_is_empty :: "('m, 'k, 'v, 's) hashbrown \<Rightarrow> 'm \<Rightarrow> bool" where
  "view_is_empty H m = hb_is_empty H m"

definition view_len :: "('m, 'k, 'v, 's) hashbrown \<Rightarrow> 'm \<Rightarrow> nat" where
  "view_len H m = hb_len H m"

definition view_contains_key :: "('m, 'k, 'v, 's) hashbrown \<Rightarrow> heap \<Rightarrow> 'k \<Rightarrow> 'm \<Rightarrow> bool res" where
  "view_contains_key H kh key m =
     (if keys_readable H kh m then Inr (hb_contains_key H m key) else Inl (UB UseAfterFree))"

definition view_get :: "('m, 'k, 'v, 's) hashbrown \<Rightarrow> heap \<Rightarrow> heap \<Rightarrow> 'k \<Rightarrow> 'm \<Rightarrow> 'v option res" where
  "view_get H kh vh key m =
     (if keys_readable H kh m
      then case hb_get H m key of
             None \<Rightarrow> Inr None
           | Some a \<Rightarrow> bind_res (alias_deref a vh) (\<lambda>v. Inr (Some v))
      else Inl (UB UseAfterFree))"

text \<open>The iterators, run to their end: every item is dereferenced.\<close>

fun collect :: "('a \<Rightarrow> 'b res) \<Rightarrow> 'a list \<Rightarrow> 'b list res" where
  "collect f [] = Inr []"
| "collect f (x # xs) = bind_res (f x) (\<lambda>y. bind_res (collect f xs) (\<lambda>ys. Inr (y # ys)))"

definition view_iter :: "('m, 'k, 'v, 's) hashbrown \<Rightarrow> heap \<Rightarrow> heap \<Rightarrow> 'm \<Rightarrow> ('k \<times> 'v) list res" where
  "view_iter H kh vh m =
     collect (\<lambda>e. bind_res (alias_deref (fst e) kh) (\<lambda>k. bind_res (alias_deref (snd e) vh) (\<lambda>v. Inr (k, v))))
       (hb_iter H m)"

definition view_keys :: "('m, 'k, 'v, 's) hashbrown \<Rightarrow> heap \<Rightarrow> 'm \<Rightarrow> 'k list res" where
  "view_keys H kh m = collect (\<lambda>e. alias_deref (fst e) kh) (hb_iter H m)"

definition view_values :: "('m, 'k, 'v, 's) hashbrown \<Rightarrow> heap \<Rightarrow> 'm \<Rightarrow> 'v list res" where
  "view_values H vh m = collect (\<lambda>e. alias_deref (snd e) vh) (hb_iter H m)"

section \<open>Meaning\<close>

lemma collect_ok: "(\<And>x. x \<in> set xs \<Longrightarrow> f x = Inr (g x)) \<Longrightarrow> collect f xs = Inr (map g xs)"
  by (induction xs) simp_all

text \<open>A map can be read when it has no duplicate keys and all it refers to is alive.\<close>

definition readable :: "('m, 'k, 'v, 's) hashbrown \<Rightarrow> heap \<Rightarrow> heap \<Rightarrow> 'm \<Rightarrow> bool" where
  "readable H kh vh m \<longleftrightarrow> unique_keys H m \<and> keys_alive kh (content_of H m) \<and> values_alive vh (content_of H m)"

lemma readable_entries:
  assumes "readable H kh vh m" "e \<in> set (hb_iter H m)"
  shows "alias_deref (fst e) kh = Inr (aliased (fst e))" "alias_deref (snd e) vh = Inr (aliased (snd e))"
  using assms content_ran [of H m] by (simp_all add: readable_def keys_alive_def values_alive_def alias_deref_def)

lemma values_of_entries:
  "map_of (map (\<lambda>e. (entry_key e, aliased (snd e))) (hb_iter H m)) = values_of (content_of H m)"
proof
  have "map_of (map (\<lambda>e. (entry_key e, aliased (snd e))) es) k
      = map_option (\<lambda>e. aliased (snd e)) (map_of (keyed es) k)" for es k
    by (induction es) (simp_all add: keyed_def)
  then show "map_of (map (\<lambda>e. (entry_key e, aliased (snd e))) (hb_iter H m)) k = values_of (content_of H m) k" for k
    by (simp add: values_of_def content_of_def)
qed

lemma dom_values_of: "dom (values_of A) = dom A"
  by (auto simp: values_of_def dom_def)

text \<open>What the seven read operations return on a map whose content, as values, is \<open>M\<close>.\<close>

definition reads_as :: "('m, 'k, 'v, 's) hashbrown \<Rightarrow> heap \<Rightarrow> heap \<Rightarrow> 'm \<Rightarrow> ('k \<rightharpoonup> 'v) \<Rightarrow> bool" where
  "reads_as H kh vh m M \<longleftrightarrow>
     (view_is_empty H m \<longleftrightarrow> M = Map.empty)
     \<and> view_len H m = card (dom M)
     \<and> (\<forall>k. view_contains_key H kh k m = Inr (M k \<noteq> None))
     \<and> (\<forall>k. view_get H kh vh k m = Inr (M k))
     \<and> (\<exists>es. view_iter H kh vh m = Inr es \<and> distinct (map fst es) \<and> map_of es = M
          \<and> view_keys H kh m = Inr (map fst es) \<and> view_values H vh m = Inr (map snd es))"

context hash_table
begin

lemma view_get_ok:
  assumes "readable H kh vh m"
  shows "view_get H kh vh k m = Inr (values_of (content_of H m) k)"
proof -
  have u: "unique_keys H m" and k: "keys_readable H kh m"
    using assms by (simp_all add: readable_def keys_readable_iff)
  show ?thesis
  proof (cases "content_of H m k")
    case None
    then show ?thesis by (simp add: view_get_def k get_law [OF u] values_of_def)
  next
    case (Some e)
    then have "alive vh (family (snd e))" using assms by (auto simp: readable_def intro: values_aliveD)
    with Some show ?thesis by (simp add: view_get_def k get_law [OF u] values_of_def alias_deref_def)
  qed
qed

lemma view_iter_ok:
  assumes "readable H kh vh m"
  shows "view_iter H kh vh m = Inr (map (\<lambda>e. (entry_key e, aliased (snd e))) (hb_iter H m))"
    and "view_keys H kh m = Inr (map entry_key (hb_iter H m))"
    and "view_values H vh m = Inr (map (\<lambda>e. aliased (snd e)) (hb_iter H m))"
  using readable_entries [OF assms]
  by (simp_all add: view_iter_def view_keys_def view_values_def entry_key_def collect_ok)

lemma readable_reads_as:
  assumes "readable H kh vh m"
  shows "reads_as H kh vh m (values_of (content_of H m))"
proof -
  have u: "unique_keys H m" and k: "keys_readable H kh m"
    using assms by (simp_all add: readable_def keys_readable_iff)
  have "values_of (content_of H m) = Map.empty \<longleftrightarrow> content_of H m = Map.empty"
    using dom_values_of [of "content_of H m"] by (metis dom_eq_empty_conv)
  then show ?thesis
    using u values_of_entries [of H m] view_iter_ok [OF assms] view_get_ok [OF assms]
    by (auto simp: reads_as_def view_is_empty_def view_len_def view_contains_key_def k empty_dom len_card
        contains_law values_of_def dom_values_of unique_keys_def comp_def)
qed

end

end
