(* ===== verification/Builder.thy ===== *)
theory Builder
  imports Oplog
begin

text \<open>
  \<open>src/lib.rs\<close>: the builder of a map, its hashers, and the identities of write handles. A
  function pointer of the source that makes hashers may have a state of its own (as
  \<open>RandomState::default\<close> does); it is a function on a generator state \<open>'g\<close>.
\<close>

section \<open>The builder\<close>

datatype ('s, 'g) HasherGen =
    Generate "'g \<Rightarrow> 's \<times> 'g"
  | MakeBoth "'g \<Rightarrow> ('s \<times> 's) \<times> 'g"
  | CloneHasher 's "'s \<Rightarrow> 's"

record ('s, 'g) Builder =
  capacity :: usize
  hasher :: "('s, 'g) HasherGen"

record 's BuilderArgs =
  args_capacity :: usize
  h1 :: 's
  h2 :: 's

text \<open>\<open>random_state\<close> stands for \<open>RandomState::default\<close>; the clone of a \<open>RandomState\<close> is equal to it.\<close>

definition builder_new :: "('g \<Rightarrow> 's \<times> 'g) \<Rightarrow> ('s, 'g) Builder" where
  "builder_new random_state =
     \<lparr>capacity = 0, hasher = MakeBoth (\<lambda>g. let (h, g') = random_state g in ((h, h), g'))\<rparr>"

text \<open>\<open>Default\<close> for the builder.\<close>

definition builder_default :: "('g \<Rightarrow> 's \<times> 'g) \<Rightarrow> ('s, 'g) Builder" where
  "builder_default random_state = builder_new random_state"

definition builder_with_capacity :: "usize \<Rightarrow> ('s, 'g) Builder \<Rightarrow> ('s, 'g) Builder" where
  "builder_with_capacity c b = \<lparr>capacity = c, hasher = hasher b\<rparr>"

definition builder_with_hasher :: "'h \<Rightarrow> ('h \<Rightarrow> 'h) \<Rightarrow> ('s, 'g) Builder \<Rightarrow> ('h, 'g) Builder" where
  "builder_with_hasher h clone b = \<lparr>capacity = capacity b, hasher = CloneHasher h clone\<rparr>"

definition builder_with_hasher_generator :: "('g \<Rightarrow> 'h \<times> 'g) \<Rightarrow> ('s, 'g) Builder \<Rightarrow> ('h, 'g) Builder" where
  "builder_with_hasher_generator gen b = \<lparr>capacity = capacity b, hasher = Generate gen\<rparr>"

text \<open>A chain of calls on a builder.\<close>

datatype ('s, 'g) setting =
    WithCapacity usize
  | WithHasher 's "'s \<Rightarrow> 's"
  | WithGenerator "'g \<Rightarrow> 's \<times> 'g"

fun apply_setting :: "('s, 'g) setting \<Rightarrow> ('s, 'g) Builder \<Rightarrow> ('s, 'g) Builder" where
  "apply_setting (WithCapacity c) b = builder_with_capacity c b"
| "apply_setting (WithHasher h clone) b = builder_with_hasher h clone b"
| "apply_setting (WithGenerator gen) b = builder_with_hasher_generator gen b"

definition builder_chain :: "('g \<Rightarrow> 's \<times> 'g) \<Rightarrow> ('s, 'g) setting list \<Rightarrow> ('s, 'g) Builder" where
  "builder_chain random_state xs = fold apply_setting xs (builder_new random_state)"

fun generate :: "('s, 'g) HasherGen \<Rightarrow> 'g \<Rightarrow> ('s \<times> 's) \<times> 'g" where
  "generate (Generate gen) g = (let (a, g1) = gen g; (b, g2) = gen g1 in ((a, b), g2))"
| "generate (MakeBoth make_both) g = make_both g"
| "generate (CloneHasher h clone) g = ((clone h, h), g)"

definition into_args :: "('s, 'g) Builder \<Rightarrow> 'g \<Rightarrow> 's BuilderArgs \<times> 'g" where
  "into_args b g =
     (let ((a, c), g') = generate (hasher b) g in (\<lparr>args_capacity = capacity b, h1 = a, h2 = c\<rparr>, g'))"

text \<open>The two maps that \<open>Core::build_map\<close> allocates, and the write handle on them.\<close>

definition build_maps :: "('m, 'k, 'v, 's) hashbrown \<Rightarrow> 's BuilderArgs \<Rightarrow> 'm MapArray" where
  "build_maps H args =
     \<lparr>first_map = hb_with_capacity_and_hasher H (args_capacity args) (h1 args),
      second_map = hb_with_capacity_and_hasher H (args_capacity args) (h2 args)\<rparr>"

definition build_handle :: "('m, 'k, 'v, 's) hashbrown \<Rightarrow> ('s, 'g) Builder \<Rightarrow> 'g \<times> usize
    \<Rightarrow> ('m, 'k, 'v) WriteHandle res \<times> 'g \<times> usize" where
  "build_handle H b env =
     (let (args, g') = into_args b (fst env); (r, next') = write_handle_new (build_maps H args) (snd env)
      in (r, g', next'))"

text \<open>The constructors at the top of the crate.\<close>

definition flashmap_new :: "('m, 'k, 'v, 's) hashbrown \<Rightarrow> ('g \<Rightarrow> 's \<times> 'g) \<Rightarrow> 'g \<times> usize
    \<Rightarrow> ('m, 'k, 'v) WriteHandle res \<times> 'g \<times> usize" where
  "flashmap_new H random_state env = build_handle H (builder_new random_state) env"

definition flashmap_with_capacity :: "('m, 'k, 'v, 's) hashbrown \<Rightarrow> ('g \<Rightarrow> 's \<times> 'g) \<Rightarrow> usize \<Rightarrow> 'g \<times> usize
    \<Rightarrow> ('m, 'k, 'v) WriteHandle res \<times> 'g \<times> usize" where
  "flashmap_with_capacity H random_state c env =
     build_handle H (builder_with_capacity c (builder_new random_state)) env"

definition flashmap_with_hasher :: "('m, 'k, 'v, 'h) hashbrown \<Rightarrow> ('g \<Rightarrow> 's \<times> 'g) \<Rightarrow> 'h \<Rightarrow> ('h \<Rightarrow> 'h) \<Rightarrow> 'g \<times> usize
    \<Rightarrow> ('m, 'k, 'v) WriteHandle res \<times> 'g \<times> usize" where
  "flashmap_with_hasher H random_state h clone env =
     build_handle H (builder_with_hasher h clone (builder_new random_state)) env"

section \<open>Identities of write handles\<close>

text \<open>The results of \<open>n\<close> successive calls of \<open>WriterUid::next\<close> in one process.\<close>

fun uid_calls :: "nat \<Rightarrow> usize \<Rightarrow> usize res list" where
  "uid_calls 0 c = []"
| "uid_calls (Suc n) c = (let (r, c') = writer_uid_next c in r # uid_calls n c')"

text \<open>What the global counter holds before the call with number \<open>i\<close>, from zero.\<close>

fun uid_counter :: "nat \<Rightarrow> usize" where
  "uid_counter 0 = 1"
| "uid_counter (Suc i) = snd (writer_uid_next (uid_counter i))"

lemma uid_counter_eq: "uid_counter i = of_nat (Suc i)"
  by (induction i) (simp_all add: writer_uid_next_def)

lemma uid_counter_distinct:
  assumes "i < 2 ^ 64 - 1" "j < 2 ^ 64 - 1" "i \<noteq> j"
  shows "uid_counter i \<noteq> uid_counter j"
  unfolding uid_counter_eq using assms by (simp only: word_unat_eq_iff unat_of_nat) simp

lemma uid_calls_nth:
  "i < n \<Longrightarrow> uid_calls n c ! i = fst (writer_uid_next (c + of_nat i))"
proof (induction n arbitrary: c i)
  case 0
  then show ?case by simp
next
  case (Suc n)
  then show ?case by (cases i) (simp_all add: writer_uid_next_def ac_simps)
qed

lemma length_uid_calls [simp]: "length (uid_calls n c) = n"
  by (induction n arbitrary: c) (simp_all add: writer_uid_next_def)

lemma uid_of_nat: "(1 :: usize) + of_nat i = of_nat (Suc i)"
  by simp

text \<open>
  The check catches only the single call that reads zero: the counter has already wrapped,
  so the call after the panic gives out the identity of the first handle again.
\<close>

lemma uids_repeat_after_panic:
  "uid_calls (2 ^ 64 + 1) 1 ! (2 ^ 64) = uid_calls (2 ^ 64 + 1) 1 ! 0"
proof -
  have "uid_calls (2 ^ 64 + 1) 1 ! (2 ^ 64) = fst (writer_uid_next (1 + of_nat (2 ^ 64)))"
    by (rule uid_calls_nth) simp
  moreover have "uid_calls (2 ^ 64 + 1) 1 ! 0 = fst (writer_uid_next (1 + of_nat 0))"
    by (rule uid_calls_nth) simp
  moreover have "(of_nat (2 ^ 64) :: usize) = of_nat 0" by simp
  ultimately show ?thesis by (simp only:)
qed

text \<open>
  C37: the first \<open>2 ^ 64 - 1\<close> write handles of a process get distinct identities, so a value leaked
  from one map is never accepted by another; the next call panics. The check catches only that call: the counter
  has wrapped, and the call after the panic gives out the identity of the first handle again.
\<close>

theorem uids_distinct_until_panic:
  assumes "i < 2 ^ 64 - 1" "j < 2 ^ 64 - 1" "i \<noteq> j"
  shows "\<exists>a b. uid_calls (2 ^ 64) 1 ! i = Inr a \<and> uid_calls (2 ^ 64) 1 ! j = Inr b \<and> a \<noteq> b
     \<and> uid_calls (2 ^ 64) 1 ! (2 ^ 64 - 1) = Inl (Panic ''Maximum number of maps exceeded for this architecture'')
     \<and> uid_calls (2 ^ 64 + 1) 1 ! (2 ^ 64) = uid_calls (2 ^ 64 + 1) 1 ! 0"
proof -
  have nz: "(of_nat (Suc n) :: usize) \<noteq> 0" if "n < 2 ^ 64 - 1" for n
    using that by (simp only: word_unat_eq_iff unat_of_nat) simp
  have neq: "(of_nat (Suc i) :: usize) \<noteq> of_nat (Suc j)"
    using assms by (simp only: word_unat_eq_iff unat_of_nat) simp
  have "(of_nat (Suc (2 ^ 64 - 1)) :: usize) = 0" by simp
  with nz [OF assms(1)] nz [OF assms(2)] neq assms
  have "\<exists>a b. uid_calls (2 ^ 64) 1 ! i = Inr a \<and> uid_calls (2 ^ 64) 1 ! j = Inr b \<and> a \<noteq> b
     \<and> uid_calls (2 ^ 64) 1 ! (2 ^ 64 - 1) = Inl (Panic ''Maximum number of maps exceeded for this architecture'')"
    by (simp add: uid_calls_nth writer_uid_next_def uid_of_nat del: of_nat_Suc)
  then show ?thesis using uids_repeat_after_panic by blast
qed

theorem uids_distinct_until_panic_witness:
  "\<exists>a b. uid_calls (2 ^ 64) 1 ! 0 = Inr a \<and> uid_calls (2 ^ 64) 1 ! 1 = Inr b \<and> a \<noteq> b
     \<and> uid_calls (2 ^ 64) 1 ! (2 ^ 64 - 1) = Inl (Panic ''Maximum number of maps exceeded for this architecture'')
     \<and> uid_calls (2 ^ 64 + 1) 1 ! (2 ^ 64) = uid_calls (2 ^ 64 + 1) 1 ! 0"
  by (rule uids_distinct_until_panic) simp_all

end
