(* ===== verification/System.thy ===== *)
theory System
  imports CoreProps Views Builder
begin

text \<open>
  The whole map: the protocol of \<open>Protocol\<close> decides when each thread may go on, the write
  handle of \<open>Oplog\<close> holds the data. The log is re-applied one operation per step, so readers
  interleave with it; each call on a write guard or on a leaked value is one step.
\<close>

section \<open>State and steps\<close>

record ('m, 'k, 'v) system =
  proto :: state
  handle :: "('m, 'k, 'v) WriteHandle"
  evicted :: "'v Evicted list"      \<comment> \<open>evicted values the user still holds\<close>
  leaked :: "'v Leaked list"        \<comment> \<open>leaked values the user still holds\<close>
  reclaimed :: "'v list"            \<comment> \<open>values the user got back\<close>
  core_dropped :: bool              \<comment> \<open>\<open>Core::drop\<close> has run\<close>

datatype ('k, 'v) sys_action =
    Proto action
  | FlushOne                        \<comment> \<open>one round of the loop of \<open>flush_operations\<close>\<close>
  | Insert 'k 'v
  | ReplaceWith 'k "'v \<Rightarrow> 'v"
  | RemoveKey 'k
  | Leak nat
  | DropLazily nat
  | Reclaim nat
  | DropCore

definition lift_step :: "'a step \<Rightarrow> ('a \<Rightarrow> 'b) \<Rightarrow> 'b step" where
  "lift_step r f = (case r of None \<Rightarrow> None | Some x \<Rightarrow> Some (bind_res x (\<lambda>y. Inr (f y))))"

definition flushing :: "writer_pc \<Rightarrow> bool" where
  "flushing pc \<longleftrightarrow> pc = Flushing \<or> pc = Closing"

text \<open>
  A step of the protocol. The writer leaves \<open>flush_operations\<close> when the log is empty; a new call on
  the write handle ends the borrow of every evicted value.
\<close>

definition proto_step :: "action \<Rightarrow> ('m, 'k, 'v) system \<Rightarrow> ('m, 'k, 'v) system step" where
  "proto_step a s =
     (if a = WriterStep \<and> flushing (writer (proto s)) \<and> operations (handle s) \<noteq> [] then None
      else lift_step (exec a (proto s))
        (\<lambda>p. s\<lparr>proto := p, evicted := (case a of WriterCall c \<Rightarrow> [] | _ \<Rightarrow> evicted s)\<rparr>))"

definition guard_call :: "('m, 'k, 'v) guard_result \<Rightarrow> ('m, 'k, 'v) system \<Rightarrow> ('m, 'k, 'v) system step" where
  "guard_call r s =
     (if writer (proto s) = Writing
      then Some (bind_res r (\<lambda>(e, w). Inr (s\<lparr>handle := w,
             evicted := (case e of None \<Rightarrow> evicted s | Some x \<Rightarrow> evicted s @ [x])\<rparr>)))
      else None)"

definition remove_nth :: "nat \<Rightarrow> 'a list \<Rightarrow> 'a list" where
  "remove_nth i xs = take i xs @ drop (Suc i) xs"

definition flush_step :: "('m, 'k, 'v, 's) hashbrown \<Rightarrow> ('m, 'k, 'v) system \<Rightarrow> ('m, 'k, 'v) system step" where
  "flush_step H s =
     (if flushing (writer (proto s)) \<and> operations (handle s) \<noteq> []
      then Some (bind_res (flush_op H (writer_map (proto s)) (handle s)) (\<lambda>w. Inr (s\<lparr>handle := w\<rparr>)))
      else None)"

definition leak_step :: "nat \<Rightarrow> ('m, 'k, 'v) system \<Rightarrow> ('m, 'k, 'v) system step" where
  "leak_step j s =
     (if j < length (evicted s) \<and> (writer (proto s) = Writing \<or> writer (proto s) = Idle)
      then Some (bind_res (leak (evicted s ! j) (handle s)) (\<lambda>(l, w).
             Inr (s\<lparr>handle := w, evicted := remove_nth j (evicted s), leaked := leaked s @ [l]\<rparr>)))
      else None)"

definition drop_lazily_step :: "nat \<Rightarrow> ('m, 'k, 'v) system \<Rightarrow> ('m, 'k, 'v) system step" where
  "drop_lazily_step j s =
     (if j < length (leaked s) \<and> writer (proto s) = Writing
      then Some (bind_res (drop_lazily (leaked s ! j) (handle s)) (\<lambda>w.
             Inr (s\<lparr>handle := w, leaked := remove_nth j (leaked s)\<rparr>)))
      else None)"

definition reclaim_step :: "nat \<Rightarrow> ('m, 'k, 'v) system \<Rightarrow> ('m, 'k, 'v) system step" where
  "reclaim_step j s =
     (if j < length (leaked s) \<and> writer (proto s) = Reclaiming
      then Some (bind_res (reclaim (leaked s ! j) (handle s)) (\<lambda>(v, w).
             Inr (s\<lparr>handle := w, leaked := remove_nth j (leaked s), reclaimed := reclaimed s @ [v]\<rparr>)))
      else None)"

text \<open>The last \<open>Arc\<close> of the core is gone when the write handle and all read handles are.\<close>

definition drop_core_step :: "('m, 'k, 'v, 's) hashbrown \<Rightarrow> ('m, 'k, 'v) system \<Rightarrow> ('m, 'k, 'v) system step" where
  "drop_core_step H s =
     (if writer (proto s) = Closed \<and> refcounts (proto s) = []
      then Some (bind_res (core_drop H (writer_map (proto s)) (handle s)) (\<lambda>w.
             Inr (s\<lparr>handle := w, core_dropped := True\<rparr>)))
      else None)"

fun sys_action_step :: "('m, 'k, 'v, 's) hashbrown \<Rightarrow> ('k, 'v) sys_action \<Rightarrow> ('m, 'k, 'v) system
    \<Rightarrow> ('m, 'k, 'v) system step" where
  "sys_action_step H (Proto a) s = proto_step a s"
| "sys_action_step H FlushOne s = flush_step H s"
| "sys_action_step H (Insert k v) s = guard_call (guard_insert H (writer_map (proto s)) k v (handle s)) s"
| "sys_action_step H (ReplaceWith k f) s = guard_call (guard_replace H (writer_map (proto s)) k f (handle s)) s"
| "sys_action_step H (RemoveKey k) s = guard_call (guard_remove H (writer_map (proto s)) k (handle s)) s"
| "sys_action_step H (Leak j) s = leak_step j s"
| "sys_action_step H (DropLazily j) s = drop_lazily_step j s"
| "sys_action_step H (Reclaim j) s = reclaim_step j s"
| "sys_action_step H DropCore s = drop_core_step H s"

definition sys_exec :: "('m, 'k, 'v, 's) hashbrown \<Rightarrow> ('k, 'v) sys_action \<Rightarrow> ('m, 'k, 'v) system
    \<Rightarrow> ('m, 'k, 'v) system step" where
  "sys_exec H a s = (if core_dropped s then None else sys_action_step H a s)"

text \<open>\<open>Core::build_map\<close> as a whole: the maps, the write handle and the first read handle.\<close>

definition sys_build :: "('m, 'k, 'v, 's) hashbrown \<Rightarrow> ('s, 'g) Builder \<Rightarrow> 'g \<times> usize \<Rightarrow> tid \<Rightarrow> slab_key
    \<Rightarrow> ('m, 'k, 'v) system step" where
  "sys_build H b env t key =
     (case fst (build_handle H b env) of
        Inl e \<Rightarrow> Some (Inl e)
      | Inr w \<Rightarrow> lift_step (build_map t key)
          (\<lambda>p. \<lparr>proto = p, handle = w, evicted = [], leaked = [], reclaimed = [], core_dropped = False\<rparr>))"

fun sys_run :: "('m, 'k, 'v, 's) hashbrown \<Rightarrow> ('k, 'v) sys_action list \<Rightarrow> ('m, 'k, 'v) system
    \<Rightarrow> ('m, 'k, 'v) system step" where
  "sys_run H [] s = ok s"
| "sys_run H (a # as) s =
     (case sys_exec H a s of None \<Rightarrow> None | Some (Inl e) \<Rightarrow> Some (Inl e) | Some (Inr s') \<Rightarrow> sys_run H as s')"

inductive sys_reachable :: "('m, 'k, 'v, 's) hashbrown \<Rightarrow> ('s, 'g) Builder \<Rightarrow> 'g \<times> usize
    \<Rightarrow> ('m, 'k, 'v) system \<Rightarrow> bool" for H b env where
  init: "sys_build H b env t key = Some (Inr s) \<Longrightarrow> sys_reachable H b env s"
| step: "sys_reachable H b env s \<Longrightarrow> sys_exec H a s = Some (Inr s') \<Longrightarrow> sys_reachable H b env s'"

interpretation sys_machine: machine "sys_exec H" "sys_run H" "sys_reachable H b env" "\<lambda>_. True" for H b env
  by unfold_locales (auto intro: sys_reachable.step split: option.splits sum.splits)

lemma sys_reachable_run:
  "sys_reachable H b env s \<Longrightarrow> sys_run H as s = Some (Inr s') \<Longrightarrow> sys_reachable H b env s'"
  by (rule sys_machine.reach_run) (auto simp: list_all_iff)

end
