(* ===== verification/SystemInv.thy ===== *)
theory SystemInv
  imports System
begin

text \<open>
  The invariant of the whole map: the ownership invariant of the log, placed at the program
  points of the protocol, and that every map a read guard can reach is alive.
\<close>

section \<open>Roles of the two maps\<close>

text \<open>
  The map with all operations is the writer's map while a write guard is live and until
  \<open>publish\<close> exchanges the maps; from then on it is the readers' map.
\<close>

definition fresh_index :: "state \<Rightarrow> MapIndex" where
  "fresh_index p = (if writer p \<in> {Writing, PubLock, PubSetMap} then writer_map p else other (writer_map p))"

fun publishing :: "writer_pc \<Rightarrow> bool" where
  "publishing Writing = True"
| "publishing PubLock = True"
| "publishing PubSetMap = True"
| "publishing (PubSwap ks a) = True"
| "publishing (PubUnlock a) = True"
| "publishing (PubFetchAdd a) = True"
| "publishing _ = False"

definition write_side :: "writer_pc \<Rightarrow> bool" where
  "write_side pc \<longleftrightarrow> publishing pc \<or> pc = Idle"

text \<open>The steps of the readers do not touch the writer.\<close>

definition reader_action :: "action \<Rightarrow> bool" where
  "reader_action a = (case a of CloneReader f k \<Rightarrow> True | DropReader k \<Rightarrow> True | NewGuard k \<Rightarrow> True | DropGuard i \<Rightarrow> True
     | ReleaseResidual i \<Rightarrow> True | ReleaseStoreZero i \<Rightarrow> True | ReleaseUnpark i \<Rightarrow> True | _ \<Rightarrow> False)"

lemma reader_action_writer:
  assumes "reader_action a" "exec a p = Some (Inr p')"
  shows "writer p' = writer p" "writer_map p' = writer_map p"
proof -
  have "writer p' = writer p \<and> writer_map p' = writer_map p"
    using assms
    by (cases a) (auto simp: reader_action_def clone_reader_def new_reader_def release_refcount_def read_guard_def
        drop_guard_def release_residual_def release_store_zero_def release_unpark_def Let_def bind_res_eq_Inr
        split: if_splits option.splits prod.splits)
  then show "writer p' = writer p" "writer_map p' = writer_map p" by simp_all
qed

lemmas writer_action_defs = sync_load_def sync_set_thread_def sync_fetch_add_def sync_park_def sync_reload_def
  sync_store_zero_def publish_lock_def publish_set_map_def publish_unlock_def publish_fetch_add_def park_spuriously_def

text \<open>What a step of the writer does to the roles of the maps.\<close>

definition role_step :: "action \<Rightarrow> state \<Rightarrow> state \<Rightarrow> bool" where
  "role_step a p p' \<longleftrightarrow>
     (if a = WriterStep \<and> writer p = Flushing
      then writer p' = Writing \<and> fresh_index p' = other (fresh_index p) \<and> writer_map p' = writer_map p
      else fresh_index p' = fresh_index p \<and> (publishing (writer p') \<longrightarrow> publishing (writer p))
         \<and> (write_side (writer p) \<and> (\<forall>c. a \<noteq> WriterCall c) \<longrightarrow> write_side (writer p'))
         \<and> (writer p' = Closed \<longrightarrow> writer p = Closed \<or> a = WriterStep \<and> writer p = Closing))"

lemma publish_swap_role:
  assumes "publish_swap ks acc p = Inr p'"
  shows "writer_map p' = writer_map p" "publishing (writer p')" "fresh_index p' = other (writer_map p)"
    "writer p' \<noteq> Closed"
  using assms by (cases ks; auto simp: fresh_index_def Let_def split: option.splits prod.splits if_splits)+

lemma after_sync_role [simp]:
  "\<not> publishing (after_sync c)" "after_sync c \<noteq> Closed" "after_sync c \<noteq> Writing" "after_sync c \<noteq> PubLock"
  "after_sync c \<noteq> PubSetMap"
  by (cases c; simp)+

lemma writer_step_role:
  assumes "writer_step p = Some (Inr p')"
  shows "role_step WriterStep p p'"
proof (cases "writer p")
  case (PubSwap ks acc)
  with assms publish_swap_role [of ks acc p p'] show ?thesis
    by (simp add: role_step_def) (simp add: fresh_index_def write_side_def)
qed (use assms in \<open>auto simp: role_step_def fresh_index_def write_side_def writer_action_defs Let_def
       split: if_splits\<close>)

lemma exec_role:
  assumes "exec a p = Some (Inr p')"
  shows "role_step a p p'"
proof (cases "reader_action a \<or> a = WriterStep")
  case True
  with assms show ?thesis
    using reader_action_writer [of a p p'] writer_step_role [of p p']
    by (auto simp: role_step_def fresh_index_def reader_action_def)
next
  case False
  with assms show ?thesis
    by (cases a) (auto simp: role_step_def fresh_index_def reader_action_def write_side_def
        publish_set_map_def park_spuriously_def split: if_splits writer_pc.splits)
qed

section \<open>New guards\<close>

lemma read_guard_result:
  assumes "pinv p" "read_guard k p = Some (Inr p')"
  shows "guards p' = guards p @ [\<lparr>refcount_key = k, map_index = expected p k, phase = Live\<rparr>]"
proof (cases "map_of (refcounts p) k")
  case None
  with assms(2) show ?thesis by (simp add: read_guard_def)
next
  case (Some v)
  with inv_lookup [OF assms(1) Some] assms(2) show ?thesis
    by (auto simp: read_guard_def increment_encode split: if_splits)
qed

lemma live_after_set_phase:
  assumes "g \<in> set (guards (set_phase i q p))" "phase g = Live" "q \<noteq> Live"
  shows "g \<in> set (guards p)"
  using assms by (auto dest!: subsetD [OF set_update_subset_insert])

lemma publish_swap_guards: "publish_swap ks acc p = Inr p' \<Longrightarrow> guards p' = guards p"
  by (cases ks) (auto simp: Let_def split: option.splits prod.splits if_splits)

lemma writer_action_guards:
  assumes "\<not> reader_action a" "exec a p = Some (Inr p')"
  shows "guards p' = guards p"
  using assms publish_swap_guards
  by (cases a; cases "writer p") (auto simp: reader_action_def writer_action_defs Let_def split: if_splits)

lemma live_guard_step:
  assumes "pinv p" "exec a p = Some (Inr p')" "g \<in> set (guards p')" "phase g = Live"
  shows "g \<in> set (guards p) \<or> (\<exists>k. a = NewGuard k \<and> map_index g = expected p k)"
proof (cases "reader_action a")
  case False
  with assms writer_action_guards show ?thesis by auto
next
  case True
  then show ?thesis
  proof (cases a)
    case (NewGuard k)
    with assms(2-4) read_guard_result [OF assms(1), of k p'] show ?thesis by auto
  next
    case (DropGuard i)
    with assms(2-4) show ?thesis
      by (auto simp: drop_guard_def Let_def bind_res_eq_Inr simp del: set_phase_frame
          split: if_splits option.splits prod.splits dest!: live_after_set_phase)
  next
    case (ReleaseResidual i)
    with assms(2-4) show ?thesis
      by (auto simp: release_residual_def Let_def simp del: set_phase_frame
          split: if_splits dest!: live_after_set_phase)
  next
    case (ReleaseStoreZero i)
    with assms(2-4) show ?thesis
      by (auto simp: release_store_zero_def simp del: set_phase_frame split: if_splits dest!: live_after_set_phase)
  next
    case (ReleaseUnpark i)
    with assms(2-4) show ?thesis
      by (auto simp: release_unpark_def simp del: set_phase_frame
          split: if_splits option.splits dest!: live_after_set_phase)
  qed (use assms in \<open>auto simp: reader_action_def clone_reader_def new_reader_def release_refcount_def
         split: if_splits\<close>)
qed

text \<open>Every index a guard can have refers to the readers' map, or to the writer's map during \<open>publish\<close>.\<close>

lemma expected_index: "expected p k = other (writer_map p) \<or> publishing (writer p)"
  by (cases "writer p") (auto simp: expected_def todo_def)

section \<open>The invariant\<close>

definition held :: "('m, 'k, 'v) system \<Rightarrow> nat multiset" where
  "held s = mset (map (\<lambda>l. family (leaked_value l)) (leaked s))"

definition content_at :: "('m, 'k, 'v, 's) hashbrown \<Rightarrow> ('m, 'k, 'v) system \<Rightarrow> MapIndex \<Rightarrow> ('k, 'v) content" where
  "content_at H s i = content_of H (map_get (maps (handle s)) i)"

definition tokens_ok :: "('m, 'k, 'v, 's) hashbrown \<Rightarrow> ('m, 'k, 'v) system \<Rightarrow> bool" where
  "tokens_ok H s \<longleftrightarrow>
     (\<forall>e\<in>set (evicted s). token_ok H (fresh_index (proto s)) (handle s) e)
     \<and> distinct (map evicted_operation (evicted s))
     \<and> (evicted s \<noteq> [] \<longrightarrow> write_side (writer (proto s)))
     \<and> (\<forall>l\<in>set (leaked s). leaked_uid l = uid (handle s))"

definition readers_ok :: "('m, 'k, 'v, 's) hashbrown \<Rightarrow> ('m, 'k, 'v) system \<Rightarrow> bool" where
  "readers_ok H s \<longleftrightarrow>
     (publishing (writer (proto s)) \<longrightarrow>
        values_alive (vheap (handle s)) (content_at H s (other (fresh_index (proto s)))))
     \<and> (\<forall>g\<in>set (guards (proto s)). phase g = Live \<longrightarrow>
        values_alive (vheap (handle s)) (content_at H s (map_index g)))"

definition data_inv :: "('m, 'k, 'v, 's) hashbrown \<Rightarrow> ('m, 'k, 'v) system \<Rightarrow> bool" where
  "data_inv H s \<longleftrightarrow> handle_ok H (fresh_index (proto s)) (held s) (handle s) \<and> tokens_ok H s \<and> readers_ok H s
     \<and> (writer (proto s) = Closed \<longrightarrow> operations (handle s) = [])"

text \<open>A step is fine when it is not enabled, aborts the process or leads to the invariant.\<close>

definition step_ok :: "('m, 'k, 'v, 's) hashbrown \<Rightarrow> ('m, 'k, 'v) system step \<Rightarrow> bool" where
  "step_ok H r \<longleftrightarrow> r = None \<or> r = Some (Inl Abort)
     \<or> (\<exists>s'. r = Some (Inr s') \<and> pinv (proto s') \<and> (core_dropped s' \<or> data_inv H s'))"

lemmas data_inv_defs = data_inv_def tokens_ok_def readers_ok_def

text \<open>With the maps and the heap of values unchanged, a step of the protocol keeps the invariant.\<close>

lemma values_alive_fresh:
  "data_inv H s \<Longrightarrow> values_alive (vheap (handle s)) (content_at H s (fresh_index (proto s)))"
  unfolding data_inv_def content_at_def by (auto intro: handle_ok_alive)

lemma values_alive_readers_map:
  assumes "data_inv H s"
  shows "values_alive (vheap (handle s)) (content_at H s (other (writer_map (proto s))))"
  using values_alive_fresh [OF assms] assms
  by (auto simp: data_inv_def readers_ok_def fresh_index_def split: if_splits)

lemma values_alive_expected:
  assumes "data_inv H s"
  shows "values_alive (vheap (handle s)) (content_at H s (expected (proto s) k))"
proof (cases "publishing (writer (proto s))")
  case True
  then have "values_alive (vheap (handle s)) (content_at H s i)" for i
    using values_alive_fresh [OF assms] assms neq_iff_other [of i "fresh_index (proto s)"]
    by (cases "i = fresh_index (proto s)") (auto simp: data_inv_def readers_ok_def)
  then show ?thesis .
next
  case False
  with values_alive_readers_map [OF assms] expected_index [of "proto s" k] show ?thesis by auto
qed

lemma readers_ok_proto:
  assumes inv: "data_inv H s" and p: "pinv (proto s)" and ex: "exec a (proto s) = Some (Inr p')"
    and r: "proto s' = p'" "handle s' = handle s"
    and pub: "publishing (writer p') \<Longrightarrow>
        values_alive (vheap (handle s)) (content_at H s (other (fresh_index p')))"
  shows "readers_ok H s'"
proof -
  have "values_alive (vheap (handle s)) (content_at H s (map_index g))"
    if "g \<in> set (guards p')" "phase g = Live" for g
    using live_guard_step [OF p ex that] values_alive_expected [OF inv] inv that(2)
    by (auto simp: data_inv_def readers_ok_def)
  with pub r show ?thesis by (simp add: readers_ok_def content_at_def)
qed

context hash_table
begin

lemma inv_proto_step:
  assumes inv: "data_inv H s" and p: "pinv (proto s)" and st: "proto_step a s = Some (Inr s')"
  shows "data_inv H s'"
proof -
  from st obtain p' where ex: "exec a (proto s) = Some (Inr p')"
    and s': "s' = s\<lparr>proto := p', evicted := (case a of WriterCall c \<Rightarrow> [] | _ \<Rightarrow> evicted s)\<rparr>"
    and enab: "\<not> (a = WriterStep \<and> flushing (writer (proto s)) \<and> operations (handle s) \<noteq> [])"
    by (auto simp: proto_step_def lift_step_def bind_res_eq_Inr split: if_splits option.splits)
  have frame: "proto s' = p'" "handle s' = handle s" "leaked s' = leaked s" "held s' = held s"
    by (simp_all add: s' held_def)
  have ev: "set (evicted s') \<subseteq> set (evicted s)" "distinct (map evicted_operation (evicted s'))"
    "evicted s' \<noteq> [] \<Longrightarrow> evicted s \<noteq> [] \<and> (\<forall>c. a \<noteq> WriterCall c)"
    using inv by (auto simp: s' data_inv_defs split: action.splits)
  have role: "role_step a (proto s) p'" using ex by (rule exec_role)
  show ?thesis
  proof (cases "a = WriterStep \<and> writer (proto s) = Flushing")
    case True
    then have f: "fresh_index p' = other (fresh_index (proto s))" "writer p' = Writing" using role
      by (simp_all add: role_step_def)
    have log: "operations (handle s) = []" using enab True by (auto simp: flushing_def)
    have h: "handle_ok H (fresh_index p') (held s) (handle s)"
      using inv log f handle_ok_empty_log(2) by (auto simp: data_inv_def)
    have none: "evicted s = []" using inv True by (auto simp: data_inv_defs write_side_def)
    have "readers_ok H s'"
      using values_alive_fresh [OF inv] by (intro readers_ok_proto [OF inv p ex frame(1,2)]) (simp add: f)
    with h none inv frame show ?thesis by (auto simp: data_inv_defs s' f split: action.splits)
  next
    case False
    then have f: "fresh_index p' = fresh_index (proto s)" "publishing (writer p') \<longrightarrow> publishing (writer (proto s))"
      and w: "write_side (writer (proto s)) \<and> (\<forall>c. a \<noteq> WriterCall c) \<longrightarrow> write_side (writer p')"
      and c: "writer p' = Closed \<longrightarrow> writer (proto s) = Closed \<or> a = WriterStep \<and> writer (proto s) = Closing"
      using role by (auto simp: role_step_def)
    have "readers_ok H s'"
      using inv f by (intro readers_ok_proto [OF inv p ex frame(1,2)]) (simp add: data_inv_def readers_ok_def)
    moreover have "tokens_ok H s'"
      using inv ev w by (auto simp: data_inv_def tokens_ok_def frame f)
    moreover have "writer p' = Closed \<longrightarrow> operations (handle s) = []"
      using c enab inv by (auto simp: flushing_def data_inv_def)
    ultimately show ?thesis using inv by (simp add: data_inv_def frame f)
  qed
qed

lemma exclusive_readers_ok:
  assumes p: "pinv (proto s)" and ex: "exclusive (writer (proto s))" and pr: "proto s' = proto s"
    and a: "values_alive (vheap (handle s')) (content_at H s' (other (writer_map (proto s))))"
    and pub: "publishing (writer (proto s)) \<Longrightarrow> fresh_index (proto s) = writer_map (proto s)"
  shows "readers_ok H s'"
  using exclusive_index [OF p ex] a pub by (auto simp: readers_ok_def pr)

lemma inv_flush_step:
  assumes inv: "data_inv H s" and p: "pinv (proto s)" and en: "flushing (writer (proto s))" "operations (handle s) \<noteq> []"
  shows "\<exists>s'. flush_step H s = Some (Inr s') \<and> data_inv H s'"
proof -
  let ?f = "fresh_index (proto s)"
  have f: "?f = other (writer_map (proto s))" and ex: "exclusive (writer (proto s))"
    and np: "\<not> publishing (writer (proto s))" and nc: "writer (proto s) \<noteq> Closed" and nw: "\<not> write_side (writer (proto s))"
    using en(1) by (auto simp: flushing_def fresh_index_def exclusive_def write_side_def)
  from inv have "handle_ok H ?f (held s) (handle s)" by (simp add: data_inv_def)
  from flush_op_ok [OF this] f obtain w where
    w: "flush_op H (writer_map (proto s)) (handle s) = Inr w" "handle_ok H ?f (held s) w"
      "map_get (maps w) ?f = map_get (maps (handle s)) ?f" "uid w = uid (handle s)" by auto
  let ?s = "s\<lparr>handle := w\<rparr>"
  have "readers_ok H ?s"
    using handle_ok_alive(2) [OF w(2)] f np by (intro exclusive_readers_ok [OF p ex]) (simp_all add: content_at_def)
  with inv w nw nc have "data_inv H ?s" by (simp add: data_inv_def tokens_ok_def held_def)
  moreover have "flush_step H s = Some (Inr ?s)" using en w(1) by (simp add: flush_step_def)
  ultimately show ?thesis by blast
qed

lemma values_alive_mono: "values_alive h A \<Longrightarrow> alive_set h \<subseteq> alive_set h' \<Longrightarrow> values_alive h' A"
  by (auto simp: values_alive_def alive_iff)

lemma distinct_new_token:
  assumes "\<forall>e\<in>set es. token_ok H f w e" "distinct (map evicted_operation es)"
    "evicted_operation e = length (operations w)"
  shows "distinct (map evicted_operation (es @ [e]))"
  using assms evicts_at_length by (fastforce simp: token_ok_def)

lemma inv_guard_call:
  assumes inv: "data_inv H s" and p: "pinv (proto s)" and en: "writer (proto s) = Writing"
    and post: "guard_post H (writer_map (proto s)) (held s) (handle s) e w"
  shows "\<exists>s'. guard_call (Inr (e, w)) s = Some (Inr s') \<and> data_inv H s' \<and> proto s' = proto s \<and> handle s' = w
     \<and> core_dropped s' = core_dropped s"
proof -
  have f: "fresh_index (proto s) = writer_map (proto s)" using en by (simp add: fresh_index_def)
  let ?s = "s\<lparr>handle := w, evicted := (case e of None \<Rightarrow> evicted s | Some x \<Rightarrow> evicted s @ [x])\<rparr>"
  from post obtain ops where w: "handle_ok H (writer_map (proto s)) (held s) w"
    "map_get (maps w) (other (writer_map (proto s))) = map_get (maps (handle s)) (other (writer_map (proto s)))"
    "uid w = uid (handle s)" "operations w = operations (handle s) @ ops"
    "alive_set (vheap (handle s)) \<subseteq> alive_set (vheap w)"
    and tok: "\<And>x. e = Some x \<Longrightarrow> token_ok H (writer_map (proto s)) w x \<and> evicted_operation x = length (operations (handle s))"
    by (auto simp: guard_post_def)
  have old: "token_ok H (writer_map (proto s)) w x" if "x \<in> set (evicted s)" for x
    using inv that token_ok_extend [OF _ w(2-4)] by (auto simp: data_inv_defs f)
  have "values_alive (vheap w) (content_at H ?s (other (writer_map (proto s))))"
    using values_alive_mono [OF values_alive_readers_map [OF inv] w(5)] w(2) by (simp add: content_at_def)
  then have "readers_ok H ?s"
    by (intro exclusive_readers_ok [OF p]) (simp_all add: exclusive_def en f)
  moreover have "tokens_ok H ?s"
    using inv old tok w(3) distinct_new_token [of "evicted s" _ "handle s"] en
    by (auto simp: data_inv_def tokens_ok_def f write_side_def split: option.splits)
  ultimately have "data_inv H ?s" using w(1) en by (simp add: data_inv_def f held_def)
  then show ?thesis using en by (auto simp: guard_call_def)
qed

lemma mset_remove_nth:
  "j < length xs \<Longrightarrow> mset (map f xs) = add_mset (f (xs ! j)) (mset (map f (remove_nth j xs)))"
  unfolding remove_nth_def by (subst (1) id_take_nth_drop) simp_all

lemma set_remove_nth: "set (remove_nth j xs) \<subseteq> set xs"
  unfolding remove_nth_def using set_take_subset set_drop_subset by fastforce

lemma distinct_remove_nth:
  assumes "distinct (map f xs)" "j < length xs"
  shows "distinct (map f (remove_nth j xs)) \<and> (\<forall>x\<in>set (remove_nth j xs). f x \<noteq> f (xs ! j))"
proof -
  have "distinct (map f (take j xs @ xs ! j # drop (Suc j) xs))"
    using assms id_take_nth_drop by metis
  then show ?thesis by (auto simp: remove_nth_def image_iff)
qed

lemma inv_leak_step:
  assumes inv: "data_inv H s" and p: "pinv (proto s)" and j: "j < length (evicted s)"
    and en: "writer (proto s) = Writing \<or> writer (proto s) = Idle"
  shows "\<exists>s'. leak_step j s = Some (Inr s') \<and> data_inv H s' \<and> proto s' = proto s"
proof -
  let ?f = "fresh_index (proto s)" and ?e = "evicted s ! j"
  have h: "handle_ok H ?f (held s) (handle s)" and t: "token_ok H ?f (handle s) ?e"
    using inv j by (auto simp: data_inv_defs)
  from leak_ok [OF h t] obtain w where w: "leak ?e (handle s) = Inr (evicted_leaked ?e, w)"
    "handle_ok H ?f (add_mset (family (evicted_value ?e)) (held s)) w"
    "maps w = maps (handle s)" "uid w = uid (handle s)" "vheap w = vheap (handle s)"
    and tok: "\<And>e'. token_ok H ?f (handle s) e' \<Longrightarrow> evicted_operation e' \<noteq> evicted_operation ?e \<Longrightarrow> token_ok H ?f w e'"
    by blast
  let ?s = "s\<lparr>handle := w, evicted := remove_nth j (evicted s), leaked := leaked s @ [evicted_leaked ?e]\<rparr>"
  have "distinct (map evicted_operation (evicted s))" using inv by (simp add: data_inv_defs)
  from distinct_remove_nth [OF this j] have "tokens_ok H ?s"
    using inv t tok set_remove_nth [of j "evicted s"] w(4) j
    by (auto simp: data_inv_def tokens_ok_def token_ok_def subset_iff)
  moreover have "readers_ok H ?s" using inv w by (simp add: data_inv_def readers_ok_def content_at_def)
  moreover have "held ?s = add_mset (family (evicted_value ?e)) (held s)"
    by (simp add: held_def evicted_value_def)
  ultimately have "data_inv H ?s" using w(2) en by (auto simp: data_inv_def)
  then show ?thesis using w(1) j en by (auto simp: leak_step_def)
qed

lemma inv_drop_lazily_step:
  assumes inv: "data_inv H s" and p: "pinv (proto s)" and j: "j < length (leaked s)" and en: "writer (proto s) = Writing"
  shows "\<exists>s'. drop_lazily_step j s = Some (Inr s') \<and> data_inv H s' \<and> proto s' = proto s"
proof -
  let ?f = "fresh_index (proto s)" and ?l = "leaked s ! j"
  let ?w = "push (Drop (leaked_value ?l)) (handle s)"
  let ?s = "s\<lparr>handle := ?w, leaked := remove_nth j (leaked s)\<rparr>"
  have held: "held s = add_mset (family (leaked_value ?l)) (held ?s)"
    using mset_remove_nth [OF j, of "\<lambda>l. family (leaked_value l)"] by (simp add: held_def)
  have "handle_ok H ?f (add_mset (family (leaked_value ?l)) (held ?s)) (handle s)" "leaked_uid ?l = uid (handle s)"
    using inv j by (auto simp: data_inv_defs held [symmetric])
  from drop_lazily_ok [OF this] have w: "drop_lazily ?l (handle s) = Inr ?w" "handle_ok H ?f (held ?s) ?w" by simp_all
  have "token_ok H ?f ?w e" if "token_ok H ?f (handle s) e" for e
    using that by (rule token_ok_extend) (simp_all add: push_def)
  then have "tokens_ok H ?s"
    using inv set_remove_nth [of j "leaked s"] by (auto simp: data_inv_def tokens_ok_def push_def)
  moreover have "readers_ok H ?s" using inv by (simp add: data_inv_def readers_ok_def content_at_def push_def)
  ultimately have "data_inv H ?s" using w(2) en by (simp add: data_inv_def)
  then show ?thesis using w(1) j en by (auto simp: drop_lazily_step_def)
qed

lemma inv_reclaim_step:
  assumes inv: "data_inv H s" and p: "pinv (proto s)" and j: "j < length (leaked s)" and en: "writer (proto s) = Reclaiming"
  shows "\<exists>s'. reclaim_step j s = Some (Inr s') \<and> data_inv H s' \<and> proto s' = proto s
     \<and> reclaimed s' = reclaimed s @ [aliased (leaked_value (leaked s ! j))]"
proof -
  let ?f = "fresh_index (proto s)" and ?l = "leaked s ! j"
  have f: "?f = other (writer_map (proto s))" using en by (simp add: fresh_index_def)
  let ?s = "\<lambda>w. s\<lparr>handle := w, leaked := remove_nth j (leaked s), reclaimed := reclaimed s @ [aliased (leaked_value ?l)]\<rparr>"
  have held: "held s = add_mset (family (leaked_value ?l)) (held (?s w))" for w
    using mset_remove_nth [OF j, of "\<lambda>l. family (leaked_value l)"] by (simp add: held_def)
  have "handle_ok H ?f (add_mset (family (leaked_value ?l)) (held (?s w))) (handle s)" "leaked_uid ?l = uid (handle s)" for w
    using inv j by (auto simp: data_inv_defs held [symmetric])
  from reclaim_ok [OF this] obtain w where w: "reclaim ?l (handle s) = Inr (aliased (leaked_value ?l), w)"
    "handle_ok H ?f (held (?s w)) w" "maps w = maps (handle s)" "operations w = operations (handle s)"
    "uid w = uid (handle s)" by (auto simp: held_def)
  have "tokens_ok H (?s w)"
    using inv set_remove_nth [of j "leaked s"] w
    by (auto simp: data_inv_def tokens_ok_def token_ok_def)
  moreover have "readers_ok H (?s w)"
    using handle_ok_alive(2) [OF w(2)] f en
    by (intro exclusive_readers_ok [OF p]) (simp_all add: content_at_def exclusive_def)
  ultimately have "data_inv H (?s w)" using w(2) en by (simp add: data_inv_def)
  then show ?thesis using w(1) j en by (auto simp: reclaim_step_def)
qed

lemma inv_drop_core_step:
  assumes inv: "data_inv H s" and en: "writer (proto s) = Closed" "refcounts (proto s) = []"
  shows "\<exists>s'. drop_core_step H s = Some (Inr s') \<and> core_dropped s' \<and> proto s' = proto s \<and> leaked s' = leaked s
     \<and> alive_set (kheap (handle s')) = {} \<and> mset_set (alive_set (vheap (handle s'))) = held s
     \<and> heap_ok (kheap (handle s')) \<and> heap_ok (vheap (handle s'))"
proof -
  have "handle_ok H (other (writer_map (proto s))) (held s) (handle s)" "operations (handle s) = []"
    using inv en by (simp_all add: data_inv_def fresh_index_def)
  from core_drop_ok [OF this] show ?thesis using en by (auto simp: drop_core_step_def)
qed

end

section \<open>The contract of the calls on a write guard\<close>

text \<open>
  \<open>insert\<close>, \<open>replace\<close> and \<open>remove\<close> share one contract: on the writer's map, under the ownership
  invariant, the call succeeds, keeps the invariant, changes the values as \<open>spec\<close> says and
  returns the old value of its key. What the system needs of them follows from it.
\<close>

locale guard_operation = hash_table H for H :: "('m, 'k, 'v, 's) hashbrown" +
  fixes call :: "'a \<Rightarrow> MapIndex \<Rightarrow> ('m, 'k, 'v) WriteHandle \<Rightarrow> ('m, 'k, 'v) guard_result"
    and key :: "'a \<Rightarrow> 'k"
    and spec :: "'a \<Rightarrow> ('k \<rightharpoonup> 'v) \<Rightarrow> ('k \<rightharpoonup> 'v)"
  assumes call_ok: "handle_ok H i lk w \<Longrightarrow> \<exists>r w'. call x i w = Inr (r, w') \<and> guard_post H i lk w r w'
     \<and> view_of H i w' = spec x (view_of H i w)
     \<and> map_option (\<lambda>e. aliased (evicted_value e)) r = view_of H i w (key x)"
begin

lemma call_writing:
  assumes "data_inv H s" "writer (proto s) = Writing"
  shows "\<exists>r w. call x (writer_map (proto s)) (handle s) = Inr (r, w)
     \<and> guard_post H (writer_map (proto s)) (held s) (handle s) r w
     \<and> view_of H (writer_map (proto s)) w = spec x (view_of H (writer_map (proto s)) (handle s))
     \<and> map_option (\<lambda>e. aliased (evicted_value e)) r = view_of H (writer_map (proto s)) (handle s) (key x)"
  using assms by (intro call_ok) (simp add: data_inv_def fresh_index_def)

lemma call_step:
  assumes "data_inv H s" "pinv (proto s)" "guard_call (call x (writer_map (proto s)) (handle s)) s = Some r"
  shows "\<exists>s'. r = Inr s' \<and> data_inv H s' \<and> proto s' = proto s \<and> core_dropped s' = core_dropped s
     \<and> uid (handle s') = uid (handle s)
     \<and> map_get (maps (handle s')) (other (writer_map (proto s))) = map_get (maps (handle s)) (other (writer_map (proto s)))
     \<and> view_of H (writer_map (proto s)) (handle s') = spec x (view_of H (writer_map (proto s)) (handle s))"
proof -
  have en: "writer (proto s) = Writing" using assms(3) by (simp add: guard_call_def split: if_splits)
  from call_writing [OF assms(1) en, of x] obtain e w where
    c: "call x (writer_map (proto s)) (handle s) = Inr (e, w)"
      "guard_post H (writer_map (proto s)) (held s) (handle s) e w"
      "view_of H (writer_map (proto s)) w = spec x (view_of H (writer_map (proto s)) (handle s))"
    by blast
  from inv_guard_call [OF assms(1,2) en c(2)] assms(3) c show ?thesis by (auto simp: guard_post_def)
qed

lemma call_step_ok:
  assumes "data_inv H s" "pinv (proto s)"
  shows "step_ok H (guard_call (call x (writer_map (proto s)) (handle s)) s)"
  using call_step [OF assms, of x] assms(2)
  by (cases "guard_call (call x (writer_map (proto s)) (handle s)) s") (auto simp: step_ok_def)

end

sublocale hash_table \<subseteq> insert_call: guard_operation H "\<lambda>x i. guard_insert H i (fst x) (snd x)" fst "\<lambda>x M. M(fst x \<mapsto> snd x)"
  by unfold_locales (rule guard_insert_ok)

sublocale hash_table \<subseteq> replace_call: guard_operation H "\<lambda>x i. guard_replace H i (fst x) (snd x)" fst
    "\<lambda>x M. case M (fst x) of None \<Rightarrow> M | Some v \<Rightarrow> M(fst x \<mapsto> snd x v)"
  by unfold_locales (rule guard_replace_ok)

sublocale hash_table \<subseteq> remove_call: guard_operation H "\<lambda>k i. guard_remove H i k" "\<lambda>k. k" "\<lambda>k M. M(k := None)"
  by unfold_locales (rule guard_remove_ok)

section \<open>All steps\<close>

context hash_table
begin

lemma step_ok_proto:
  assumes "data_inv H s" "pinv (proto s)"
  shows "step_ok H (proto_step a s)"
proof (cases "proto_step a s")
  case None
  then show ?thesis by (simp add: step_ok_def)
next
  case (Some r)
  then obtain x where x: "exec a (proto s) = Some x" and r: "r = bind_res x (\<lambda>p. Inr
      (s\<lparr>proto := p, evicted := (case a of WriterCall c \<Rightarrow> [] | _ \<Rightarrow> evicted s)\<rparr>))"
    by (auto simp: proto_step_def lift_step_def split: if_splits option.splits)
  from inv_exec [OF assms(2), of a] x have "x = Inl Abort \<or> (\<exists>p'. x = Inr p' \<and> pinv p')"
    by (cases x) (auto simp: safe_def)
  with Some r inv_proto_step [OF assms, of a] show ?thesis by (auto simp: step_ok_def)
qed

lemma sys_step_ok:
  assumes "data_inv H s" "pinv (proto s)"
  shows "step_ok H (sys_action_step H a s)"
proof (cases a)
  case (Proto b)
  with step_ok_proto [OF assms] show ?thesis by simp
next
  case FlushOne
  with inv_flush_step [OF assms] assms(2) show ?thesis
    by (cases "flushing (writer (proto s)) \<and> operations (handle s) \<noteq> []")
      (auto simp: step_ok_def flush_step_def bind_res_eq_Inr)
next
  case (Insert k v)
  with insert_call.call_step_ok [OF assms, of "(k, v)"] show ?thesis by simp
next
  case (ReplaceWith k f)
  with replace_call.call_step_ok [OF assms, of "(k, f)"] show ?thesis by simp
next
  case (RemoveKey k)
  with remove_call.call_step_ok [OF assms, of k] show ?thesis by simp
next
  case (Leak j)
  with inv_leak_step [OF assms, of j] assms(2) show ?thesis
    by (cases "leak_step j s") (auto simp: step_ok_def leak_step_def split: if_splits)
next
  case (DropLazily j)
  with inv_drop_lazily_step [OF assms, of j] assms(2) show ?thesis
    by (cases "drop_lazily_step j s") (auto simp: step_ok_def drop_lazily_step_def split: if_splits)
next
  case (Reclaim j)
  with inv_reclaim_step [OF assms, of j] assms(2) show ?thesis
    by (cases "reclaim_step j s") (auto simp: step_ok_def reclaim_step_def split: if_splits)
next
  case DropCore
  with inv_drop_core_step [OF assms(1)] assms(2) show ?thesis
    by (cases "drop_core_step H s") (auto simp: step_ok_def drop_core_step_def split: if_splits)
qed

lemma sys_step_core:
  assumes "sys_action_step H a s = Some (Inr s')" "\<not> core_dropped s"
  shows "core_dropped s' \<longrightarrow> refcounts (proto s') = [] \<and> writer (proto s') = Closed"
  using assms
  by (cases a) (auto simp: proto_step_def lift_step_def flush_step_def guard_call_def leak_step_def drop_lazily_step_def
      reclaim_step_def drop_core_step_def bind_res_eq_Inr split: if_splits option.splits prod.splits)

text \<open>A fresh map satisfies the invariant.\<close>

lemma build_handle_ok:
  assumes "fst (build_handle H b env) = Inr w"
  shows "handle_ok H i {#} w" "operations w = []" "view_of H i w = Map.empty"
  using assms
  by (cases i; auto simp: build_handle_def write_handle_new_def build_maps_def handle_ok_def log_ok_def owned_def
      empty_heap_def alive_set_def alive_def heap_ok_def view_of_def bind_res_eq_Inr split: prod.splits)+

lemma sys_build_ok:
  assumes "sys_build H b env t key = Some (Inr s)"
  shows "pinv (proto s)" "data_inv H s" "reachable (\<lambda>_. True) (proto s)" "\<not> core_dropped s"
proof -
  from assms obtain w p where w: "fst (build_handle H b env) = Inr w" and p: "build_map t key = Some (Inr p)"
    and s: "s = \<lparr>proto = p, handle = w, evicted = [], leaked = [], reclaimed = [], core_dropped = False\<rparr>"
    by (auto simp: sys_build_def lift_step_def bind_res_eq_Inr split: sum.splits option.splits)
  show "reachable (\<lambda>_. True) (proto s)" using p by (auto simp: s intro: reachable.init)
  then show "pinv (proto s)" by (rule reachable_inv)
  have "guards p = [] \<and> writer p = Idle" using p
    by (auto simp: build_map_def new_reader_def build_core_def split: if_splits)
  then show "data_inv H s" "\<not> core_dropped s"
    using build_handle_ok [OF w] by (simp_all add: s data_inv_defs held_def)
qed

lemma sys_reachable_inv:
  "sys_reachable H b env s \<Longrightarrow> pinv (proto s) \<and> (if core_dropped s then refcounts (proto s) = [] \<and> writer (proto s) = Closed else data_inv H s)"
proof (induction rule: sys_reachable.induct)
  case (init t key s)
  then show ?case using sys_build_ok [of b env t key s] by simp
next
  case (step s a s')
  from step.hyps(2) have "\<not> core_dropped s" "sys_action_step H a s = Some (Inr s')"
    by (auto simp: sys_exec_def split: if_splits)
  moreover have "core_dropped s' \<longrightarrow> refcounts (proto s') = [] \<and> writer (proto s') = Closed"
    using calculation step.IH sys_step_core [of a s s'] by simp
  ultimately show ?case using step.IH sys_step_ok [of s a] by (auto simp: step_ok_def)
qed

lemma sys_step_uid:
  assumes "data_inv H s" "pinv (proto s)" "sys_action_step H a s = Some (Inr s')"
  shows "uid (handle s') = uid (handle s)"
proof (cases a)
  case (Insert k v)
  with assms(3) insert_call.call_step [OF assms(1,2), of "(k, v)" "Inr s'"] show ?thesis by auto
next
  case (ReplaceWith k f)
  with assms(3) replace_call.call_step [OF assms(1,2), of "(k, f)" "Inr s'"] show ?thesis by auto
next
  case (RemoveKey k)
  with assms(3) remove_call.call_step [OF assms(1,2), of k "Inr s'"] show ?thesis by auto
qed (use assms(3) in \<open>auto simp: proto_step_def lift_step_def flush_step_def flush_op_def leak_step_def
       drop_lazily_step_def reclaim_step_def drop_core_step_def leak_def drop_lazily_def reclaim_def core_drop_def
       push_def Let_def bind_res_eq_Inr split: if_splits option.splits prod.splits list.splits\<close>)

lemma sys_reachable_uid: "sys_reachable H b env s \<Longrightarrow> uid (handle s) = snd env"
proof (induction rule: sys_reachable.induct)
  case (init t key s)
  then show ?case
    by (auto simp: sys_build_def lift_step_def build_handle_def write_handle_new_def writer_uid_next_def bind_res_eq_Inr
        split: sum.splits option.splits prod.splits if_splits)
next
  case (step s a s')
  then have "sys_action_step H a s = Some (Inr s')" "\<not> core_dropped s"
    by (auto simp: sys_exec_def split: if_splits)
  with sys_reachable_inv [OF step.hyps(1)] sys_step_uid [of s a s'] step.IH show ?case by simp
qed

end

end
