(* ===== verification/SystemRef.thy ===== *)
theory SystemRef
  imports SystemInv
begin

text \<open>
  The whole map refines a simple specification: a current map that the write guard changes and
  a published map that read guards see, replaced by the current one when a publication takes
  effect. A live read guard keeps reading the map it started with.
\<close>

section \<open>Specification\<close>

type_synonym ('k, 'v) spec_state = "('k \<rightharpoonup> 'v) \<times> ('k \<rightharpoonup> 'v)"

fun spec_step :: "('k, 'v) sys_action \<Rightarrow> ('k, 'v) spec_state \<Rightarrow> ('k, 'v) spec_state" where
  "spec_step (Insert k v) (current, published) = (current(k \<mapsto> v), published)"
| "spec_step (ReplaceWith k f) (current, published) =
     ((case current k of None \<Rightarrow> current | Some v \<Rightarrow> current(k \<mapsto> f v)), published)"
| "spec_step (RemoveKey k) (current, published) = (current(k := None), published)"
| "spec_step (Proto (WriterIter ks)) (current, published) = (current, current)"
| "spec_step _ (current, published) = (current, published)"

text \<open>The abstraction: the fresh map is current, the map new read guards get is published.\<close>

definition abs_state :: "('m, 'k, 'v, 's) hashbrown \<Rightarrow> ('m, 'k, 'v) system \<Rightarrow> ('k, 'v) spec_state" where
  "abs_state H s = (view_of H (fresh_index (proto s)) (handle s), view_of H (other (writer_map (proto s))) (handle s))"

lemma spec_step_data [simp]:
  "spec_step FlushOne x = x" "spec_step (Leak j) x = x" "spec_step (DropLazily j) x = x" "spec_step (Reclaim j) x = x"
  "spec_step DropCore x = x"
  by (cases x; simp)+

lemma spec_step_other:
  "\<not> (\<exists>ks. a = WriterIter ks) \<Longrightarrow> spec_step (Proto a) x = x"
  by (cases x; cases a) auto

section \<open>Refinement\<close>

text \<open>Only \<open>publish_set_map\<close> exchanges the maps, and only after the writer has locked the counts.\<close>

lemma writer_map_step:
  assumes "exec a p = Some (Inr p')"
  shows "(if \<exists>ks. a = WriterIter ks then writer p = PubSetMap \<and> writer_map p' = other (writer_map p)
           else writer_map p' = writer_map p)"
proof (cases "reader_action a")
  case True
  with reader_action_writer [OF True assms] show ?thesis by (auto simp: reader_action_def)
next
  case False
  with assms publish_swap_role(1) show ?thesis
    by (cases a; cases "writer p") (auto simp: reader_action_def writer_action_defs Let_def split: if_splits)
qed

lemma view_of_eq:
  "map_get (maps w') i = map_get (maps w) i \<Longrightarrow> view_of H i w' = view_of H i w"
  by (simp add: view_of_def)

context guard_operation
begin

lemma call_refines:
  assumes "data_inv H s" "pinv (proto s)" "guard_call (call x (writer_map (proto s)) (handle s)) s = Some (Inr s')"
  shows "abs_state H s' = (spec x (fst (abs_state H s)), snd (abs_state H s))"
proof -
  have "writer (proto s) = Writing" using assms(3) by (simp add: guard_call_def split: if_splits)
  moreover have p: "proto s' = proto s" and v: "view_of H (writer_map (proto s)) (handle s')
      = spec x (view_of H (writer_map (proto s)) (handle s))"
    and m: "map_get (maps (handle s')) (other (writer_map (proto s))) = map_get (maps (handle s)) (other (writer_map (proto s)))"
    using call_step [OF assms] by auto
  ultimately show ?thesis using view_of_eq [OF m] by (simp add: abs_state_def fresh_index_def)
qed

end

context hash_table
begin

lemma refine_proto:
  assumes inv: "data_inv H s" and st: "proto_step a s = Some (Inr s')"
  shows "abs_state H s' = spec_step (Proto a) (abs_state H s)"
proof -
  from st obtain p' where ex: "exec a (proto s) = Some (Inr p')" and s': "proto s' = p'" "handle s' = handle s"
    and enab: "\<not> (a = WriterStep \<and> flushing (writer (proto s)) \<and> operations (handle s) \<noteq> [])"
    by (auto simp: proto_step_def lift_step_def bind_res_eq_Inr split: if_splits option.splits)
  note role = exec_role [OF ex] and wm = writer_map_step [OF ex]
  consider (flush) "a = WriterStep" "writer (proto s) = Flushing" | (publish) ks where "a = WriterIter ks"
    | (other) "\<not> (a = WriterStep \<and> writer (proto s) = Flushing)" "\<not> (\<exists>ks. a = WriterIter ks)" by blast
  then show ?thesis
  proof cases
    case flush
    then have "operations (handle s) = []" using enab by (simp add: flushing_def)
    then have "view_of H (other (fresh_index (proto s))) (handle s) = view_of H (fresh_index (proto s)) (handle s)"
      using inv handle_ok_empty_log(1) [of "fresh_index (proto s)" "held s" "handle s"]
      by (simp add: data_inv_def view_of_def)
    with flush role wm show ?thesis by (simp add: abs_state_def s' role_step_def)
  next
    case publish
    with role wm show ?thesis by (auto simp: abs_state_def s' role_step_def fresh_index_def split: if_splits)
  next
    case other
    with role wm show ?thesis by (auto simp: abs_state_def s' role_step_def spec_step_other split: if_splits)
  qed
qed

text \<open>What one step does to the data: the map that is not the writer's is never touched.\<close>

lemma flush_step_frame:
  assumes "data_inv H s" "flush_step H s = Some (Inr s')"
  shows "flushing (writer (proto s))" "proto s' = proto s"
    "map_get (maps (handle s')) (other (writer_map (proto s))) = map_get (maps (handle s)) (other (writer_map (proto s)))"
proof -
  from assms(2) obtain w where fl: "flushing (writer (proto s))"
    and w: "flush_op H (writer_map (proto s)) (handle s) = Inr w" "s' = s\<lparr>handle := w\<rparr>"
    by (auto simp: flush_step_def bind_res_eq_Inr split: if_splits)
  then have f: "fresh_index (proto s) = other (writer_map (proto s))" by (auto simp: flushing_def fresh_index_def)
  with assms(1) have "handle_ok H (other (writer_map (proto s))) (held s) (handle s)" by (simp add: data_inv_def)
  from flush_op_ok [OF this] w fl show "flushing (writer (proto s))" "proto s' = proto s"
    "map_get (maps (handle s')) (other (writer_map (proto s))) = map_get (maps (handle s)) (other (writer_map (proto s)))"
    by simp_all
qed

lemma token_step_frame:
  assumes "(\<exists>j. a = Leak j \<or> a = DropLazily j \<or> a = Reclaim j) \<or> a = DropCore"
    and "sys_action_step H a s = Some (Inr s')"
  shows "proto s' = proto s" "maps (handle s') = maps (handle s)"
  using assms
  by (auto simp: leak_step_def drop_lazily_step_def reclaim_step_def drop_core_step_def leak_def drop_lazily_def
      reclaim_def core_drop_def push_def Let_def bind_res_eq_Inr split: if_splits prod.splits)

lemma refine_step:
  assumes inv: "data_inv H s" "pinv (proto s)" and st: "sys_action_step H a s = Some (Inr s')"
  shows "abs_state H s' = spec_step a (abs_state H s)"
proof (cases a)
  case (Proto b)
  with refine_proto [OF inv(1), of b s'] st show ?thesis by simp
next
  case FlushOne
  with st flush_step_frame [OF inv(1), of s'] show ?thesis
    by (auto simp: abs_state_def fresh_index_def flushing_def view_of_def)
next
  case (Insert k v)
  with st insert_call.call_refines [OF inv, of "(k, v)" s'] show ?thesis
    by (cases "abs_state H s") simp
next
  case (ReplaceWith k f)
  with st replace_call.call_refines [OF inv, of "(k, f)" s'] show ?thesis
    by (cases "abs_state H s") (simp cong: option.case_cong)
next
  case (RemoveKey k)
  with st remove_call.call_refines [OF inv, of k s'] show ?thesis
    by (cases "abs_state H s") simp
qed (use token_step_frame [OF _ st] in \<open>auto simp: abs_state_def view_of_def\<close>)

section \<open>Snapshots\<close>

lemma snapshot_step:
  assumes inv: "data_inv H s" "pinv (proto s)" and st: "sys_action_step H a s = Some (Inr s')"
    and g: "g \<in> set (guards (proto s))" "phase g = Live"
  shows "map_get (maps (handle s')) (map_index g) = map_get (maps (handle s)) (map_index g)"
proof -
  have idx: "map_index g = other (writer_map (proto s))" if "exclusive (writer (proto s))"
    using exclusive_index [OF inv(2) that g] .
  have wr: "exclusive (writer (proto s))" if "guard_call r s = Some (Inr s')" for r
    using that by (auto simp: guard_call_def exclusive_def split: if_splits)
  show ?thesis
  proof (cases a)
    case (Proto b)
    with st show ?thesis
      by (auto simp: proto_step_def lift_step_def bind_res_eq_Inr split: if_splits option.splits)
  next
    case FlushOne
    with st flush_step_frame [OF inv(1), of s'] idx show ?thesis by (auto simp: flushing_def exclusive_def)
  next
    case (Insert k v)
    with st insert_call.call_step [OF inv, of "(k, v)" "Inr s'"] idx wr show ?thesis by auto
  next
    case (ReplaceWith k f)
    with st replace_call.call_step [OF inv, of "(k, f)" "Inr s'"] idx wr show ?thesis by auto
  next
    case (RemoveKey k)
    with st remove_call.call_step [OF inv, of k "Inr s'"] idx wr show ?thesis by auto
  qed (use token_step_frame [OF _ st] in auto)
qed

end

end
