(* ===== verification/SystemLive.thy ===== *)
theory SystemLive
  imports SystemRef
begin

text \<open>
  Progress of the whole map: a call of \<open>guard\<close> can always be completed, by the writer's own steps, by
  re-applying the log and by the readers that still use the writer's map.
\<close>

section \<open>Waiting\<close>

lemma proto_step_syncing:
  assumes "syncing c (writer (proto s))" "exec a (proto s) = Some (Inr p')" "progress (proto s) a"
  shows "proto_step a s = Some (Inr (s\<lparr>proto := p'\<rparr>))"
  using assms by (cases a) (auto simp: proto_step_def lift_step_def syncing_def flushing_def progress_def)

text \<open>The steps that complete a call of \<open>guard\<close>.\<close>

definition helps :: "('k, 'v) sys_action \<Rightarrow> bool" where
  "helps a = (case a of FlushOne \<Rightarrow> True
     | Proto b \<Rightarrow> (case b of WriterCall c \<Rightarrow> c = ByGuard | WriterStep \<Rightarrow> True | DropGuard i \<Rightarrow> True | ReleaseResidual i \<Rightarrow> True
          | ReleaseStoreZero i \<Rightarrow> True | ReleaseUnpark i \<Rightarrow> True | _ \<Rightarrow> False)
     | _ \<Rightarrow> False)"

lemma helps_simps [simp]: "helps FlushOne" "helps (Proto WriterStep)" "helps (Proto (WriterCall ByGuard))"
  by (simp_all add: helps_def)

lemma progress_helps: "progress p b \<Longrightarrow> helps (Proto b)"
  by (auto simp: progress_def helps_def split: action.splits)

lemma helps_invisible: "helps a \<Longrightarrow> spec_step a x = x"
  by (cases a; cases x) (auto simp: helps_def spec_step_other split: action.splits)

context hash_table
begin

lemma sys_wait_completes:
  assumes "data_inv H s" "pinv (proto s)" "\<not> core_dropped s" "syncing c (writer (proto s))"
  shows "\<exists>as s'. sys_run H as s = Some (Inr s') \<and> list_all helps as \<and> writer (proto s') = after_sync c
     \<and> data_inv H s' \<and> pinv (proto s') \<and> \<not> core_dropped s'"
  using assms
proof (induction "wait_measure (proto s)" arbitrary: s rule: less_induct)
  case less
  then obtain a p' where a: "progress (proto s) a" "exec a (proto s) = Some (Inr p')"
    using wait_enabled by blast
  let ?s = "s\<lparr>proto := p'\<rparr>"
  have st: "proto_step a s = Some (Inr ?s)" using less.prems(4) a by (intro proto_step_syncing)
  then have ex: "sys_exec H (Proto a) s = Some (Inr ?s)" using less.prems(3) by (simp add: sys_exec_def)
  have inv: "data_inv H ?s" using less.prems(1,2) st by (rule inv_proto_step)
  have p: "pinv p'" using inv_exec [OF less.prems(2), of a] a(2) by simp
  have "a \<noteq> ParkSpuriously" using a(1) by (auto simp: progress_def)
  with less.prems a consider "writer p' = after_sync c"
    | "syncing c (writer p')" "wait_measure p' < wait_measure (proto s)"
    using wait_step [of "proto s" c a p'] by blast
  then show ?case
  proof cases
    case 1
    with ex a(1) inv p less.prems(3) show ?thesis
      by (intro exI [of _ "[Proto a]"] exI [of _ ?s]) (simp add: progress_helps)
  next
    case 2
    then obtain as s' where "sys_run H as ?s = Some (Inr s')" "list_all helps as" "writer (proto s') = after_sync c"
      "data_inv H s'" "pinv (proto s')" "\<not> core_dropped s'"
      using less.hyps [of ?s] inv p less.prems(3) by auto
    with ex a(1) show ?thesis
      by (intro exI [of _ "Proto a # as"] exI [of _ s']) (simp add: progress_helps)
  qed
qed

lemma sys_flush_completes:
  assumes "data_inv H s" "pinv (proto s)" "\<not> core_dropped s" "flushing (writer (proto s))"
  shows "\<exists>s'. sys_run H (replicate (length (operations (handle s))) FlushOne) s = Some (Inr s')
     \<and> operations (handle s') = [] \<and> proto s' = proto s \<and> data_inv H s' \<and> \<not> core_dropped s'"
  using assms
proof (induction "length (operations (handle s))" arbitrary: s)
  case 0
  then show ?case by simp
next
  case (Suc n)
  then have ne: "operations (handle s) \<noteq> []" by auto
  from inv_flush_step [OF Suc.prems(1,2,4) ne] obtain s1 where s1: "flush_step H s = Some (Inr s1)" "data_inv H s1"
    by blast
  have frame: "proto s1 = proto s" "\<not> core_dropped s1" "operations (handle s1) = tl (operations (handle s))"
    using s1(1) Suc.prems(3) ne
    by (auto simp: flush_step_def flush_op_def bind_res_eq_Inr split: if_splits list.splits)
  moreover from this Suc.hyps(2) have "n = length (operations (handle s1))" by simp
  ultimately obtain s' where "sys_run H (replicate n FlushOne) s1 = Some (Inr s')" "operations (handle s') = []"
    "proto s' = proto s" "data_inv H s'" "\<not> core_dropped s'"
    using Suc.hyps(1) [of s1] Suc.prems s1(2) by auto
  moreover have "sys_exec H FlushOne s = Some (Inr s1)" using s1(1) Suc.prems(3) by (simp add: sys_exec_def)
  ultimately show ?case by (simp flip: Suc.hyps(2))
qed

lemma spec_run:
  assumes "sys_reachable H b env s" "sys_run H as s = Some (Inr s')" "list_all helps as"
  shows "abs_state H s' = abs_state H s"
  using assms
proof (induction as arbitrary: s)
  case Nil
  then show ?case by simp
next
  case (Cons a as)
  then obtain s1 where s1: "sys_exec H a s = Some (Inr s1)" "sys_run H as s1 = Some (Inr s')"
    by (auto split: option.splits sum.splits)
  then have "sys_action_step H a s = Some (Inr s1)" "\<not> core_dropped s"
    by (auto simp: sys_exec_def split: if_splits)
  with sys_reachable_inv [OF Cons.prems(1)] refine_step [of s a s1] Cons.prems(3)
  have "abs_state H s1 = abs_state H s" by (simp add: helps_invisible)
  with Cons.IH [OF sys_reachable.step [OF Cons.prems(1) s1(1)] s1(2)] Cons.prems(3) show ?case by simp
qed

lemma guard_completes:
  assumes "data_inv H s" "pinv (proto s)" "\<not> core_dropped s" "writer (proto s) = Idle"
  shows "\<exists>as s'. sys_run H as s = Some (Inr s') \<and> list_all helps as \<and> writer (proto s') = Writing"
proof -
  let ?s1 = "s\<lparr>proto := (proto s)\<lparr>writer := SyncLoad ByGuard\<rparr>, evicted := []\<rparr>"
  have ex1: "sys_exec H (Proto (WriterCall ByGuard)) s = Some (Inr ?s1)"
    using assms(3,4) by (simp add: sys_exec_def proto_step_def lift_step_def)
  then have st1: "sys_action_step H (Proto (WriterCall ByGuard)) s = Some (Inr ?s1)" using assms(3) by (simp add: sys_exec_def)
  then have "data_inv H ?s1" "pinv (proto ?s1)"
    using sys_step_ok [OF assms(1,2), of "Proto (WriterCall ByGuard)"] assms(3) by (auto simp: step_ok_def)
  from sys_wait_completes [OF this, of ByGuard] assms(3) obtain as2 s2 where
    r2: "sys_run H as2 ?s1 = Some (Inr s2)" "list_all helps as2" "writer (proto s2) = Flushing" "data_inv H s2"
      "pinv (proto s2)" "\<not> core_dropped s2"
    by (auto simp: syncing_def)
  let ?as3 = "replicate (length (operations (handle s2))) FlushOne"
  from sys_flush_completes [OF r2(4-6)] r2(3) obtain s3 where
    r3: "sys_run H ?as3 s2 = Some (Inr s3)" "operations (handle s3) = []" "proto s3 = proto s2" "\<not> core_dropped s3"
    by (auto simp: flushing_def)
  let ?s4 = "s3\<lparr>proto := (proto s3)\<lparr>writer := Writing\<rparr>\<rparr>"
  have "sys_exec H (Proto WriterStep) s3 = Some (Inr ?s4)"
    using r2(3) r3 by (simp add: sys_exec_def proto_step_def lift_step_def)
  with ex1 r2(1) r3(1) have "sys_run H (Proto (WriterCall ByGuard) # as2 @ ?as3 @ [Proto WriterStep]) s = Some (Inr ?s4)"
    by (simp add: sys_machine.run_append)
  moreover have "list_all helps (Proto (WriterCall ByGuard) # as2 @ ?as3 @ [Proto WriterStep])"
    using r2(2) helps_simps by (auto simp: list_all_iff set_replicate_conv_if)
  moreover have "writer (proto ?s4) = Writing" by simp
  ultimately show ?thesis by blast
qed

end

end
