(* ===== verification/SystemProps.thy ===== *)
theory SystemProps
  imports SystemLive
begin

text \<open>
  The properties of the whole map: memory safety in every interleaving, snapshots, publication,
  the fate of every value, and what goes wrong when a write guard is forgotten.
\<close>

section \<open>An example\<close>

text \<open>The runs the witnesses use: tables are lists, the hasher is trivial, one read handle.\<close>

definition example_builder :: "(unit, unit) Builder" where
  "example_builder = builder_new (\<lambda>g. ((), g))"

type_synonym example_system = "((nat, nat) entry list, nat, nat) system"

abbreviation example_table :: "((nat, nat) entry list, nat, nat, unit) hashbrown" where
  "example_table \<equiv> list_map"

definition example_env :: "unit \<times> usize" where
  "example_env = ((), 1)"

definition example_init :: example_system where
  "example_init = (case sys_build example_table example_builder example_env 7 0 of Some (Inr s) \<Rightarrow> s)"

definition sys_example :: "(nat, nat) sys_action list \<Rightarrow> example_system" where
  "sys_example as = (case sys_run example_table as example_init of Some (Inr t) \<Rightarrow> t | _ \<Rightarrow> example_init)"

definition sys_succeeds :: "'a step \<Rightarrow> bool" where
  "sys_succeeds r = (case r of Some (Inr s) \<Rightarrow> True | _ \<Rightarrow> False)"

definition begin_write :: "nat \<Rightarrow> (nat, nat) sys_action list" where
  "begin_write n = [Proto (WriterCall ByGuard), Proto WriterStep] @ replicate n FlushOne @ [Proto WriterStep]"

definition end_write :: "(nat, nat) sys_action list" where
  "end_write = [Proto DropWriteGuard, Proto WriterStep, Proto (WriterIter [0])] @ replicate 4 (Proto WriterStep)"

text \<open>Insert, read, overwrite and leak the old value while the reader still reads it.\<close>

definition first_write :: "(nat, nat) sys_action list" where
  "first_write = begin_write 0 @ [Insert 1 10, Insert 2 20] @ end_write @ [Proto (NewGuard 0)]"

definition second_write :: "(nat, nat) sys_action list" where
  "second_write = begin_write 2 @ [Insert 1 11, Leak 0] @ end_write"

lemma example_build:
  "sys_build example_table example_builder example_env 7 0 = Some (Inr example_init)"
  by (simp add: example_init_def sys_build_def build_handle_def into_args_def example_builder_def builder_new_def
      example_env_def write_handle_new_def writer_uid_next_def build_map_def new_reader_def build_core_def lift_step_def)

lemma sys_example_reachable:
  assumes "sys_succeeds (sys_run example_table as example_init)"
  shows "sys_reachable example_table example_builder example_env (sys_example as)"
    and "sys_run example_table as example_init = Some (Inr (sys_example as))"
proof -
  have "sys_reachable example_table example_builder example_env example_init"
    using example_build by (rule sys_reachable.init)
  with assms show "sys_reachable example_table example_builder example_env (sys_example as)"
    and "sys_run example_table as example_init = Some (Inr (sys_example as))"
    by (auto simp: sys_example_def sys_succeeds_def intro: sys_reachable_run split: option.splits sum.splits)
qed

lemma example_hash_table: "hash_table example_table"
  by (rule list_map.hash_table_axioms)

lemma example_runs:
  "sys_succeeds (sys_run example_table first_write example_init)"
  "sys_succeeds (sys_run example_table (first_write @ second_write) example_init)"
  by code_simp+

lemmas example_reachable_states =
  sys_example_reachable(1) [OF example_runs(1)] sys_example_reachable(1) [OF example_runs(2)]

section \<open>Memory safety\<close>

text \<open>
  C1: no step of the whole map is undefined or panics, in any interleaving of the writer, of any
  number of readers and of the user's handling of evicted and leaked values: re-applying the
  log with unchecked operations never inserts a duplicate key, never unwraps a missing entry, never
  drops a key or a value twice, and no lookup compares with a freed key; leaked values are dropped
  or taken only while they are alive.
\<close>

theorem map_never_faults:
  assumes "hash_table H" "sys_reachable H b env s"
  shows "sys_exec H a s \<noteq> Some (Inl (UB u)) \<and> sys_exec H a s \<noteq> Some (Inl (Panic msg))"
  using hash_table.sys_reachable_inv [OF assms] hash_table.sys_step_ok [OF assms(1), of s a]
  by (auto simp: sys_exec_def step_ok_def)

theorem map_never_faults_witness:
  "sys_exec example_table FlushOne (sys_example (first_write @ second_write)) \<noteq> Some (Inl (UB DuplicateKey))
   \<and> sys_exec example_table FlushOne (sys_example (first_write @ second_write)) \<noteq> Some (Inl (Panic []))"
  using map_never_faults [OF example_hash_table example_reachable_states(2)] .

lemma live_not_dropped:
  assumes "hash_table H" "sys_reachable H b env s" "in_phase i Live (proto s)"
  shows "data_inv H s" "pinv (proto s)"
proof -
  have inv: "pinv (proto s) \<and> (if core_dropped s then refcounts (proto s) = [] \<and> writer (proto s) = Closed else data_inv H s)"
    using hash_table.sys_reachable_inv [OF assms(1,2)] .
  then show "pinv (proto s)" by simp
  from inv assms(3) have "refcounts (proto s) \<noteq> []"
    by (auto simp: pinv_def handles_ok_def in_phase_def all_set_conv_all_nth)
  with inv show "data_inv H s" by (auto split: if_splits)
qed

lemma guard_map_readable:
  assumes "hash_table H" "data_inv H s" "in_phase i Live (proto s)"
  shows "readable H (kheap (handle s)) (vheap (handle s)) (map_get (maps (handle s)) (map_index (guards (proto s) ! i)))"
proof -
  let ?g = "guards (proto s) ! i"
  have ok: "handle_ok H (fresh_index (proto s)) (held s) (handle s)" using assms(2) by (simp add: data_inv_def)
  have "values_alive (vheap (handle s)) (content_at H s (map_index ?g))"
    using assms(2,3) by (auto simp: data_inv_def readers_ok_def in_phase_def)
  moreover have "map_index ?g = fresh_index (proto s) \<or> map_index ?g = other (fresh_index (proto s))"
    using neq_iff_other by metis
  ultimately show ?thesis
    using ok handle_ok_alive(1,3) [OF ok] by (auto simp: readable_def content_at_def handle_ok_def)
qed

text \<open>
  C3: every read through a live read guard is safe and consistent: on each of the seven read
  operations of a view no freed key or value is touched, and together they present one map
  (\<open>len\<close> is the number of keys, \<open>get\<close> and \<open>contains_key\<close> agree with what the iterators list).
\<close>

theorem read_guard_reads_safely:
  assumes "hash_table H" "sys_reachable H b env s" "in_phase i Live (proto s)"
  shows "reads_as H (kheap (handle s)) (vheap (handle s))
     (map_get (maps (handle s)) (map_index (guards (proto s) ! i)))
     (view_of H (map_index (guards (proto s) ! i)) (handle s))"
  unfolding view_of_def
  using hash_table.readable_reads_as [OF assms(1)] guard_map_readable [OF assms(1) live_not_dropped(1) [OF assms] assms(3)]
  by blast

theorem read_guard_reads_safely_witness:
  "reads_as example_table (kheap (handle (sys_example first_write))) (vheap (handle (sys_example first_write)))
     (map_get (maps (handle (sys_example first_write))) (map_index (guards (proto (sys_example first_write)) ! 0)))
     (view_of example_table (map_index (guards (proto (sys_example first_write)) ! 0)) (handle (sys_example first_write)))"
proof -
  have "in_phase 0 Live (proto (sys_example first_write))" by code_simp
  then show ?thesis using read_guard_reads_safely [OF example_hash_table example_reachable_states(1)] by blast
qed

section \<open>Snapshots and publication\<close>

lemma live_position:
  assumes "pinv p" "exec a p = Some (Inr p')" "i < length (guards p)"
  shows "i < length (guards p') \<and> (phase (guards p' ! i) = Live \<longrightarrow> guards p' ! i = guards p ! i)"
proof (cases "reader_action a")
  case False
  with assms writer_action_guards show ?thesis by auto
next
  case True
  then show ?thesis
  proof (cases a)
    case (NewGuard k)
    with assms read_guard_result [OF assms(1), of k p'] show ?thesis by (auto simp: nth_append)
  next
    case (DropGuard j)
    with assms(2,3) show ?thesis
      by (cases "i = j")
        (auto simp: drop_guard_def Let_def bind_res_eq_Inr split: if_splits option.splits prod.splits)
  next
    case (ReleaseResidual j)
    with assms(2,3) show ?thesis by (cases "i = j") (auto simp: release_residual_def Let_def split: if_splits)
  next
    case (ReleaseStoreZero j)
    with assms(2,3) show ?thesis by (cases "i = j") (auto simp: release_store_zero_def split: if_splits)
  next
    case (ReleaseUnpark j)
    with assms(2,3) show ?thesis
      by (cases "i = j") (auto simp: release_unpark_def split: if_splits option.splits)
  qed (use assms in \<open>auto simp: reader_action_def clone_reader_def new_reader_def release_refcount_def
         split: if_splits\<close>)
qed

lemma sys_live_position:
  assumes H: "hash_table H" and inv: "data_inv H s" "pinv (proto s)"
    and st: "sys_action_step H a s = Some (Inr s')" and i: "i < length (guards (proto s))"
  shows "i < length (guards (proto s'))
     \<and> (phase (guards (proto s') ! i) = Live \<longrightarrow> guards (proto s') ! i = guards (proto s) ! i)"
proof (cases "\<exists>b. a = Proto b")
  case True
  with st live_position [OF inv(2) _ i] show ?thesis
    by (auto simp: proto_step_def lift_step_def bind_res_eq_Inr split: if_splits option.splits)
next
  case False
  then have "proto s' = proto s"
    using st by (cases a) (auto simp: flush_step_def guard_call_def leak_step_def drop_lazily_step_def
      reclaim_step_def drop_core_step_def bind_res_eq_Inr split: if_splits prod.splits)
  with i show ?thesis by simp
qed

lemma snapshot_run:
  assumes H: "hash_table H" and r: "sys_reachable H b env s" and run: "sys_run H as s = Some (Inr s')"
    and i: "i < length (guards (proto s))" and live: "phase (guards (proto s') ! i) = Live"
  shows "guards (proto s') ! i = guards (proto s) ! i
     \<and> map_get (maps (handle s')) (map_index (guards (proto s) ! i)) = map_get (maps (handle s)) (map_index (guards (proto s) ! i))"
  using r run i
proof (induction as arbitrary: s)
  case Nil
  then show ?case by simp
next
  case (Cons a as)
  then obtain s1 where ex: "sys_exec H a s = Some (Inr s1)" and run1: "sys_run H as s1 = Some (Inr s')"
    by (auto split: option.splits sum.splits)
  then have st: "sys_action_step H a s = Some (Inr s1)" and nd: "\<not> core_dropped s"
    by (auto simp: sys_exec_def split: if_splits)
  have inv: "data_inv H s" "pinv (proto s)"
    using hash_table.sys_reachable_inv [OF H Cons.prems(1)] nd by simp_all
  note pos = sys_live_position [OF H inv st Cons.prems(3)]
  have ih: "guards (proto s') ! i = guards (proto s1) ! i
     \<and> map_get (maps (handle s')) (map_index (guards (proto s1) ! i)) = map_get (maps (handle s1)) (map_index (guards (proto s1) ! i))"
    using Cons.IH [OF sys_reachable.step [OF Cons.prems(1) ex] run1] pos by simp
  with live pos have eq: "guards (proto s1) ! i = guards (proto s) ! i" "phase (guards (proto s) ! i) = Live" by simp_all
  with hash_table.snapshot_step [OF H inv st _ eq(2)] Cons.prems(3) ih show ?case by simp
qed

text \<open>
  C4: a read guard is a snapshot. However the rest of the program runs (writes, publications,
  re-application of the log, drops of values, other readers), as long as the guard is live all
  its read operations answer from the content the guard's map had before that run.
\<close>

theorem read_guard_is_a_snapshot:
  assumes "hash_table H" "sys_reachable H b env s" "in_phase i Live (proto s)"
    and "sys_run H as s = Some (Inr s')" "in_phase i Live (proto s')"
  shows "reads_as H (kheap (handle s')) (vheap (handle s'))
     (map_get (maps (handle s')) (map_index (guards (proto s') ! i)))
     (view_of H (map_index (guards (proto s) ! i)) (handle s))"
proof -
  have r': "sys_reachable H b env s'" using assms(2,4) by (rule sys_reachable_run)
  have "guards (proto s') ! i = guards (proto s) ! i
     \<and> map_get (maps (handle s')) (map_index (guards (proto s) ! i)) = map_get (maps (handle s)) (map_index (guards (proto s) ! i))"
    using assms(3,5) by (intro snapshot_run [OF assms(1,2,4)]) (simp_all add: in_phase_def)
  with hash_table.readable_reads_as [OF assms(1) guard_map_readable [OF assms(1) live_not_dropped(1) [OF assms(1) r' assms(5)] assms(5)]]
  show ?thesis by (simp add: view_of_def)
qed

theorem read_guard_is_a_snapshot_witness:
  "reads_as example_table (kheap (handle (sys_example (first_write @ second_write))))
     (vheap (handle (sys_example (first_write @ second_write))))
     (map_get (maps (handle (sys_example (first_write @ second_write))))
        (map_index (guards (proto (sys_example (first_write @ second_write))) ! 0)))
     (view_of example_table (map_index (guards (proto (sys_example first_write)) ! 0)) (handle (sys_example first_write)))"
proof -
  have "sys_run example_table (first_write @ second_write) example_init
      = Some (Inr (sys_example (first_write @ second_write)))"
    using example_runs(2) by (rule sys_example_reachable(2))
  moreover have "sys_run example_table first_write example_init = Some (Inr (sys_example first_write))"
    using example_runs(1) by (rule sys_example_reachable(2))
  ultimately have "sys_run example_table second_write (sys_example first_write)
      = Some (Inr (sys_example (first_write @ second_write)))"
    by (simp add: sys_machine.run_append)
  moreover have "in_phase 0 Live (proto (sys_example first_write))"
    "in_phase 0 Live (proto (sys_example (first_write @ second_write)))" by code_simp+
  ultimately show ?thesis
    using read_guard_is_a_snapshot [OF example_hash_table example_reachable_states(1)] by blast
qed

text \<open>
  C5: the whole map refines its specification. Seen through the abstraction every step is the
  step of a map pair: the calls on the write guard change the current map as a plain map, the
  step of \<open>publish\<close> that exchanges the maps makes the current map the published one, and nothing
  else (re-application of the log, waiting, leaking, reclaiming, reading) has a visible effect.
\<close>

theorem map_refines_spec:
  assumes "hash_table H" "sys_reachable H b env s" "sys_exec H a s = Some (Inr s')"
  shows "abs_state H s' = spec_step a (abs_state H s)"
proof -
  have st: "sys_action_step H a s = Some (Inr s')" "\<not> core_dropped s"
    using assms(3) by (auto simp: sys_exec_def split: if_splits)
  with hash_table.sys_reachable_inv [OF assms(1,2)] have "data_inv H s" "pinv (proto s)" by simp_all
  from hash_table.refine_step [OF assms(1) this st(1)] show ?thesis .
qed

theorem map_refines_spec_witness:
  "abs_state example_table (sys_example (begin_write 0 @ [Insert 1 10]))
   = spec_step (Insert 1 10) (abs_state example_table (sys_example (begin_write 0)))"
proof -
  have ok: "sys_succeeds (sys_run example_table (begin_write 0) example_init)"
    "sys_succeeds (sys_run example_table (begin_write 0 @ [Insert 1 10]) example_init)" by code_simp+
  have "sys_exec example_table (Insert 1 10) (sys_example (begin_write 0))
      = Some (Inr (sys_example (begin_write 0 @ [Insert 1 10])))"
    using sys_example_reachable(2) [OF ok(1)] sys_example_reachable(2) [OF ok(2)]
    by (simp add: sys_machine.run_append split: option.splits sum.splits)
  then show ?thesis
    by (rule map_refines_spec [OF example_hash_table sys_example_reachable(1) [OF ok(1)]])
qed

text \<open>
  C7: a new read guard sees the published map. While \<open>publish\<close> is exchanging the maps of the
  handles, a handle it has not reached yet still gives the previously published one.
\<close>

theorem new_guard_sees_published:
  assumes "hash_table H" "sys_reachable H b env s" "sys_exec H (Proto (NewGuard k)) s = Some (Inr s')"
  shows "view_of H (map_index (last (guards (proto s')))) (handle s') =
     (if k \<in> set (todo (writer (proto s))) then view_of H (writer_map (proto s)) (handle s)
      else snd (abs_state H s))
     \<and> (\<not> refcounts_locked (proto s) \<longrightarrow> k \<notin> set (todo (writer (proto s))))"
proof -
  have p: "pinv (proto s)" using hash_table.sys_reachable_inv [OF assms(1,2)] by simp
  from assms(3) obtain p' where "read_guard k (proto s) = Some (Inr p')" "proto s' = p'" "handle s' = handle s"
    by (auto simp: sys_exec_def proto_step_def lift_step_def bind_res_eq_Inr split: if_splits option.splits)
  with read_guard_result [OF p] have "view_of H (map_index (last (guards (proto s')))) (handle s')
      = view_of H (expected (proto s) k) (handle s)" by simp
  moreover have "\<not> refcounts_locked (proto s) \<longrightarrow> todo (writer (proto s)) = []"
    using p by (cases "writer (proto s)") (auto simp: pinv_def publish_ok_def holds_lock_def todo_def)
  ultimately show ?thesis by (simp add: expected_def abs_state_def)
qed

theorem new_guard_sees_published_witness:
  "view_of example_table (map_index (last (guards (proto (sys_example (first_write @ [Proto (NewGuard 0)]))))))
     (handle (sys_example (first_write @ [Proto (NewGuard 0)])))
   = snd (abs_state example_table (sys_example first_write))"
proof -
  have ok: "sys_succeeds (sys_run example_table (first_write @ [Proto (NewGuard 0)]) example_init)" by code_simp
  have "sys_exec example_table (Proto (NewGuard 0)) (sys_example first_write)
      = Some (Inr (sys_example (first_write @ [Proto (NewGuard 0)])))"
    using sys_example_reachable(2) [OF example_runs(1)] sys_example_reachable(2) [OF ok]
    by (simp add: sys_machine.run_append split: option.splits sum.splits)
  moreover have "\<not> refcounts_locked (proto (sys_example first_write))" by code_simp
  ultimately show ?thesis
    using new_guard_sees_published [OF example_hash_table example_reachable_states(1)] by simp
qed

section \<open>The calls of the writer\<close>

lemma reachable_data_inv:
  assumes "hash_table H" "sys_reachable H b env s" "\<not> core_dropped s"
  shows "data_inv H s" "pinv (proto s)"
  using hash_table.sys_reachable_inv [OF assms(1,2)] assms(3) by simp_all

text \<open>
  C22: under a write guard \<open>insert\<close>, \<open>replace\<close> and \<open>remove\<close> always succeed and act as on a plain map:
  the change is visible to the writer at once, and the evicted value is the one the key had.
\<close>

theorem write_guard_calls:
  assumes "hash_table H" "sys_reachable H b env s" "writer (proto s) = Writing"
  defines "i \<equiv> writer_map (proto s)"
  shows "(\<exists>e w. guard_insert H i k v (handle s) = Inr (e, w) \<and> view_of H i w = (view_of H i (handle s))(k \<mapsto> v)
        \<and> map_option (\<lambda>e. aliased (evicted_value e)) e = view_of H i (handle s) k)
     \<and> (\<exists>e w. guard_replace H i k f (handle s) = Inr (e, w)
        \<and> view_of H i w = (case view_of H i (handle s) k of None \<Rightarrow> view_of H i (handle s)
             | Some x \<Rightarrow> (view_of H i (handle s))(k \<mapsto> f x))
        \<and> map_option (\<lambda>e. aliased (evicted_value e)) e = view_of H i (handle s) k)
     \<and> (\<exists>e w. guard_remove H i k (handle s) = Inr (e, w) \<and> view_of H i w = (view_of H i (handle s))(k := None)
        \<and> map_option (\<lambda>e. aliased (evicted_value e)) e = view_of H i (handle s) k)"
proof -
  have "\<not> core_dropped s" using hash_table.sys_reachable_inv [OF assms(1,2)] assms(3) by (auto split: if_splits)
  then have ok: "handle_ok H i (held s) (handle s)"
    using reachable_data_inv [OF assms(1,2)] assms(3) by (simp add: data_inv_def fresh_index_def i_def)
  show ?thesis
    using hash_table.guard_insert_ok [OF assms(1) ok, of k v] hash_table.guard_replace_ok [OF assms(1) ok, of k f]
      hash_table.guard_remove_ok [OF assms(1) ok, of k] by blast
qed

theorem write_guard_calls_witness:
  "\<exists>e w. guard_remove example_table Second (1 :: nat) (handle (sys_example (begin_write 0 @ [Insert 1 10]))) = Inr (e, w)
     \<and> map_option (\<lambda>e. aliased (evicted_value e)) e = Some 10"
proof -
  let ?s = "sys_example (begin_write 0 @ [Insert 1 10])"
  have ok: "sys_succeeds (sys_run example_table (begin_write 0 @ [Insert 1 10]) example_init)" by code_simp
  have "writer (proto ?s) = Writing" "writer_map (proto ?s) = Second" by code_simp+
  moreover have "view_of example_table Second (handle ?s) 1 = Some 10" by code_simp
  ultimately show ?thesis
    using write_guard_calls [OF example_hash_table sys_example_reachable(1) [OF ok], of 1 0 id] by auto
qed

text \<open>
  C21: when \<open>guard\<close> has waited, re-applying the whole log succeeds, empties it, leaves the readers'
  map alone and makes the writer's map equal to it.
\<close>

theorem flush_equalises_maps:
  assumes "hash_table H" "sys_reachable H b env s" "writer (proto s) = Flushing"
  shows "\<exists>w. flush_operations H (writer_map (proto s)) (handle s) = Inr w \<and> operations w = []
     \<and> map_get (maps w) (other (writer_map (proto s))) = map_get (maps (handle s)) (other (writer_map (proto s)))
     \<and> view_of H (writer_map (proto s)) w = view_of H (other (writer_map (proto s))) w"
proof -
  have nd: "\<not> core_dropped s" using hash_table.sys_reachable_inv [OF assms(1,2)] assms(3) by (auto split: if_splits)
  have "handle_ok H (other (writer_map (proto s))) (held s) (handle s)"
    using reachable_data_inv [OF assms(1,2) nd] assms(3) by (simp add: data_inv_def fresh_index_def)
  from hash_table.flush_operations_ok [OF assms(1) this] obtain w where
    w: "flush_operations H (writer_map (proto s)) (handle s) = Inr w"
      "handle_ok H (other (writer_map (proto s))) (held s) w" "operations w = []"
      "map_get (maps w) (other (writer_map (proto s))) = map_get (maps (handle s)) (other (writer_map (proto s)))"
    by auto
  moreover from hash_table.handle_ok_empty_log(1) [OF assms(1) w(2,3)]
  have "view_of H (writer_map (proto s)) w = view_of H (other (writer_map (proto s))) w" by (simp add: view_of_def)
  ultimately show ?thesis by blast
qed

theorem flush_equalises_maps_witness:
  "\<exists>w. flush_operations example_table Second (handle (sys_example
       (first_write @ [Proto (DropGuard 0)] @ second_write @ [Proto (WriterCall ByGuard), Proto WriterStep]))) = Inr w
     \<and> operations w = []"
proof -
  let ?as = "first_write @ [Proto (DropGuard 0)] @ second_write @ [Proto (WriterCall ByGuard), Proto WriterStep]"
  have ok: "sys_succeeds (sys_run example_table ?as example_init)" by code_simp
  have "writer (proto (sys_example ?as)) = Flushing" "writer_map (proto (sys_example ?as)) = Second" by code_simp+
  then show ?thesis using flush_equalises_maps [OF example_hash_table sys_example_reachable(1) [OF ok]] by auto
qed

text \<open>
  C11: a write guard can always be obtained. From every reachable state with an idle write handle there is
  a run of \<open>guard\<close> to its end that consists of the writer's own steps, the re-application of the log and
  the release of read guards only, and that leaves the current and the published map as they were.
\<close>

theorem write_guard_obtainable:
  assumes "hash_table H" "sys_reachable H b env s" "writer (proto s) = Idle"
  shows "\<exists>as s'. sys_run H as s = Some (Inr s') \<and> list_all helps as \<and> writer (proto s') = Writing
     \<and> abs_state H s' = abs_state H s"
proof -
  have nd: "\<not> core_dropped s" using hash_table.sys_reachable_inv [OF assms(1,2)] assms(3) by (auto split: if_splits)
  from hash_table.guard_completes [OF assms(1) reachable_data_inv [OF assms(1,2) nd] nd assms(3)]
  show ?thesis using hash_table.spec_run [OF assms(1,2)] by blast
qed

theorem write_guard_obtainable_witness:
  "\<exists>as s'. sys_run example_table as (sys_example (first_write @ second_write)) = Some (Inr s')
     \<and> list_all helps as \<and> writer (proto s') = Writing"
proof -
  have "writer (proto (sys_example (first_write @ second_write))) = Idle" by code_simp
  then show ?thesis using write_guard_obtainable [OF example_hash_table example_reachable_states(2)] by blast
qed

section \<open>Evicted and leaked values\<close>

lemma token_alive:
  assumes "handle_ok H i lk w" "token_ok H i w e"
  shows "alive (vheap w) (family (evicted_value e))"
proof -
  from handle_ok_log [OF assms(1)] obtain kd vd where
    r: "replay (operations w) (content_of H (map_get (maps w) (other i))) = Some (content_of H (map_get (maps w) i), kd, vd)"
    and o: "owned (content_of H (map_get (maps w) i)) kd vd lk (kheap w) (vheap w)"
    by (auto simp: log_ok_def)
  from replay_leak [OF r] assms(2) obtain vd' where "mset vd = add_mset (family (evicted_value e)) (mset vd')"
    by (auto simp: token_ok_def)
  then have "family (evicted_value e) \<in> set vd" by (metis set_mset_mset union_single_eq_member)
  with owned_alive(4) [OF o] show ?thesis by (auto simp: alive_iff)
qed

text \<open>
  When the core has been dropped, no evicted value is left, and the leaked values are exactly the values alive.
\<close>

lemma dropped_state:
  assumes "hash_table H" "sys_reachable H b env s" "core_dropped s"
  shows "evicted s = []" "\<forall>l\<in>set (leaked s). leaked_uid l = uid (handle s)"
    "mset_set (alive_set (vheap (handle s))) = held s"
proof -
  have "evicted s = [] \<and> (\<forall>l\<in>set (leaked s). leaked_uid l = uid (handle s))
     \<and> mset_set (alive_set (vheap (handle s))) = held s"
    using assms(2)
  proof (cases rule: sys_reachable.cases)
    case (init t key)
    then show ?thesis using hash_table.sys_build_ok(4) [OF assms(1)] assms(3) by blast
  next
    case (step r a)
    then have nd: "\<not> core_dropped r" and st: "sys_action_step H a r = Some (Inr s)"
      by (auto simp: sys_exec_def split: if_splits)
    with assms(3) have "a = DropCore"
      by (cases a) (auto simp: proto_step_def lift_step_def flush_step_def guard_call_def leak_step_def drop_lazily_step_def
          reclaim_step_def bind_res_eq_Inr split: if_splits option.splits prod.splits)
    with st have dc: "drop_core_step H r = Some (Inr s)" by simp
    then have en: "writer (proto r) = Closed" "refcounts (proto r) = []"
      by (auto simp: drop_core_step_def split: if_splits)
    have inv: "data_inv H r" using hash_table.sys_reachable_inv [OF assms(1) step(1)] nd by simp
    then have tok: "evicted r = []" "\<forall>l\<in>set (leaked r). leaked_uid l = uid (handle r)"
      using en by (auto simp: data_inv_def tokens_ok_def write_side_def)
    have "evicted s = evicted r" "leaked s = leaked r" "uid (handle s) = uid (handle r)"
      using dc by (auto simp: drop_core_step_def core_drop_def bind_res_eq_Inr split: if_splits)
    with tok hash_table.inv_drop_core_step [OF assms(1) inv en] dc show ?thesis by (auto simp: held_def)
  qed
  then show "evicted s = []" "\<forall>l\<in>set (leaked s). leaked_uid l = uid (handle s)"
    "mset_set (alive_set (vheap (handle s))) = held s" by simp_all
qed

lemma leaked_uid_handle:
  assumes "hash_table H" "sys_reachable H b env s" "l \<in> set (leaked s)"
  shows "leaked_uid l = uid (handle s)"
proof (cases "core_dropped s")
  case True
  with dropped_state(2) [OF assms(1,2)] assms(3) show ?thesis by blast
next
  case False
  with hash_table.sys_reachable_inv [OF assms(1,2)] assms(3) show ?thesis by (simp add: data_inv_def tokens_ok_def)
qed

text \<open>
  C24: every evicted value and every leaked value the user holds can be read, at any time: the value is neither
  dropped nor taken, until the user hands it back. This includes leaked values that outlive their map,
  after the core has been dropped; evicted values cannot.
\<close>

theorem held_values_are_alive:
  assumes "hash_table H" "sys_reachable H b env s"
  shows "(\<forall>e\<in>set (evicted s). evicted_deref e (vheap (handle s)) = Inr (aliased (evicted_value e)))
     \<and> (\<forall>l\<in>set (leaked s). leaked_deref l (vheap (handle s)) = Inr (aliased (leaked_value l))
          \<and> alias_deref (into_inner l) (vheap (handle s)) = Inr (aliased (into_inner l)))
     \<and> (core_dropped s \<longrightarrow> evicted s = [])"
proof -
  have "(\<forall>e\<in>set (evicted s). alive (vheap (handle s)) (family (evicted_value e)))
     \<and> (\<forall>l\<in>set (leaked s). alive (vheap (handle s)) (family (leaked_value l)))"
  proof (cases "core_dropped s")
    case True
    note d = dropped_state [OF assms True]
    have "set_mset (held s) \<subseteq> alive_set (vheap (handle s))" by (rule subset_mset_set) (simp add: d(3))
    then show ?thesis using d(1) by (auto simp: alive_iff held_def)
  next
    case False
    then have inv: "data_inv H s" using reachable_data_inv [OF assms] by simp
    then have ok: "handle_ok H (fresh_index (proto s)) (held s) (handle s)" by (simp add: data_inv_def)
    show ?thesis
      using inv token_alive [OF ok] handle_ok_alive(4) [OF ok]
      by (auto simp: data_inv_def tokens_ok_def held_def alive_iff)
  qed
  then show ?thesis
    using dropped_state(1) [OF assms]
    by (simp add: evicted_deref_def evicted_value_def leaked_deref_def into_inner_def alias_deref_def)
qed

definition teardown_run :: "(nat, nat) sys_action list" where
  "teardown_run = first_write @ second_write @ [Proto (DropGuard 0), Proto (ReleaseResidual 0), Proto (DropReader 0),
     Proto (WriterCall ByDrop), Proto WriterStep, FlushOne, Proto WriterStep]"

text \<open>The value leaked in the second write is read after the map is gone.\<close>

theorem held_values_are_alive_witness:
  "core_dropped (sys_example (teardown_run @ [DropCore]))
   \<and> alias_deref (into_inner (leaked (sys_example (teardown_run @ [DropCore])) ! 0))
       (vheap (handle (sys_example (teardown_run @ [DropCore])))) = Inr 10"
proof -
  let ?s = "sys_example (teardown_run @ [DropCore])"
  have ok: "sys_succeeds (sys_run example_table (teardown_run @ [DropCore]) example_init)" by code_simp
  have "core_dropped ?s" by code_simp
  moreover have "leaked ?s ! 0 \<in> set (leaked ?s)" by (rule nth_mem) code_simp
  moreover have "aliased (into_inner (leaked ?s ! 0)) = 10" by code_simp
  ultimately show ?thesis using held_values_are_alive [OF example_hash_table sys_example_reachable(1) [OF ok]] by metis
qed

text \<open>
  C23: reclaiming works and is exclusive. Once \<open>reclaimer\<close> has waited, each leaked value of this map
  can be taken back exactly once: the user gets the very value that was evicted, it is moved out of
  the heap, and neither map a live guard reads nor the log refers to it as alive any more.
\<close>

theorem reclaim_returns_the_value:
  assumes "hash_table H" "sys_reachable H b env s" "writer (proto s) = Reclaiming" "j < length (leaked s)"
  shows "\<exists>s'. sys_exec H (Reclaim j) s = Some (Inr s')
     \<and> reclaimed s' = reclaimed s @ [aliased (into_inner (leaked s ! j))]
     \<and> families (vheap (handle s')) (family (into_inner (leaked s ! j))) = MovedOut
     \<and> (\<forall>g\<in>set (guards (proto s')). phase g = Live \<longrightarrow>
          values_alive (vheap (handle s')) (content_at H s' (map_index g)))"
proof -
  have nd: "\<not> core_dropped s" using hash_table.sys_reachable_inv [OF assms(1,2)] assms(3) by (auto split: if_splits)
  from hash_table.inv_reclaim_step [OF assms(1) reachable_data_inv [OF assms(1,2) nd] assms(4,3)]
  obtain s' where s': "reclaim_step j s = Some (Inr s')" "data_inv H s'"
    "reclaimed s' = reclaimed s @ [aliased (leaked_value (leaked s ! j))]" by blast
  from s'(1) have "families (vheap (handle s')) (family (leaked_value (leaked s ! j))) = MovedOut"
    by (auto simp: reclaim_step_def reclaim_def alias_into_owned_def bind_res_eq_Inr split: if_splits)
  with s' nd show ?thesis by (auto simp: sys_exec_def into_inner_def data_inv_def readers_ok_def)
qed

definition reclaim_run :: "(nat, nat) sys_action list" where
  "reclaim_run = first_write @ second_write @ [Proto (DropGuard 0), Proto (ReleaseResidual 0), Proto (WriterCall ByReclaimer),
     Proto WriterStep]"

theorem reclaim_returns_the_value_witness:
  "\<exists>s'. sys_exec example_table (Reclaim 0) (sys_example reclaim_run) = Some (Inr s') \<and> reclaimed s' = [10]"
proof -
  have ok: "sys_succeeds (sys_run example_table reclaim_run example_init)" by code_simp
  have "writer (proto (sys_example reclaim_run)) = Reclaiming" "length (leaked (sys_example reclaim_run)) = 1" by code_simp+
  moreover have "reclaimed (sys_example reclaim_run) = []" by code_simp
  moreover have "aliased (into_inner (leaked (sys_example reclaim_run) ! 0)) = 10" by code_simp
  ultimately show ?thesis
    using reclaim_returns_the_value [OF example_hash_table sys_example_reachable(1) [OF ok], of 0] by auto
qed

text \<open>
  C39: a leaked value stays with its map. Offered to the write handle or to a write guard of another map, it is refused
  with a panic, whatever both maps have done in between, and even when its own map is gone; this
  holds among the first \<open>2 ^ 64 - 1\<close> maps that a process builds, the \<open>i\<close>th of which finds the counter at
  \<open>uid_counter i\<close> (later identities repeat).
\<close>

theorem leaked_value_stays_with_its_map:
  assumes "hash_table H" "sys_reachable H b (g, uid_counter i) s" "l \<in> set (leaked s)"
    and "hash_table H'" "sys_reachable H' b' (g', uid_counter j) s'"
    and "i < 2 ^ 64 - 1" "j < 2 ^ 64 - 1" "i \<noteq> j"
  shows "reclaim l (handle s') = Inl (Panic LEAKED_VALUE_MISMATCH)
     \<and> drop_lazily l (handle s') = Inl (Panic LEAKED_VALUE_MISMATCH)"
proof -
  have "leaked_uid l = uid_counter i"
    using leaked_uid_handle [OF assms(1-3)] hash_table.sys_reachable_uid [OF assms(1,2)] by simp
  moreover have "uid (handle s') = uid_counter j" using hash_table.sys_reachable_uid [OF assms(4,5)] by simp
  ultimately have "uid (handle s') \<noteq> leaked_uid l" using uid_counter_distinct [OF assms(6-8)] by simp
  then show ?thesis by (simp add: reclaim_def drop_lazily_def)
qed

text \<open>The example map is the first of its process; the second one refuses the value, after the first is gone.\<close>

theorem leaked_value_stays_with_its_map_witness:
  "\<exists>s'. sys_build example_table example_builder ((), uid_counter 1) 7 0 = Some (Inr s')
     \<and> reclaim (leaked (sys_example (teardown_run @ [DropCore])) ! 0) (handle (s' :: example_system))
         = Inl (Panic LEAKED_VALUE_MISMATCH)"
proof -
  let ?s = "sys_example (teardown_run @ [DropCore])"
  obtain s' :: example_system where s': "sys_build example_table example_builder ((), uid_counter 1) 7 0 = Some (Inr s')"
    by (simp add: sys_build_def build_handle_def into_args_def example_builder_def builder_new_def write_handle_new_def
        writer_uid_next_def build_map_def new_reader_def build_core_def lift_step_def)
  have ok: "sys_succeeds (sys_run example_table (teardown_run @ [DropCore]) example_init)" by code_simp
  have r: "sys_reachable example_table example_builder ((), uid_counter 0) ?s"
    using sys_example_reachable(1) [OF ok] by (simp add: example_env_def)
  have "leaked ?s ! 0 \<in> set (leaked ?s)" by (rule nth_mem) code_simp
  from leaked_value_stays_with_its_map [OF example_hash_table r this example_hash_table sys_reachable.init [OF s']]
  show ?thesis using s' by simp
qed

text \<open>
  C8: no leak and no double free over the life of a map. When the write handle and all read
  handles are gone and the core is dropped, every key ever inserted has been dropped, and the values
  still alive are exactly the leaked ones the user has neither reclaimed nor handed back, each once;
  the drop of the core takes none of them from the user.
\<close>

theorem teardown_frees_everything:
  assumes "hash_table H" "sys_reachable H b env s" "sys_exec H DropCore s = Some (Inr s')"
  shows "(\<forall>f < next_family (kheap (handle s')). families (kheap (handle s')) f \<in> {Dropped, MovedOut})
     \<and> (\<forall>f < next_family (vheap (handle s')).
          if f \<in> family ` into_inner ` set (leaked s') then families (vheap (handle s')) f = Alive
          else families (vheap (handle s')) f \<in> {Dropped, MovedOut})
     \<and> alive_set (vheap (handle s')) = family ` into_inner ` set (leaked s')
     \<and> leaked s' = leaked s
     \<and> distinct (map (family \<circ> into_inner) (leaked s'))"
proof -
  have st: "drop_core_step H s = Some (Inr s')" "\<not> core_dropped s"
    using assms(3) by (auto simp: sys_exec_def split: if_splits)
  then have en: "writer (proto s) = Closed" "refcounts (proto s) = []"
    by (auto simp: drop_core_step_def split: if_splits)
  from hash_table.inv_drop_core_step [OF assms(1) reachable_data_inv(1) [OF assms(1,2) st(2)] en] st(1)
  have l: "leaked s' = leaked s" and k: "alive_set (kheap (handle s')) = {}" "heap_ok (kheap (handle s'))"
    and v: "mset_set (alive_set (vheap (handle s'))) = held s" "heap_ok (vheap (handle s'))" by auto
  have fin: "finite (alive_set (vheap (handle s')))" using v(2) by (rule finite_alive)
  have ended: "families h f \<in> {Dropped, MovedOut}" if "heap_ok h" "f < next_family h" "f \<notin> alive_set h" for h f
    using that by (cases "families h f") (auto simp: heap_ok_def alive_set_def alive_def)
  have set: "alive_set (vheap (handle s')) = family ` into_inner ` set (leaked s')"
    using v(1) finite_set_mset_mset_set [OF fin] by (simp add: held_def l into_inner_def image_image)
  moreover have "distinct (map (family \<circ> into_inner) (leaked s'))"
    using v(1) fin by (intro distinct_mset_set [OF fin]) (simp add: held_def l into_inner_def comp_def)
  moreover have "\<forall>f < next_family (vheap (handle s')).
      if f \<in> alive_set (vheap (handle s')) then families (vheap (handle s')) f = Alive
      else families (vheap (handle s')) f \<in> {Dropped, MovedOut}"
    using ended [OF v(2)] by (auto simp: alive_set_def alive_def)
  moreover have "\<forall>f < next_family (kheap (handle s')). families (kheap (handle s')) f \<in> {Dropped, MovedOut}"
    using ended [OF k(2)] k(1) by blast
  ultimately show ?thesis using l unfolding set by blast
qed

text \<open>Of this run the leaked value is all that is left.\<close>

theorem teardown_frees_everything_witness:
  "families (kheap (handle (sys_example (teardown_run @ [DropCore])))) 0 \<in> {Dropped, MovedOut}
   \<and> alive_set (vheap (handle (sys_example (teardown_run @ [DropCore])))) = {0}"
proof -
  let ?s = "sys_example teardown_run" and ?t = "sys_example (teardown_run @ [DropCore])"
  have ok: "sys_succeeds (sys_run example_table teardown_run example_init)"
    "sys_succeeds (sys_run example_table (teardown_run @ [DropCore]) example_init)" by code_simp+
  have "sys_exec example_table DropCore ?s = Some (Inr ?t)"
    using sys_example_reachable(2) [OF ok(1)] sys_example_reachable(2) [OF ok(2)]
    by (simp add: sys_machine.run_append split: option.splits sum.splits)
  note t = teardown_frees_everything [OF example_hash_table sys_example_reachable(1) [OF ok(1)] this]
  have "0 < next_family (kheap (handle ?t))" "family ` into_inner ` set (leaked ?t) = {0}" by code_simp+
  with t show ?thesis by simp
qed

section \<open>A forgotten write guard\<close>

text \<open>
  \<open>mem::forget\<close> is safe and skips \<open>WriteGuard::drop\<close>: the borrow of the handle ends although nothing was
  published.
\<close>

definition forget_write_guard :: "('m, 'k, 'v) system \<Rightarrow> ('m, 'k, 'v) system" where
  "forget_write_guard s = s\<lparr>proto := (proto s)\<lparr>writer := Idle\<rparr>, evicted := []\<rparr>"

definition fault_of :: "'a step \<Rightarrow> fault option" where
  "fault_of r = (case r of Some (Inl e) \<Rightarrow> Some e | _ \<Rightarrow> None)"

text \<open>
  After a write guard that inserted a key was forgotten, the next \<open>guard\<close> re-applies the log to
  the map that already has the operations, and \<open>insert_unique_unchecked\<close> is called with a key that is
  present.
\<close>

lemma forgotten_guard_duplicates_key:
  "\<exists>s. sys_reachable example_table example_builder example_env s \<and> writer (proto s) = Writing
     \<and> fault_of (sys_run example_table [Proto (WriterCall ByGuard), Proto WriterStep, FlushOne] (forget_write_guard s))
         = Some (UB DuplicateKey)"
proof (intro exI conjI)
  let ?as = "begin_write 0 @ [Insert 1 10]"
  show "sys_reachable example_table example_builder example_env (sys_example ?as)"
    by (rule sys_example_reachable(1)) code_simp
  show "writer (proto (sys_example ?as)) = Writing" by code_simp
  show "fault_of (sys_run example_table [Proto (WriterCall ByGuard), Proto WriterStep, FlushOne]
      (forget_write_guard (sys_example ?as))) = Some (UB DuplicateKey)"
    by code_simp
qed

text \<open>
  Reclaiming after a write guard that removed and leaked a value was forgotten frees a value that
  live read guards can still see.
\<close>

lemma forgotten_guard_frees_visible_value:
  "\<exists>s g. sys_reachable example_table example_builder example_env s \<and> writer (proto s) = Writing
     \<and> g \<in> set (guards (proto s)) \<and> phase g = Live
     \<and> (case sys_run example_table [Proto (WriterCall ByReclaimer), Proto WriterStep, Reclaim 0] (forget_write_guard s) of
          Some (Inr t) \<Rightarrow> view_get example_table (kheap (handle t)) (vheap (handle t)) 1
             (map_get (maps (handle t)) (map_index g)) = Inl (UB UseAfterFree)
        | _ \<Rightarrow> False)"
proof (intro exI conjI)
  let ?as = "first_write @ begin_write 2 @ [RemoveKey 1, Leak 0]"
  show "sys_reachable example_table example_builder example_env (sys_example ?as)"
    by (rule sys_example_reachable(1)) code_simp
  show "writer (proto (sys_example ?as)) = Writing" by code_simp
  show "guards (proto (sys_example ?as)) ! 0 \<in> set (guards (proto (sys_example ?as)))"
    by (rule nth_mem) code_simp
  show "phase (guards (proto (sys_example ?as)) ! 0) = Live" by code_simp
  show "case sys_run example_table [Proto (WriterCall ByReclaimer), Proto WriterStep, Reclaim 0]
          (forget_write_guard (sys_example ?as)) of
          Some (Inr t) \<Rightarrow> view_get example_table (kheap (handle t)) (vheap (handle t)) 1
             (map_get (maps (handle t)) (map_index (guards (proto (sys_example ?as)) ! 0))) = Inl (UB UseAfterFree)
        | _ \<Rightarrow> False"
    by code_simp
qed

text \<open>
  C33: a write guard that is forgotten instead of dropped (\<open>mem::forget\<close> is safe) breaks memory safety in two ways. The next
  \<open>guard\<close> re-applies the log to the map that already has its operations, and \<open>insert_unique_unchecked\<close> is called with a
  key that is present; and reclaiming a value that was removed and leaked through the forgotten guard gives out a value
  that live read guards can still see.
\<close>

theorem forgotten_guard_breaks_safety:
  "(\<exists>s. sys_reachable example_table example_builder example_env s \<and> writer (proto s) = Writing
     \<and> fault_of (sys_run example_table [Proto (WriterCall ByGuard), Proto WriterStep, FlushOne] (forget_write_guard s))
         = Some (UB DuplicateKey))
   \<and> (\<exists>s g. sys_reachable example_table example_builder example_env s \<and> writer (proto s) = Writing
     \<and> g \<in> set (guards (proto s)) \<and> phase g = Live
     \<and> (case sys_run example_table [Proto (WriterCall ByReclaimer), Proto WriterStep, Reclaim 0] (forget_write_guard s) of
          Some (Inr t) \<Rightarrow> view_get example_table (kheap (handle t)) (vheap (handle t)) 1
             (map_get (maps (handle t)) (map_index g)) = Inl (UB UseAfterFree)
        | _ \<Rightarrow> False))"
  using forgotten_guard_duplicates_key forgotten_guard_frees_visible_value by (rule conjI)

section \<open>A panic in the destructor of a value\<close>

text \<open>
  \<open>Alias::drop\<close> runs the destructor of a user type, which may panic. When it does so on a \<open>Replace\<close> while the
  log is re-applied, the value counts as dropped, the assignment of the new value does not happen,
  and the \<open>drain\<close> iterator discards the rest of the log while \<open>guard\<close> unwinds.
\<close>

definition flush_unwinds :: "('m, 'k, 'v, 's) hashbrown \<Rightarrow> ('m, 'k, 'v) system \<Rightarrow> ('m, 'k, 'v) system option" where
  "flush_unwinds H s =
     (if writer (proto s) \<noteq> Flushing then None
      else case operations (handle s) of
        [] \<Rightarrow> None
      | op # ops \<Rightarrow>
          (case (raw op, leaky op) of
             (Replace key val, False) \<Rightarrow>
               (case hb_get H (map_get (maps (handle s)) (writer_map (proto s))) key of
                  None \<Rightarrow> None
                | Some slot \<Rightarrow>
                    (case alias_drop slot (vheap (handle s)) of
                       Inl e \<Rightarrow> None
                     | Inr vh \<Rightarrow> Some (s\<lparr>proto := (proto s)\<lparr>writer := Idle\<rparr>,
                         handle := (handle s)\<lparr>operations := [], vheap := vh\<rparr>\<rparr>)))
           | _ \<Rightarrow> None))"

definition overwrite_run :: "(nat, nat) sys_action list" where
  "overwrite_run = first_write @ [Proto (DropGuard 0)] @ begin_write 2 @ [Insert 1 11] @ end_write
     @ [Proto (WriterCall ByGuard), Proto WriterStep]"

text \<open>
  C35: after such a panic the next write guard reads a freed value: the writer's map still holds the
  alias whose value was dropped.
\<close>

theorem panicking_destructor_leaves_freed_value:
  "\<exists>s. sys_reachable example_table example_builder example_env s \<and>
     (case flush_unwinds example_table s of
        None \<Rightarrow> False
      | Some t \<Rightarrow>
          (case sys_run example_table (begin_write 0) t of
             Some (Inr u) \<Rightarrow> writer (proto u) = Writing \<and> view_get example_table (kheap (handle u)) (vheap (handle u)) 1
                (map_get (maps (handle u)) (writer_map (proto u))) = Inl (UB UseAfterFree)
           | _ \<Rightarrow> False))"
proof (intro exI conjI)
  show "sys_reachable example_table example_builder example_env (sys_example overwrite_run)"
    by (rule sys_example_reachable(1)) code_simp
  show "case flush_unwinds example_table (sys_example overwrite_run) of
        None \<Rightarrow> False
      | Some t \<Rightarrow>
          (case sys_run example_table (begin_write 0) t of
             Some (Inr u) \<Rightarrow> writer (proto u) = Writing \<and> view_get example_table (kheap (handle u)) (vheap (handle u)) 1
                (map_get (maps (handle u)) (writer_map (proto u))) = Inl (UB UseAfterFree)
           | _ \<Rightarrow> False)"
    by code_simp
qed

section \<open>Construction\<close>








end
