(* ===== verification/SendSync.thy ===== *)
theory SendSync
  imports Main
begin

text \<open>
  Which types of the crate may be sent to and shared with other threads: the fields of its structs
  and its \<open>unsafe impl\<close>s of \<open>Send\<close> and \<open>Sync\<close>, and the rules by which the compiler derives the two traits for
  every other type. The protocol relies on it: the calls on a write handle, on its guard and on
  evicted values never overlap.
\<close>

section \<open>Types\<close>

datatype trait = Send | Sync

text \<open>
  A parameter of the user with its traits; the types of the standard library that the structs are made of
  (\<open>Plain\<close>: integers, atomics, \<open>Thread\<close>; \<open>Owned\<close>: boxes, vectors, options, the slab, \<open>PhantomData\<close>, \<open>hashbrown::HashMap\<close>); and the
  structs of the crate.
\<close>

datatype ty =
    Param bool bool
  | Plain
  | RawPtr
  | Cell ty
  | UnsafeCell ty
  | Mutex ty
  | Arc ty
  | Shared ty                    \<comment> \<open>\<open>&T\<close>\<close>
  | Owned "ty list"
  | CachePadded ty
  | Alias ty
  | SharedMapAccess ty ty ty
  | OwnedMapAccess ty ty ty
  | Core ty ty ty
  | ReadHandle ty ty ty
  | ReadGuard ty ty ty
  | RawOperation ty ty
  | Operation ty ty
  | WriteHandle ty ty ty
  | WriteGuard ty ty ty
  | Leaked ty
  | Evicted ty ty
  | View ty

definition map_ty :: "ty \<Rightarrow> ty \<Rightarrow> ty \<Rightarrow> ty" where
  "map_ty k v s = Owned [Alias k, Alias v, s]"

text \<open>The fields of each struct, in the order of the source.\<close>

definition core_fields :: "ty \<Rightarrow> ty \<Rightarrow> ty \<Rightarrow> ty list" where
  [simp]: "core_fields k v s =
     [Plain, Mutex (Owned [RawPtr]), UnsafeCell (Owned [Plain]), Cell Plain, OwnedMapAccess k v s, Owned [RawPtr]]"

definition read_handle_fields :: "ty \<Rightarrow> ty \<Rightarrow> ty \<Rightarrow> ty list" where
  [simp]: "read_handle_fields k v s = [Arc (Core k v s), SharedMapAccess k v s, RawPtr, Plain]"

definition read_guard_fields :: "ty \<Rightarrow> ty \<Rightarrow> ty \<Rightarrow> ty list" where
  [simp]: "read_guard_fields k v s = [Shared (ReadHandle k v s), Shared (UnsafeCell (map_ty k v s)), Plain]"

definition write_handle_fields :: "ty \<Rightarrow> ty \<Rightarrow> ty \<Rightarrow> ty list" where
  [simp]: "write_handle_fields k v s = [Arc (Core k v s), UnsafeCell (Owned [Operation k v]), Plain]"

definition write_guard_fields :: "ty \<Rightarrow> ty \<Rightarrow> ty \<Rightarrow> ty list" where
  [simp]: "write_guard_fields k v s = [Shared (UnsafeCell (map_ty k v s)), Shared (WriteHandle k v s), Plain]"

definition evicted_fields :: "ty \<Rightarrow> ty \<Rightarrow> ty list" where
  [simp]: "evicted_fields k v = [Leaked v, Shared (UnsafeCell (Owned [Operation k v])), Plain]"

fun fields :: "ty \<Rightarrow> ty list" where
  "fields (Owned ts) = ts"
| "fields (CachePadded t) = [t]"
| "fields (Alias t) = [Owned [t], Owned [RawPtr]]"
| "fields (SharedMapAccess k v s) = [RawPtr]"
| "fields (OwnedMapAccess k v s) =
     [SharedMapAccess k v s, Owned [CachePadded (UnsafeCell (map_ty k v s))]]"
| "fields (Core k v s) = core_fields k v s"
| "fields (ReadHandle k v s) = read_handle_fields k v s"
| "fields (ReadGuard k v s) = read_guard_fields k v s"
| "fields (RawOperation k v) = [Alias k, Alias v, k]"
| "fields (Operation k v) = [RawOperation k v, Plain]"
| "fields (WriteHandle k v s) = write_handle_fields k v s"
| "fields (WriteGuard k v s) = write_guard_fields k v s"
| "fields (Leaked v) = [Alias v, Plain]"
| "fields (Evicted k v) = evicted_fields k v"
| "fields (View g) = [g]"
| "fields _ = []"

section \<open>Trait resolution\<close>

definition thread_safe_bounds :: "ty list \<Rightarrow> (trait \<times> ty) list" where
  "thread_safe_bounds ts = concat (map (\<lambda>t. [(Send, t), (Sync, t)]) ts)"

text \<open>The bounds of the \<open>unsafe impl\<close>s of the crate, and for each trait and type its \<open>unsafe impl\<close>, \<open>None\<close> where there is none.\<close>

definition cache_padded_bounds :: "trait \<Rightarrow> ty \<Rightarrow> (trait \<times> ty) list" where
  [simp]: "cache_padded_bounds tr t = [(tr, t)]"

definition alias_bounds :: "ty \<Rightarrow> (trait \<times> ty) list" where
  [simp]: "alias_bounds t = thread_safe_bounds [t]"

definition core_bounds :: "ty \<Rightarrow> ty \<Rightarrow> ty \<Rightarrow> (trait \<times> ty) list" where
  [simp]: "core_bounds k v s = [(Send, Alias k), (Send, Alias v), (Send, s)]"

definition read_handle_bounds :: "ty \<Rightarrow> ty \<Rightarrow> ty \<Rightarrow> (trait \<times> ty) list" where
  [simp]: "read_handle_bounds k v s = thread_safe_bounds [k, v, s]"

definition read_guard_bounds :: "ty \<Rightarrow> ty \<Rightarrow> ty \<Rightarrow> (trait \<times> ty) list" where
  [simp]: "read_guard_bounds k v s = thread_safe_bounds [k, v, s]"

definition write_handle_bounds :: "ty \<Rightarrow> ty \<Rightarrow> ty \<Rightarrow> (trait \<times> ty) list" where
  [simp]: "write_handle_bounds k v s = thread_safe_bounds [k, v, s]"

definition leaked_bounds :: "trait \<Rightarrow> ty \<Rightarrow> (trait \<times> ty) list" where
  [simp]: "leaked_bounds tr v = [(tr, v)]"

fun unsafe_impl :: "trait \<Rightarrow> ty \<Rightarrow> (trait \<times> ty) list option" where
  "unsafe_impl tr (CachePadded t) = Some (cache_padded_bounds tr t)"
| "unsafe_impl tr (Alias t) = Some (alias_bounds t)"
| "unsafe_impl Send (Core k v s) = Some (core_bounds k v s)"
| "unsafe_impl tr (ReadHandle k v s) = Some (read_handle_bounds k v s)"
| "unsafe_impl tr (ReadGuard k v s) = Some (read_guard_bounds k v s)"
| "unsafe_impl Send (WriteHandle k v s) = Some (write_handle_bounds k v s)"
| "unsafe_impl tr (Leaked v) = Some (leaked_bounds tr v)"
| "unsafe_impl _ _ = None"

text \<open>
  What a trait asks of other types, \<open>None\<close> when the type never has it: the impls of the standard library, then
  those of the crate, then the rule for structs, all of whose fields must have the trait.
\<close>

fun asks :: "trait \<Rightarrow> ty \<Rightarrow> (trait \<times> ty) list option" where
  "asks Send (Param sd sy) = (if sd then Some [] else None)"
| "asks Sync (Param sd sy) = (if sy then Some [] else None)"
| "asks tr Plain = Some []"
| "asks tr RawPtr = None"
| "asks Send (Cell t) = Some [(Send, t)]"
| "asks Sync (Cell t) = None"
| "asks Send (UnsafeCell t) = Some [(Send, t)]"
| "asks Sync (UnsafeCell t) = None"
| "asks tr (Mutex t) = Some [(Send, t)]"
| "asks tr (Arc t) = Some (thread_safe_bounds [t])"
| "asks tr (Shared t) = Some [(Sync, t)]"
| "asks tr t =
     (case unsafe_impl tr t of Some bs \<Rightarrow> Some bs | None \<Rightarrow> Some (map (\<lambda>f. (tr, f)) (fields t)))"

primrec weight :: "ty \<Rightarrow> nat" where
  "weight (Param sd sy) = 1"
| "weight Plain = 1"
| "weight RawPtr = 1"
| "weight (Cell t) = Suc (weight t)"
| "weight (UnsafeCell t) = Suc (weight t)"
| "weight (Mutex t) = Suc (weight t)"
| "weight (Arc t) = Suc (weight t)"
| "weight (Shared t) = Suc (weight t)"
| "weight (Owned ts) = Suc (sum_list (map weight ts))"
| "weight (CachePadded t) = Suc (weight t)"
| "weight (Alias t) = 5 + weight t"
| "weight (SharedMapAccess k v s) = 2"
| "weight (OwnedMapAccess k v s) = 20 + (weight k + weight v + weight s)"
| "weight (Core k v s) = 30 + (weight k + weight v + weight s)"
| "weight (ReadHandle k v s) = 40 + (weight k + weight v + weight s)"
| "weight (ReadGuard k v s) = 50 + (weight k + weight v + weight s)"
| "weight (RawOperation k v) = 10 + (weight k + weight v)"
| "weight (Operation k v) = 15 + (weight k + weight v)"
| "weight (WriteHandle k v s) = 40 + (weight k + weight v + weight s)"
| "weight (WriteGuard k v s) = 50 + (weight k + weight v + weight s)"
| "weight (Leaked v) = 10 + weight v"
| "weight (Evicted k v) = 30 + (weight k + weight v)"
| "weight (View g) = Suc (weight g)"

lemma asks_smaller: "asks tr t = Some bs \<Longrightarrow> (tr', u) \<in> set bs \<Longrightarrow> weight u < weight t"
  by (cases t; cases tr)
    (auto simp: thread_safe_bounds_def map_ty_def less_Suc_eq_le member_le_sum_list split: if_splits)

function has :: "trait \<Rightarrow> ty \<Rightarrow> bool" where
  "has tr t = (case asks tr t of None \<Rightarrow> False | Some bs \<Rightarrow> list_all (\<lambda>(tr', u). has tr' u) bs)"
  by auto
termination
  by (relation "measure (\<lambda>(tr, t). weight t)") (auto dest: asks_smaller)

declare has.simps [simp del]

section \<open>The assertions of the crate\<close>

text \<open>
  What \<open>src/lib.rs\<close> asserts about its types: two unit tests that must compile, and documentation tests that must not
  (\<open>()\<close> is \<open>Plain\<close>, a \<open>MutexGuard\<close> is \<open>Sync\<close> but not \<open>Send\<close>).
\<close>

definition SendOnly :: ty where [simp]: "SendOnly = Param True False"
definition SyncOnly :: ty where [simp]: "SyncOnly = Param False True"
definition SendSync :: ty where [simp]: "SendSync = Param True True"

definition send_types :: "ty list" where
  "send_types = [ReadHandle SendSync SendSync SendSync, WriteHandle SendSync SendSync SendSync,
     View (ReadGuard SendSync SendSync SendSync), Leaked SendOnly]"

definition sync_types :: "ty list" where
  "sync_types = [ReadHandle SendSync SendSync SendSync, View (ReadGuard SendSync SendSync SendSync), Leaked SyncOnly]"

definition NotSendTypes :: "ty list" where
  "NotSendTypes = [Evicted Plain Plain, Alias (Cell Plain)]"

definition NotSyncTypes :: "ty list" where
  "NotSyncTypes = [Evicted Plain Plain, Alias (Param False True)]"

section \<open>Properties\<close>

abbreviation thread_safe :: "ty \<Rightarrow> bool" where
  "thread_safe t \<equiv> has Send t \<and> has Sync t"

text \<open>
  C31: what the protocol takes for granted about threads holds by the types. Nothing of the writer's side
  can be used from two threads at once: the core and the write handle are never \<open>Sync\<close>, write guards and
  evicted values are neither \<open>Send\<close> nor \<open>Sync\<close>, whatever the parameters. The handles that do cross threads ask
  for keys, values and hashers that are \<open>Send\<close> and \<open>Sync\<close>. The assertions that the crate makes about its types hold.
\<close>

theorem writer_stays_on_one_thread:
  "\<not> has Sync (Core k v s) \<and> \<not> has Sync (WriteHandle k v s) \<and> \<not> has tr (View (WriteGuard k v s)) \<and> \<not> has tr (Evicted k v)
   \<and> (has Send (WriteHandle k v s) \<longleftrightarrow> thread_safe k \<and> thread_safe v \<and> thread_safe s)
   \<and> (has tr (ReadHandle k v s) \<longleftrightarrow> thread_safe k \<and> thread_safe v \<and> thread_safe s)
   \<and> (has tr (View (ReadGuard k v s)) \<longleftrightarrow> thread_safe k \<and> thread_safe v \<and> thread_safe s)
   \<and> list_all (has Send) send_types \<and> list_all (has Sync) sync_types
   \<and> \<not> list_ex (has Send) NotSendTypes \<and> \<not> list_ex (has Sync) NotSyncTypes"
proof -
  have cell: "\<not> has Sync (UnsafeCell t)" for t by (simp add: has.simps)
  then have ref: "\<not> has tr (Shared (UnsafeCell t))" for tr t by (simp add: has.simps [of tr "Shared _"])
  have core: "\<not> has Sync (Core k v s)" using cell by (simp add: has.simps [of Sync "Core k v s"])
  have "\<not> has Sync (WriteHandle k v s)"
    using cell by (simp add: has.simps [of Sync "WriteHandle k v s"])
  moreover have "\<not> has tr (WriteGuard k v s)" "\<not> has tr (Evicted k v)" for tr
    using ref by (simp_all add: has.simps [of tr "WriteGuard k v s"] has.simps [of tr "Evicted k v"])
  then have "\<not> has tr (View (WriteGuard k v s))" "\<not> has tr (Evicted k v)"
    by (simp_all add: has.simps [of tr "View _"])
  moreover have "has Send (WriteHandle k v s) \<longleftrightarrow> thread_safe k \<and> thread_safe v \<and> thread_safe s"
    by (simp add: has.simps [of Send "WriteHandle k v s"] thread_safe_bounds_def)
  moreover have "has tr (ReadHandle k v s) \<longleftrightarrow> thread_safe k \<and> thread_safe v \<and> thread_safe s"
    by (cases tr) (simp_all add: has.simps [of _ "ReadHandle k v s"] thread_safe_bounds_def)
  moreover have "has tr (View (ReadGuard k v s)) \<longleftrightarrow> thread_safe k \<and> thread_safe v \<and> thread_safe s"
    by (cases tr) (simp_all add: has.simps [of _ "View _"] has.simps [of _ "ReadGuard k v s"] thread_safe_bounds_def)
  moreover have "list_all (has Send) send_types" "list_all (has Sync) sync_types"
    "\<not> list_ex (has Send) NotSendTypes" "\<not> list_ex (has Sync) NotSyncTypes" by code_simp+
  ultimately show ?thesis using core by blast
qed

end
