(* ===== verification/SystemTrace.thy ===== *)
theory SystemTrace
  imports SystemProps SendSync
begin

text \<open>
  Whole runs of the map: the refinement of \<open>SystemRef\<close> along a run, and the round trip of a value from the
  write guard through a publication to a reader.
\<close>

section \<open>Runs of the specification\<close>

lemma sys_run_refines:
  assumes "hash_table H" "sys_reachable H b env s" "sys_run H as s = Some (Inr s')"
  shows "abs_state H s' = fold spec_step as (abs_state H s)"
proof (rule sys_machine.run_fold [OF _ assms(2) _ assms(3)])
  fix a s s'
  assume r: "sys_reachable H b env s" and ex: "sys_exec H a s = Some (Inr s')"
  then have st: "sys_action_step H a s = Some (Inr s')" "\<not> core_dropped s"
    by (auto simp: sys_exec_def split: if_splits)
  with hash_table.sys_reachable_inv [OF assms(1) r] have "data_inv H s" "pinv (proto s)" by simp_all
  then show "abs_state H s' = spec_step a (abs_state H s)" by (rule hash_table.refine_step [OF assms(1) _ _ st(1)])
qed (simp add: list_all_iff)

text \<open>The steps that may change what a key is bound to, and the step that publishes.\<close>

fun touches :: "'k \<Rightarrow> ('k, 'v) sys_action \<Rightarrow> bool" where
  "touches k (Insert k' v) = (k' = k)"
| "touches k (ReplaceWith k' f) = (k' = k)"
| "touches k (RemoveKey k') = (k' = k)"
| "touches k _ = False"

fun publishes :: "('k, 'v) sys_action \<Rightarrow> bool" where
  "publishes (Proto (WriterIter ks)) = True"
| "publishes _ = False"

lemma spec_untouched:
  "\<not> touches k a \<Longrightarrow> fst (spec_step a x) k = fst x k \<and> snd (spec_step a x) k = (if publishes a then fst x k else snd x k)"
  by (cases x; cases "(a, x)" rule: spec_step.cases) (auto split: option.splits)

lemma fold_untouched:
  "list_all (\<lambda>a. \<not> touches k a) as \<Longrightarrow>
   fst (fold spec_step as x) k = fst x k
   \<and> snd (fold spec_step as x) k = (if list_ex publishes as then fst x k else snd x k)"
proof (induction as arbitrary: x)
  case Nil
  then show ?case by simp
next
  case (Cons a as)
  then show ?case using spec_untouched [of k a x] by auto
qed

section \<open>From the write guard to a reader\<close>

text \<open>A new guard of a handle reads the published map, or the one published before when \<open>publish\<close> has yet to reach the handle.\<close>

lemma new_guard_reads:
  assumes "hash_table H" "sys_reachable H b env t" "sys_exec H (Proto (NewGuard j)) t = Some (Inr s')"
  shows "view_get H (kheap (handle s')) (vheap (handle s')) k (map_get (maps (handle s')) (map_index (last (guards (proto s')))))
     = Inr (view_of H (expected (proto t) j) (handle t) k)"
proof -
  have p: "pinv (proto t)" using hash_table.sys_reachable_inv [OF assms(1,2)] by simp
  from assms(3) obtain p' where p': "read_guard j (proto t) = Some (Inr p')" "proto s' = p'" "handle s' = handle t"
    by (auto simp: sys_exec_def proto_step_def lift_step_def bind_res_eq_Inr split: if_splits option.splits)
  note new = read_guard_result [OF p p'(1)]
  have idx: "map_index (last (guards (proto s'))) = expected (proto t) j" using new p' by simp
  let ?i = "length (guards (proto t))"
  have live: "in_phase ?i Live (proto s')" "guards (proto s') ! ?i = last (guards (proto s'))"
    using new p' by (simp_all add: in_phase_def)
  have r': "sys_reachable H b env s'" using assms(2,3) by (rule sys_reachable.step)
  have "readable H (kheap (handle s')) (vheap (handle s')) (map_get (maps (handle s')) (map_index (last (guards (proto s')))))"
    using guard_map_readable [OF assms(1) live_not_dropped(1) [OF assms(1) r' live(1)] live(1)] live(2) by simp
  from hash_table.view_get_ok [OF assms(1) this] show ?thesis
    unfolding idx by (simp add: p'(3) view_of_def)
qed

text \<open>
  While \<open>publish\<close> walks over the handles, the writer's map is the one that was published before, and nothing changes
  either map.
\<close>

definition swapping :: "writer_pc \<Rightarrow> bool" where
  "swapping pc \<longleftrightarrow> (\<exists>ks r. pc = PubSwap ks r)"

lemma swapping_exec:
  assumes "exec x p = Some (Inr p')" "swapping (writer p')"
  shows "(\<exists>ks. x = WriterIter ks) \<and> writer_map p' = other (writer_map p)
    \<or> (\<forall>ks. x \<noteq> WriterIter ks) \<and> swapping (writer p) \<and> writer_map p' = writer_map p"
proof (cases "reader_action x")
  case True
  with reader_action_writer [OF True assms(1)] assms(2) show ?thesis by (auto simp: reader_action_def)
next
  case False
  have "after_sync c \<noteq> PubSwap ks r" for c ks r by (cases c) simp_all
  with False assms publish_swap_role(1) [of _ _ p p'] show ?thesis
    by (cases x; cases "writer p")
      (auto simp: reader_action_def swapping_def writer_action_defs Let_def split: if_splits)
qed

lemma swapping_step:
  assumes "sys_exec H a s = Some (Inr s')" "swapping (writer (proto s'))"
  shows "handle s' = handle s
     \<and> (if publishes a then writer_map (proto s') = other (writer_map (proto s))
        else swapping (writer (proto s)) \<and> writer_map (proto s') = writer_map (proto s))"
proof (cases a)
  case (Proto x)
  with assms(1) have ex: "exec x (proto s) = Some (Inr (proto s'))" and h: "handle s' = handle s"
    by (auto simp: sys_exec_def proto_step_def lift_step_def bind_res_eq_Inr split: if_splits option.splits)
  have "publishes a \<longleftrightarrow> (\<exists>ks. x = WriterIter ks)" by (cases x) (simp_all add: Proto)
  with swapping_exec [OF ex assms(2)] h show ?thesis by auto
qed (use assms in \<open>auto simp: sys_exec_def flush_step_def flushing_def guard_call_def leak_step_def drop_lazily_step_def
       reclaim_step_def drop_core_step_def swapping_def bind_res_eq_Inr split: if_splits prod.splits\<close>)

text \<open>What a key is bound to once its value is published, for a handle that \<open>publish\<close> has reached and for one it has not.\<close>

definition settled :: "('m, 'k, 'v, 's) hashbrown \<Rightarrow> 'k \<Rightarrow> 'v option \<Rightarrow> ('m, 'k, 'v) system \<Rightarrow> bool" where
  "settled H k x s \<longleftrightarrow> fst (abs_state H s) k = x \<and> snd (abs_state H s) k = x
     \<and> (swapping (writer (proto s)) \<longrightarrow> view_of H (writer_map (proto s)) (handle s) k = x)"

lemma settled_run:
  assumes H: "hash_table H"
  shows "sys_reachable H b env s \<Longrightarrow> settled H k x s \<Longrightarrow> list_all (\<lambda>a. \<not> touches k a) as
    \<Longrightarrow> sys_run H as s = Some (Inr t) \<Longrightarrow> settled H k x t"
proof (induction as arbitrary: s)
  case Nil
  then show ?case by simp
next
  case (Cons a as)
  from Cons.prems(4) obtain s1 where ex: "sys_exec H a s = Some (Inr s1)" and run: "sys_run H as s1 = Some (Inr t)"
    by (rule sys_machine.run_ConsE)
  have one: "sys_run H [a] s = Some (Inr s1)" using ex by simp
  have "abs_state H s1 = spec_step a (abs_state H s)" using sys_run_refines [OF H Cons.prems(1) one] by simp
  moreover have "\<not> touches k a" using Cons.prems(3) by simp
  ultimately have abs: "fst (abs_state H s1) k = x" "snd (abs_state H s1) k = x"
    using spec_untouched [of k a "abs_state H s"] Cons.prems(2) by (auto simp: settled_def)
  have "view_of H (writer_map (proto s1)) (handle s1) k = x" if "swapping (writer (proto s1))"
    using swapping_step [OF ex that] Cons.prems(2) by (auto simp: settled_def abs_state_def split: if_splits)
  with abs have "settled H k x s1" by (simp add: settled_def)
  with Cons.IH [OF sys_reachable.step [OF Cons.prems(1) ex] this _ run] Cons.prems(3) show ?case by simp
qed

lemma settled_expected:
  assumes "settled H k x t"
  shows "view_of H (expected (proto t) j) (handle t) k = x"
proof (cases "j \<in> set (todo (writer (proto t)))")
  case True
  then have "swapping (writer (proto t))" by (cases "writer (proto t)") (auto simp: todo_def swapping_def)
  with assms True show ?thesis by (simp add: settled_def expected_def)
next
  case False
  with assms show ?thesis by (simp add: settled_def expected_def abs_state_def)
qed

text \<open>
  C6: the round trip of a value. After \<open>insert(k, v)\<close> through a write guard and any further run (of the writer, of
  other readers, of the user) in which it is published, that is a publication takes place and has
  ended, every guard created from then on answers \<open>get(k)\<close> with \<open>v\<close>, whatever else runs in between as long as
  \<open>k\<close> is not written again: also a guard created while a later publication is under way, by a handle
  which that publication has reached or not. Likewise \<open>remove(k)\<close> is answered with nothing.
\<close>

theorem insert_publish_get:
  assumes "hash_table H" "sys_reachable H b env s" "w = Insert k v \<or> w = RemoveKey k"
    and "sys_run H (w # as) s = Some (Inr u)" "list_ex publishes as" "\<not> refcounts_locked (proto u)"
    and "sys_run H bs u = Some (Inr t)" "sys_exec H (Proto (NewGuard j)) t = Some (Inr s')"
    and "list_all (\<lambda>a. \<not> touches k a) (as @ bs)"
  shows "view_get H (kheap (handle s')) (vheap (handle s')) k
       (map_get (maps (handle s')) (map_index (last (guards (proto s')))))
     = Inr (if w = Insert k v then Some v else None)"
proof -
  let ?x = "if w = Insert k v then Some v else None"
  have r: "sys_reachable H b env u" "sys_reachable H b env t"
    using sys_reachable_run [OF assms(2,4)] sys_reachable_run [OF _ assms(7)] by blast+
  have "abs_state H u = fold spec_step as (spec_step w (abs_state H s))"
    using sys_run_refines [OF assms(1,2,4)] by simp
  then have "fst (abs_state H u) k = fst (spec_step w (abs_state H s)) k"
    "snd (abs_state H u) k = fst (spec_step w (abs_state H s)) k"
    using fold_untouched [of k as "spec_step w (abs_state H s)"] assms(5,9) by simp_all
  moreover have "fst (spec_step w (abs_state H s)) k = ?x"
    using assms(3) by (cases "abs_state H s") auto
  moreover have "\<not> swapping (writer (proto u))"
    using hash_table.sys_reachable_inv [OF assms(1) r(1)] assms(6) inv_lock [of "proto u"]
    by (auto simp: swapping_def holds_lock_def)
  ultimately have "settled H k ?x u" by (simp add: settled_def)
  from settled_run [OF assms(1) r(1) this _ assms(7)] assms(9) have "settled H k ?x t" by simp
  from settled_expected [OF this] new_guard_reads [OF assms(1) r(2) assms(8), of k] show ?thesis by simp
qed

text \<open>
  The guard is created inside the loop of a second publication, by a handle it has not reached: it gets the
  map published before.
\<close>

definition second_publication :: "(nat, nat) sys_action list" where
  "second_publication = begin_write 2 @ [Insert 3 30, Proto DropWriteGuard, Proto WriterStep, Proto (WriterIter [0])]"

theorem insert_publish_get_witness:
  "view_get example_table
     (kheap (handle (sys_example (begin_write 0 @ [Insert 1 10, Insert 2 20] @ end_write @ second_publication @ [Proto (NewGuard 0)]))))
     (vheap (handle (sys_example (begin_write 0 @ [Insert 1 10, Insert 2 20] @ end_write @ second_publication @ [Proto (NewGuard 0)])))) 1
     (map_get (maps (handle (sys_example (begin_write 0 @ [Insert 1 10, Insert 2 20] @ end_write @ second_publication @ [Proto (NewGuard 0)]))))
        (map_index (last (guards (proto (sys_example (begin_write 0 @ [Insert 1 10, Insert 2 20] @ end_write @ second_publication @ [Proto (NewGuard 0)])))))))
   = Inr (Some 10)
   \<and> refcounts_locked (proto (sys_example (begin_write 0 @ [Insert 1 10, Insert 2 20] @ end_write @ second_publication)))"
proof -
  let ?w = "Insert 1 10 :: (nat, nat) sys_action" and ?as = "Insert 2 20 # end_write"
  let ?p = "begin_write 0 @ ?w # ?as"
  let ?s = "sys_example (begin_write 0)" and ?u = "sys_example ?p" and ?t = "sys_example (?p @ second_publication)"
  let ?v = "sys_example ((?p @ second_publication) @ [Proto (NewGuard 0)])"
  have ok: "sys_succeeds (sys_run example_table (begin_write 0) example_init)"
    "sys_succeeds (sys_run example_table ?p example_init)"
    "sys_succeeds (sys_run example_table (?p @ second_publication) example_init)"
    "sys_succeeds (sys_run example_table ((?p @ second_publication) @ [Proto (NewGuard 0)]) example_init)" by code_simp+
  note runs = sys_example_reachable(2) [OF ok(1)] sys_example_reachable(2) [OF ok(2)] sys_example_reachable(2) [OF ok(3)]
    sys_example_reachable(2) [OF ok(4)]
  have "sys_run example_table (?w # ?as) ?s = Some (Inr ?u)"
    using runs(1,2) by (simp only: sys_machine.run_append option.case sum.case)
  moreover have "sys_run example_table second_publication ?u = Some (Inr ?t)"
    using runs(2,3) by (simp only: sys_machine.run_append [of _ ?p] option.case sum.case)
  moreover have "sys_exec example_table (Proto (NewGuard 0)) ?t = Some (Inr ?v)"
    using runs(3,4) by (simp only: sys_machine.run_snoc option.case sum.case)
  moreover have "list_all (\<lambda>a. \<not> touches 1 a) (?as @ second_publication)" "list_ex publishes ?as"
    by (simp_all add: end_write_def second_publication_def begin_write_def numeral_eq_Suc)
  moreover have "\<not> refcounts_locked (proto ?u)" by code_simp
  moreover have "refcounts_locked (proto ?t)" by code_simp
  ultimately show ?thesis
    using insert_publish_get [OF example_hash_table sys_example_reachable(1) [OF ok(1)], of ?w 1 10 ?as ?u second_publication ?t 0 ?v]
    by simp
qed

section \<open>Leaked values and threads\<close>

text \<open>
  C36: \<open>Leaked<V>\<close> is sent to other threads under too weak a bound. For a value type that is \<open>Send\<close> but not \<open>Sync\<close>, such as
  \<open>Cell<u32>\<close>, an \<open>Alias\<close> must stay on its thread but a \<open>Leaked\<close> may leave it, and a state is reachable in which
  a leaked value and a live read guard give out references to the same value of one alias family:
  two threads then share a value that is not \<open>Sync\<close>, without \<open>unsafe\<close> code of the user.
\<close>

theorem leaked_value_shared_across_threads:
  "\<exists>s i l a. sys_reachable example_table example_builder example_env s
     \<and> in_phase i Live (proto s) \<and> l \<in> set (leaked s)
     \<and> hb_get example_table (map_get (maps (handle s)) (map_index (guards (proto s) ! i))) 1 = Some a
     \<and> family a = family (leaked_value l)
     \<and> view_get example_table (kheap (handle s)) (vheap (handle s)) 1
          (map_get (maps (handle s)) (map_index (guards (proto s) ! i))) = Inr (Some 10)
     \<and> leaked_deref l (vheap (handle s)) = Inr 10
     \<and> has Send (Leaked (Param True False)) \<and> \<not> has Sync (Param True False) \<and> \<not> has Send (Alias (Param True False))"
proof -
  let ?s = "sys_example (first_write @ second_write)"
  let ?m = "map_get (maps (handle ?s)) (map_index (guards (proto ?s) ! 0))"
  have live: "in_phase 0 Live (proto ?s)" by code_simp
  have held: "leaked ?s ! 0 \<in> set (leaked ?s)" by (rule nth_mem) code_simp
  have "map_option family (hb_get example_table ?m 1) = Some (family (leaked_value (leaked ?s ! 0)))"
    by code_simp
  then obtain a where same: "hb_get example_table ?m 1 = Some a" "family a = family (leaked_value (leaked ?s ! 0))"
    by (auto simp only: option.map_disc_iff map_option_eq_Some)
  have get: "view_get example_table (kheap (handle ?s)) (vheap (handle ?s)) 1 ?m = Inr (Some 10)"
    "leaked_deref (leaked ?s ! 0) (vheap (handle ?s)) = Inr 10" by code_simp+
  have traits: "has Send (Leaked (Param True False))" "\<not> has Sync (Param True False)"
    "\<not> has Send (Alias (Param True False))"
    by (simp_all add: has.simps thread_safe_bounds_def)
  show ?thesis
    by (rule exI [of _ ?s], rule exI [of _ 0], rule exI [of _ "leaked ?s ! 0"], rule exI [of _ a])
      (intro conjI example_reachable_states(2) live held same get traits)
qed

end
