(* ===== verification/Borrowing.thy ===== *)
theory Borrowing
  imports SystemProps
begin

text \<open>
  Lookups by a borrowed form of the key (\<open>contains_key\<close> and \<open>get\<close> of \<open>src/view.rs\<close> take any \<open>Q\<close> with \<open>K: Borrow<Q>\<close>),
  through \<open>Alias\<close> and \<open>BorrowHelper\<close> of \<open>src/util/aliasing.rs\<close>. The other theories look tables up by the key itself; here
  both are shown to find the same.
\<close>

section \<open>The contracts\<close>

text \<open>What \<open>std::borrow::Borrow\<close> asks of an implementation: hash and equality of the borrowed form are those of the key.\<close>

locale borrowed_form =
  fixes borrow :: "'k \<Rightarrow> 'q"
    and hash_k :: "'k \<Rightarrow> 'h"
    and hash_q :: "'q \<Rightarrow> 'h"
  assumes borrow_eq: "borrow x = borrow y \<longleftrightarrow> x = y"
    and borrow_hash: "hash_q (borrow x) = hash_k x"

text \<open>The same of a form \<open>B\<close> that the stored aliases lend to the table, whose own equality is that of their values.\<close>

definition lends_consistently :: "('k Alias \<Rightarrow> 'q BorrowHelper) \<Rightarrow> ('k \<Rightarrow> 'h) \<Rightarrow> ('q BorrowHelper \<Rightarrow> 'h) \<Rightarrow> bool" where
  "lends_consistently B hash_k hash_b \<longleftrightarrow>
     (\<forall>a b. B a = B b \<longleftrightarrow> aliased a = aliased b) \<and> (\<forall>a. hash_b (B a) = hash_k (aliased a))"

text \<open>
  A table that can also be looked up by forms that its stored keys lend. By its documentation it finds the entry
  whose key lends an equal form, provided that hash and equality are consistent.
\<close>

locale lending_table = hash_table H
  for H :: "('m, 'k, 'v, 's) hashbrown" +
  fixes get_by :: "('k Alias \<Rightarrow> 'q BorrowHelper) \<Rightarrow> 'm \<Rightarrow> 'q BorrowHelper \<Rightarrow> 'v Alias option"
    and contains_by :: "('k Alias \<Rightarrow> 'q BorrowHelper) \<Rightarrow> 'm \<Rightarrow> 'q BorrowHelper \<Rightarrow> bool"
    and hash_k :: "'k \<Rightarrow> 'h"
    and hash_q :: "'q \<Rightarrow> 'h"
  assumes get_by_law: "unique_keys H m \<Longrightarrow> lends_consistently B hash_k (helper_hash hash_q) \<Longrightarrow>
      get_by B m f = map_option snd (find (\<lambda>e. B (fst e) = f) (hb_iter H m))"
    and contains_by_law: "unique_keys H m \<Longrightarrow> lends_consistently B hash_k (helper_hash hash_q) \<Longrightarrow>
      contains_by B m f \<longleftrightarrow> (\<exists>e \<in> set (hb_iter H m). B (fst e) = f)"

section \<open>The operations\<close>

text \<open>What a living alias lends: \<open>alias_borrow\<close> without its fault.\<close>

definition lend :: "('k \<Rightarrow> 'q) \<Rightarrow> 'k Alias \<Rightarrow> 'q BorrowHelper" where
  "lend borrow a = new_ref (borrow (aliased a))"

lemma alias_borrow_lend: "alive h (family a) \<Longrightarrow> alias_borrow borrow a h = Inr (lend borrow a)"
  by (simp add: alias_borrow_def alias_deref_def lend_def)

text \<open>As in \<open>Views\<close>, a lookup may borrow every stored key, so all of them have to be alive.\<close>

definition view_contains_key_by :: "(('k Alias \<Rightarrow> 'q BorrowHelper) \<Rightarrow> 'm \<Rightarrow> 'q BorrowHelper \<Rightarrow> bool) \<Rightarrow> ('k \<Rightarrow> 'q)
    \<Rightarrow> ('m, 'k, 'v, 's) hashbrown \<Rightarrow> heap \<Rightarrow> 'q \<Rightarrow> 'm \<Rightarrow> bool res" where
  "view_contains_key_by contains_by borrow H kh key m =
     (if keys_readable H kh m then Inr (contains_by (lend borrow) m (new_ref key)) else Inl (UB UseAfterFree))"

definition view_get_by :: "(('k Alias \<Rightarrow> 'q BorrowHelper) \<Rightarrow> 'm \<Rightarrow> 'q BorrowHelper \<Rightarrow> 'v Alias option) \<Rightarrow> ('k \<Rightarrow> 'q)
    \<Rightarrow> ('m, 'k, 'v, 's) hashbrown \<Rightarrow> heap \<Rightarrow> heap \<Rightarrow> 'q \<Rightarrow> 'm \<Rightarrow> 'v option res" where
  "view_get_by get_by borrow H kh vh key m =
     (if keys_readable H kh m
      then case get_by (lend borrow) m (new_ref key) of
             None \<Rightarrow> Inr None
           | Some a \<Rightarrow> bind_res (alias_deref a vh) (\<lambda>v. Inr (Some v))
      else Inl (UB UseAfterFree))"

section \<open>Both lookups agree\<close>

text \<open>The contract of \<open>K: Borrow<Q>\<close> carries over to \<open>Alias<K>: Borrow<BorrowHelper<Q>>\<close>.\<close>

context borrowed_form
begin

lemma lend_consistent: "lends_consistently (lend borrow) hash_k (helper_hash hash_q)"
  by (simp add: lends_consistently_def lend_def new_ref_def helper_hash_def borrow_eq borrow_hash)

lemma lend_finds:
  "map_of (keyed es) k = find (\<lambda>e. lend borrow (fst e) = new_ref (borrow k)) es"
  by (induction es) (simp_all add: keyed_def lend_def new_ref_def entry_key_def borrow_eq)

lemma lend_key: "lend borrow (fst e) = new_ref q \<longleftrightarrow> borrow (entry_key e) = q"
  by (simp add: lend_def new_ref_def entry_key_def)

end

locale borrowed_lookup = lending_table H get_by contains_by hash_k hash_q + borrowed_form borrow hash_k hash_q
  for H :: "('m, 'k, 'v, 's) hashbrown"
    and get_by :: "('k Alias \<Rightarrow> 'q BorrowHelper) \<Rightarrow> 'm \<Rightarrow> 'q BorrowHelper \<Rightarrow> 'v Alias option"
    and contains_by :: "('k Alias \<Rightarrow> 'q BorrowHelper) \<Rightarrow> 'm \<Rightarrow> 'q BorrowHelper \<Rightarrow> bool"
    and hash_k :: "'k \<Rightarrow> 'h"
    and hash_q :: "'q \<Rightarrow> 'h"
    and borrow :: "'k \<Rightarrow> 'q"
begin

lemma get_by_key: "unique_keys H m \<Longrightarrow> get_by (lend borrow) m (new_ref (borrow k)) = hb_get H m k"
  by (simp add: get_by_law lend_consistent get_law content_of_def lend_finds)

lemma get_by_foreign:
  assumes "unique_keys H m" "q \<notin> borrow ` dom (content_of H m)"
  shows "get_by (lend borrow) m (new_ref q) = None"
proof -
  have "borrow (entry_key e) \<noteq> q" if "e \<in> set (hb_iter H m)" for e
    using that assms(2) by (auto simp: content_of_def dom_keyed)
  then have "find (\<lambda>e. lend borrow (fst e) = new_ref q) (hb_iter H m) = None"
    unfolding find_None_iff lend_key by blast
  then show ?thesis by (simp only: get_by_law [OF assms(1) lend_consistent] option.map)
qed

lemma contains_by_iff:
  assumes "unique_keys H m"
  shows "contains_by (lend borrow) m (new_ref q) \<longleftrightarrow> q \<in> borrow ` dom (content_of H m)"
  by (auto simp: contains_by_law [OF assms lend_consistent] lend_key content_of_def dom_keyed)

lemma view_get_by_ok:
  assumes "readable H kh vh m"
  shows "view_get_by get_by borrow H kh vh (borrow k) m = Inr (values_of (content_of H m) k)"
    and "q \<notin> borrow ` dom (values_of (content_of H m)) \<Longrightarrow> view_get_by get_by borrow H kh vh q m = Inr None"
    and "view_contains_key_by contains_by borrow H kh q m = Inr (q \<in> borrow ` dom (values_of (content_of H m)))"
proof -
  have u: "unique_keys H m" and k: "keys_readable H kh m"
    using assms by (simp_all add: readable_def keys_readable_iff)
  have "view_get_by get_by borrow H kh vh (borrow k) m = view_get H kh vh k m"
    by (simp add: view_get_by_def view_get_def get_by_key [OF u])
  then show "view_get_by get_by borrow H kh vh (borrow k) m = Inr (values_of (content_of H m) k)"
    by (simp add: view_get_ok [OF assms])
  show "q \<notin> borrow ` dom (values_of (content_of H m)) \<Longrightarrow> view_get_by get_by borrow H kh vh q m = Inr None"
    by (simp add: view_get_by_def k get_by_foreign [OF u] dom_values_of)
  show "view_contains_key_by contains_by borrow H kh q m = Inr (q \<in> borrow ` dom (values_of (content_of H m)))"
    by (simp add: view_contains_key_by_def k contains_by_iff [OF u] dom_values_of)
qed

end

section \<open>Association lists by borrowed forms\<close>

definition list_get_by :: "('k Alias \<Rightarrow> 'q BorrowHelper) \<Rightarrow> ('k, 'v) entry list \<Rightarrow> 'q BorrowHelper \<Rightarrow> 'v Alias option" where
  "list_get_by B m f = map_option snd (find (\<lambda>e. B (fst e) = f) m)"

definition list_contains_by :: "('k Alias \<Rightarrow> 'q BorrowHelper) \<Rightarrow> ('k, 'v) entry list \<Rightarrow> 'q BorrowHelper \<Rightarrow> bool" where
  "list_contains_by B m f = list_ex (\<lambda>e. B (fst e) = f) m"

interpretation list_lending: lending_table list_map list_get_by list_contains_by hash_k hash_q
  for hash_k :: "'k \<Rightarrow> 'h" and hash_q :: "'q \<Rightarrow> 'h"
  by unfold_locales (simp_all add: list_get_by_def list_contains_by_def list_map_def list_ex_iff)

text \<open>The keys themselves are a borrowed form; the write guard and the log use this one.\<close>

interpretation own_form: borrowed_form "\<lambda>k. k" hash hash for hash :: "'k \<Rightarrow> 'h"
  by unfold_locales simp_all

section \<open>Property\<close>

text \<open>
  C19: through a live read guard, a key may be looked up by any borrowed form that meets the contract of \<open>Borrow\<close>: \<open>get\<close> of
  the borrowed form of a key finds what the guard's map has for the key, \<open>get\<close> of a form that no stored key lends finds
  nothing, and \<open>contains_key\<close> holds exactly for the forms that stored keys lend. The detour through
  \<open>BorrowHelper\<close> and the borrow of an alias changes nothing and touches only living keys.
\<close>

theorem borrowed_lookup_through_guard:
  assumes "borrowed_lookup H get_by contains_by hash_k hash_q borrow"
    and "sys_reachable H b env s" "in_phase i Live (proto s)"
  defines "m \<equiv> map_get (maps (handle s)) (map_index (guards (proto s) ! i))"
    and "M \<equiv> view_of H (map_index (guards (proto s) ! i)) (handle s)"
  shows "view_get_by get_by borrow H (kheap (handle s)) (vheap (handle s)) (borrow k) m = Inr (M k)
     \<and> (q \<notin> borrow ` dom M \<longrightarrow> view_get_by get_by borrow H (kheap (handle s)) (vheap (handle s)) q m = Inr None)
     \<and> view_contains_key_by contains_by borrow H (kheap (handle s)) q m = Inr (q \<in> borrow ` dom M)
     \<and> (\<forall>e\<in>set (hb_iter H m). alias_borrow borrow (fst e) (kheap (handle s)) = Inr (new_ref (borrow (entry_key e))))"
proof -
  have H: "hash_table H" using assms(1) by (simp add: borrowed_lookup_def lending_table_def)
  have r: "readable H (kheap (handle s)) (vheap (handle s)) m"
    unfolding m_def by (rule guard_map_readable [OF H live_not_dropped(1) [OF H assms(2,3)] assms(3)])
  have M: "M = values_of (content_of H m)" by (simp add: M_def m_def view_of_def)
  have "alias_borrow borrow (fst e) (kheap (handle s)) = Inr (new_ref (borrow (entry_key e)))" if "e \<in> set (hb_iter H m)" for e
    using readable_entries(1) [OF r that] by (simp add: alias_borrow_def entry_key_def)
  with borrowed_lookup.view_get_by_ok [OF assms(1) r] M show ?thesis by simp
qed

text \<open>Natural numbers, looked up as integers.\<close>

lemma example_borrowed_lookup: "borrowed_lookup example_table list_get_by list_contains_by (\<lambda>k. k) nat int"
  by (intro borrowed_lookup.intro list_lending.lending_table_axioms borrowed_form.intro) simp_all

theorem borrowed_lookup_through_guard_witness:
  "view_get_by list_get_by int example_table (kheap (handle (sys_example first_write)))
     (vheap (handle (sys_example first_write))) 1
     (map_get (maps (handle (sys_example first_write))) (map_index (guards (proto (sys_example first_write)) ! 0)))
   = Inr (Some 10)"
proof -
  have "in_phase 0 Live (proto (sys_example first_write))" by code_simp
  moreover have "view_of example_table (map_index (guards (proto (sys_example first_write)) ! 0))
      (handle (sys_example first_write)) 1 = Some 10" by code_simp
  ultimately show ?thesis
    using borrowed_lookup_through_guard [OF example_borrowed_lookup example_reachable_states(1), of 0 1 0] by simp
qed

end
