(* ===== verification/Ordering.thy ===== *)
theory Ordering
  imports Protocol
begin

text \<open>
  The memory orderings of \<open>src/core/mod.rs\<close> and \<open>src/core/refcount.rs\<close>, and the accesses of the two maps
  through the cells of \<open>src/util/loom.rs\<close>. The steps are those of \<open>Protocol\<close>; beside the values this theory
  tracks which accesses of the maps happen before what. Every access of a map is an event with a
  number of its own; a view is the set of the events that happen before a point of a thread, or
  that a value of an atomic or the mutex hands to whoever acquires it. An operation moves views
  only as far as its \<open>Ordering\<close> allows, so a weaker ordering in the source is a smaller view here.
\<close>

section \<open>Orderings and views\<close>

datatype ordering = Relaxed | Acquire | Release | AcqRel

fun acquires :: "ordering \<Rightarrow> bool" where
  "acquires Acquire = True"
| "acquires AcqRel = True"
| "acquires _ = False"

fun releases :: "ordering \<Rightarrow> bool" where
  "releases Release = True"
| "releases AcqRel = True"
| "releases _ = False"

type_synonym view = "nat set"

text \<open>
  The views of a thread: the events before its current point, those an acquire fence would
  add, and those before its last release fence.
\<close>

record thread_view =
  cur :: view
  acq :: view
  rel :: view

text \<open>
  A load of a value that carries the view \<open>L\<close>, the view a store attaches to its value, and a
  read-modify-write: what it writes continues the release sequence of the value it reads.
\<close>

definition atomic_load :: "ordering \<Rightarrow> view \<Rightarrow> thread_view \<Rightarrow> thread_view" where
  "atomic_load ord L t =
     (if acquires ord then t\<lparr>cur := cur t \<union> L, acq := acq t \<union> L\<rparr> else t\<lparr>acq := acq t \<union> L\<rparr>)"

definition atomic_store :: "ordering \<Rightarrow> thread_view \<Rightarrow> view" where
  "atomic_store ord t = (if releases ord then cur t else rel t)"

definition atomic_rmw :: "ordering \<Rightarrow> view \<Rightarrow> thread_view \<Rightarrow> view \<times> thread_view" where
  "atomic_rmw ord L t = (let t' = atomic_load ord L t in (L \<union> atomic_store ord t', t'))"

definition fence_acquire :: "thread_view \<Rightarrow> thread_view" where
  "fence_acquire t = t\<lparr>cur := cur t \<union> acq t\<rparr>"

definition fence_release :: "thread_view \<Rightarrow> thread_view" where
  "fence_release t = t\<lparr>rel := cur t\<rparr>"

section \<open>Cells\<close>

text \<open>
  The \<open>UnsafeCell\<close> around a map, as the accesses made of it so far. A shared access races
  unless every write happens before it, an exclusive one unless every access does.
\<close>

record cell =
  reads :: view
  writes :: view

definition cell_new :: cell where
  "cell_new = \<lparr>reads = {}, writes = {}\<rparr>"

definition cell_with :: "nat \<Rightarrow> view \<Rightarrow> cell \<Rightarrow> cell res" where
  "cell_with e V c =
     (if writes c \<subseteq> V then Inr (c\<lparr>reads := insert e (reads c)\<rparr>) else Inl (UB DataRace))"

definition cell_with_mut :: "nat \<Rightarrow> view \<Rightarrow> cell \<Rightarrow> cell res" where
  "cell_with_mut e V c =
     (if reads c \<union> writes c \<subseteq> V then Inr (c\<lparr>writes := insert e (writes c)\<rparr>) else Inl (UB DataRace))"

section \<open>State\<close>

text \<open>
  Beside the protocol state: the views of the writer and of each guard, the views the words of
  the reference counts, the residual counter and the mutex carry, and for each read handle what
  happens before any use of it (\<open>handle_view\<close>) and what its dropped guards had seen
  (\<open>dropped_view\<close>, which happens before the drop of the handle: the guards borrow it).
  \<open>thread_cell\<close> is the cell \<open>writer_thread\<close>; \<open>unpark\<close> hands on what its caller has seen with the
  token. \<open>index_cell\<close> is the cell \<open>writer_map\<close>, and \<open>arc_view\<close> what the dropped handles had seen when they gave up
  their \<open>Arc\<close> of the core.
\<close>

record ostate =
  core_state :: state
  writer_view :: thread_view
  guard_views :: "thread_view list"
  refcount_view :: "slab_key \<Rightarrow> view"
  handle_view :: "slab_key \<Rightarrow> view"
  dropped_view :: "slab_key \<Rightarrow> view"
  residual_view :: view
  mutex_view :: view
  cells :: "MapIndex \<Rightarrow> cell"
  thread_cell :: cell
  token_view :: "tid \<Rightarrow> view"
  index_cell :: cell
  arc_view :: view
  next_event :: nat

definition build_order :: "state \<Rightarrow> ostate" where
  "build_order s =
     \<lparr>core_state = s, writer_view = \<lparr>cur = {}, acq = {}, rel = {}\<rparr>, guard_views = [],
      refcount_view = (\<lambda>_. {}), handle_view = (\<lambda>_. {}), dropped_view = (\<lambda>_. {}),
      residual_view = {}, mutex_view = {}, cells = (\<lambda>_. cell_new), thread_cell = cell_new,
      token_view = (\<lambda>_. {}), index_cell = cell_new, arc_view = {}, next_event = 0\<rparr>"

section \<open>What each operation makes visible\<close>

text \<open>
  \<open>new_reader\<close> and \<open>release_refcount\<close> lock and unlock the mutex. The first reads \<open>writer_map\<close> under it, and clones the \<open>Arc\<close>,
  which orders nothing; the second is followed by the drop of the handle's \<open>Arc\<close>, whose decrement releases.
\<close>

definition new_reader_view :: "slab_key \<Rightarrow> slab_key \<Rightarrow> ostate \<Rightarrow> ostate" where
  "new_reader_view from key x =
     (let e = next_event x; v = insert e (handle_view x from \<union> mutex_view x) in
      x\<lparr>mutex_view := v, handle_view := (handle_view x)(key := v),
        refcount_view := (refcount_view x)(key := {}), dropped_view := (dropped_view x)(key := {}),
        index_cell := (index_cell x)\<lparr>reads := insert e (reads (index_cell x))\<rparr>, next_event := Suc e\<rparr>)"

definition release_refcount_view :: "slab_key \<Rightarrow> ostate \<Rightarrow> ostate" where
  "release_refcount_view key x =
     (let v = mutex_view x \<union> (handle_view x key \<union> dropped_view x key) in
      x\<lparr>mutex_view := v, arc_view := arc_view x \<union> v\<rparr>)"

text \<open>A guard starts from what happens before the use of its handle.\<close>

definition increment_view :: "slab_key \<Rightarrow> ostate \<Rightarrow> ostate" where
  "increment_view key x =
     (let (L, t) = atomic_rmw Acquire (refcount_view x key)
                     \<lparr>cur = handle_view x key, acq = handle_view x key, rel = {}\<rparr> in
      x\<lparr>refcount_view := (refcount_view x)(key := L), guard_views := guard_views x @ [t]\<rparr>)"

definition decrement_view :: "slab_key \<Rightarrow> nat \<Rightarrow> ostate \<Rightarrow> ostate" where
  "decrement_view key i x =
     (let (L, t) = atomic_rmw Release (refcount_view x key) (guard_views x ! i) in
      x\<lparr>refcount_view := (refcount_view x)(key := L), guard_views := (guard_views x)[i := t]\<rparr>)"

definition swap_maps_view :: "slab_key \<Rightarrow> ostate \<Rightarrow> ostate" where
  "swap_maps_view key x =
     (let (L, t) = atomic_rmw Relaxed (refcount_view x key) (writer_view x) in
      x\<lparr>refcount_view := (refcount_view x)(key := L), writer_view := t\<rparr>)"

text \<open>The end of a guard's drop, seen by the drop of its handle.\<close>

definition guard_done_view :: "slab_key \<Rightarrow> nat \<Rightarrow> ostate \<Rightarrow> ostate" where
  "guard_done_view key i x =
     x\<lparr>dropped_view := (dropped_view x)(key := dropped_view x key \<union> cur (guard_views x ! i))\<rparr>"

definition release_residual_view :: "nat \<Rightarrow> ostate \<Rightarrow> ostate" where
  "release_residual_view i x =
     (let (L, t) = atomic_rmw AcqRel (residual_view x) (guard_views x ! i) in
      x\<lparr>residual_view := L, guard_views := (guard_views x)[i := t]\<rparr>)"

definition release_store_zero_view :: "nat \<Rightarrow> ostate \<Rightarrow> ostate" where
  "release_store_zero_view i x = x\<lparr>residual_view := atomic_store Release (guard_views x ! i)\<rparr>"

text \<open>
  The read of \<open>writer_thread\<close>, and the \<open>unpark\<close> of the thread found there (on \<open>None\<close> the step itself panics, so no
  view moves).
\<close>

definition release_unpark_view :: "nat \<Rightarrow> ostate \<Rightarrow> ostate" where
  "release_unpark_view i x =
     (let e = next_event x; v = guard_views x ! i; v' = v\<lparr>cur := insert e (cur v)\<rparr>;
          t = the (writer_thread (core_state x)) in
      x\<lparr>guard_views := (guard_views x)[i := v'],
        thread_cell := (thread_cell x)\<lparr>reads := insert e (reads (thread_cell x))\<rparr>,
        token_view := (token_view x)(t := token_view x t \<union> cur v'), next_event := Suc e\<rparr>)"

definition sync_set_thread_view :: "ostate \<Rightarrow> ostate" where
  "sync_set_thread_view x =
     (let e = next_event x; w = writer_view x in
      x\<lparr>writer_view := w\<lparr>cur := insert e (cur w)\<rparr>,
        thread_cell := (thread_cell x)\<lparr>writes := insert e (writes (thread_cell x))\<rparr>, next_event := Suc e\<rparr>)"

definition sync_park_view :: "ostate \<Rightarrow> ostate" where
  "sync_park_view x =
     (let w = writer_view x; t = writer_tid (core_state x) in
      x\<lparr>writer_view := w\<lparr>cur := cur w \<union> token_view x t, acq := acq w \<union> token_view x t\<rparr>\<rparr>)"

definition sync_load_view :: "ostate \<Rightarrow> ostate" where
  "sync_load_view x = x\<lparr>writer_view := atomic_load Acquire (residual_view x) (writer_view x)\<rparr>"

definition sync_fetch_add_view :: "ostate \<Rightarrow> ostate" where
  "sync_fetch_add_view x =
     (let (L, t) = atomic_rmw AcqRel (residual_view x) (writer_view x) in
      x\<lparr>writer_view := t, residual_view := L\<rparr>)"

definition sync_reload_view :: "ostate \<Rightarrow> ostate" where
  "sync_reload_view x = x\<lparr>writer_view := atomic_load Acquire (residual_view x) (writer_view x)\<rparr>"

definition sync_store_zero_view :: "ostate \<Rightarrow> ostate" where
  "sync_store_zero_view x = x\<lparr>residual_view := atomic_store Release (writer_view x)\<rparr>"

text \<open>\<open>publish\<close>: a release fence, the mutex around the loop, a relaxed addition and an acquire fence.\<close>

definition publish_lock_view :: "ostate \<Rightarrow> ostate" where
  "publish_lock_view x =
     (let t = fence_release (atomic_load Relaxed (residual_view x) (writer_view x)) in
      x\<lparr>writer_view := t\<lparr>cur := cur t \<union> mutex_view x, acq := acq t \<union> mutex_view x\<rparr>\<rparr>)"

text \<open>The write of \<open>writer_map\<close>, under the mutex.\<close>

definition publish_set_map_view :: "ostate \<Rightarrow> ostate" where
  "publish_set_map_view x =
     (let e = next_event x; w = writer_view x in
      x\<lparr>writer_view := w\<lparr>cur := insert e (cur w)\<rparr>,
        index_cell := (index_cell x)\<lparr>writes := insert e (writes (index_cell x))\<rparr>, next_event := Suc e\<rparr>)"

definition publish_unlock_view :: "ostate \<Rightarrow> ostate" where
  "publish_unlock_view x = x\<lparr>mutex_view := mutex_view x \<union> cur (writer_view x)\<rparr>"

definition publish_fetch_add_view :: "ostate \<Rightarrow> ostate" where
  "publish_fetch_add_view x =
     (let (L, t) = atomic_rmw Relaxed (residual_view x) (writer_view x) in
      x\<lparr>writer_view := fence_acquire t, residual_view := L\<rparr>)"

text \<open>The end of the drop of the write handle: its \<open>Arc\<close> is dropped.\<close>

definition drop_write_handle_view :: "ostate \<Rightarrow> ostate" where
  "drop_write_handle_view x = x\<lparr>arc_view := arc_view x \<union> cur (writer_view x)\<rparr>"

fun writer_step_view :: "writer_pc \<Rightarrow> ostate \<Rightarrow> ostate" where
  "writer_step_view (SyncLoad c) x = sync_load_view x"
| "writer_step_view (SyncSetThread c) x = sync_set_thread_view x"
| "writer_step_view (SyncFetchAdd c) x = sync_fetch_add_view x"
| "writer_step_view (SyncPark c) x = sync_park_view x"
| "writer_step_view (SyncReload c) x = sync_reload_view x"
| "writer_step_view (SyncStoreZero c) x = sync_store_zero_view x"
| "writer_step_view PubLock x = publish_lock_view x"
| "writer_step_view (PubSwap (k # ks) a) x = swap_maps_view k x"
| "writer_step_view (PubUnlock a) x = publish_unlock_view x"
| "writer_step_view (PubFetchAdd a) x = publish_fetch_add_view x"
| "writer_step_view Closing x = drop_write_handle_view x"
| "writer_step_view _ x = x"

text \<open>
  The effect of a protocol step from \<open>core_state x\<close> to \<open>s'\<close>. Sending the write handle to another thread orders
  that thread after the old one, so the view of the writer stays.
\<close>

definition guard_key :: "nat \<Rightarrow> ostate \<Rightarrow> slab_key" where
  "guard_key i x = refcount_key (guards (core_state x) ! i)"

definition done_if_released :: "nat \<Rightarrow> state \<Rightarrow> ostate \<Rightarrow> ostate" where
  "done_if_released i s' x = (if in_phase i Released s' then guard_done_view (guard_key i x) i x else x)"

fun step_view :: "action \<Rightarrow> state \<Rightarrow> ostate \<Rightarrow> ostate" where
  "step_view (CloneReader from key) s' x = new_reader_view from key x"
| "step_view (DropReader key) s' x = release_refcount_view key x"
| "step_view (NewGuard key) s' x = increment_view key x"
| "step_view (DropGuard i) s' x = done_if_released i s' (decrement_view (guard_key i x) i x)"
| "step_view (ReleaseResidual i) s' x = done_if_released i s' (release_residual_view i x)"
| "step_view (ReleaseStoreZero i) s' x = release_store_zero_view i x"
| "step_view (ReleaseUnpark i) s' x = done_if_released i s' (release_unpark_view i x)"
| "step_view WriterStep s' x = writer_step_view (writer (core_state x)) x"
| "step_view (WriterIter ks) s' x = publish_set_map_view x"
| "step_view _ s' x = x"

section \<open>Accesses of the maps\<close>

text \<open>A guard reads the map it was given; \<open>with_map\<close> of \<open>src/read.rs\<close>.\<close>

definition reader_with_map :: "nat \<Rightarrow> ostate \<Rightarrow> ostate step" where
  "reader_with_map i x =
     (if \<not> in_phase i Live (core_state x) then None
      else let m = map_index (guards (core_state x) ! i); e = next_event x; t = guard_views x ! i in
        Some (bind_res (cell_with e (cur t) (cells x m)) (\<lambda>c. Inr (x\<lparr>
          cells := (cells x)(m := c), guard_views := (guard_views x)[i := t\<lparr>cur := insert e (cur t)\<rparr>],
          next_event := Suc e\<rparr>))))"

text \<open>
  The writer has the map at \<open>writer_map\<close> to itself between \<open>synchronize\<close> and \<open>publish\<close>: it replays the log
  in \<open>guard\<close>, changes and reads the map through the write guard, and destroys values that were in it when
  they are reclaimed or the handle is dropped.
\<close>

definition writer_has_map :: "writer_pc \<Rightarrow> bool" where
  "writer_has_map pc \<longleftrightarrow> pc \<in> {Flushing, Writing, Reclaiming, Closing}"

definition writer_access :: "(nat \<Rightarrow> view \<Rightarrow> cell \<Rightarrow> cell res) \<Rightarrow> ostate \<Rightarrow> ostate step" where
  "writer_access access x =
     (if \<not> writer_has_map (writer (core_state x)) then None
      else let m = writer_map (core_state x); e = next_event x; t = writer_view x in
        Some (bind_res (access e (cur t) (cells x m)) (\<lambda>c. Inr (x\<lparr>
          cells := (cells x)(m := c), writer_view := t\<lparr>cur := insert e (cur t)\<rparr>, next_event := Suc e\<rparr>))))"

text \<open>
  The accesses of \<open>writer_thread\<close> are recorded as they happen; they race when the next of them is not
  ordered after a conflicting one: the write of \<open>synchronize\<close>, or the read of a guard about to unpark.
\<close>

definition thread_cell_race :: "ostate \<Rightarrow> bool" where
  "thread_cell_race x \<longleftrightarrow>
     (\<exists>c. writer (core_state x) = SyncSetThread c)
       \<and> \<not> reads (thread_cell x) \<union> writes (thread_cell x) \<subseteq> cur (writer_view x)
     \<or> (\<exists>i<length (guards (core_state x)). phase (guards (core_state x) ! i) = Unparking
          \<and> \<not> writes (thread_cell x) \<subseteq> cur (guard_views x ! i))"

text \<open>
  Likewise the accesses of \<open>writer_map\<close>: the write of \<open>publish\<close>, and the read of a thread that clones one of the
  handles. The writer's own reads come before its writes in program order, and no other thread writes the cell.
\<close>

definition index_cell_race :: "ostate \<Rightarrow> bool" where
  "index_cell_race x \<longleftrightarrow>
     writer (core_state x) = PubSetMap \<and> \<not> reads (index_cell x) \<union> writes (index_cell x) \<subseteq> cur (writer_view x)
     \<or> \<not> refcounts_locked (core_state x) \<and>
       (\<exists>k\<in>fst ` set (refcounts (core_state x)). \<not> writes (index_cell x) \<subseteq> handle_view x k \<union> mutex_view x)"

text \<open>
  The drop of the core, by whoever drops the last \<open>Arc\<close> and thereby acquires what the others released: it reads
  \<open>writer_map\<close>, drains one map through \<open>with_mut\<close>, and frees both maps and the cells \<open>writer_thread\<close> and \<open>writer_map\<close>.
\<close>

definition core_drop_view :: "ostate \<Rightarrow> unit step" where
  "core_drop_view x =
     (if writer (core_state x) = Closed \<and> refcounts (core_state x) = []
      then Some (bind_res (cell_with (next_event x) (arc_view x) (index_cell x)) (\<lambda>u.
           bind_res (cell_with_mut (next_event x) (arc_view x) (cells x (other (writer_map (core_state x))))) (\<lambda>u.
           bind_res (cell_with_mut (next_event x) (arc_view x) (cells x (writer_map (core_state x)))) (\<lambda>u.
           bind_res (cell_with_mut (next_event x) (arc_view x) (thread_cell x)) (\<lambda>u.
           bind_res (cell_with_mut (next_event x) (arc_view x) (index_cell x)) (\<lambda>u. Inr ()))))))
      else None)"

section \<open>Stale loads\<close>

text \<open>
  A load need not see the newest value. Every read-modify-write does, and all accesses but the
  two loads of \<open>synchronize\<close> are such or are stores nobody competes with. The first load may miss the
  last decrements, and then finds a residual it need not wait for; the one after \<open>park\<close> may miss the final
  store of zero, unless the wake-up that follows that store has been taken. Such a load sees a
  nonzero value; it is given no view at all.
\<close>

definition sync_load_stale :: "ostate \<Rightarrow> ostate step" where
  "sync_load_stale x =
     (case writer (core_state x) of
        SyncLoad c \<Rightarrow> ok (x\<lparr>core_state := (core_state x)\<lparr>writer := SyncSetThread c\<rparr>\<rparr>)
      | _ \<Rightarrow> None)"

definition sync_reload_stale :: "ostate \<Rightarrow> ostate step" where
  "sync_reload_stale x =
     (let s = core_state x in
      case writer s of
        SyncReload c \<Rightarrow>
          (if residual s \<noteq> 0 \<or> tokens s (writer_tid s) \<or> (\<exists>g\<in>set (guards s). phase g = Unparking)
           then ok (x\<lparr>core_state := s\<lparr>writer := SyncPark c\<rparr>\<rparr>) else None)
      | _ \<Rightarrow> None)"

section \<open>The step relation\<close>

datatype oaction =
    CoreStep action
  | LoadStale
  | ReloadStale
  | ReaderRead nat
  | WriterRead
  | WriterWrite

fun oexec :: "oaction \<Rightarrow> ostate \<Rightarrow> ostate step" where
  "oexec (CoreStep a) x =
     map_option (\<lambda>r. bind_res r (\<lambda>s'. Inr ((step_view a s' x)\<lparr>core_state := s'\<rparr>))) (exec a (core_state x))"
| "oexec LoadStale x = sync_load_stale x"
| "oexec ReloadStale x = sync_reload_stale x"
| "oexec (ReaderRead i) x = reader_with_map i x"
| "oexec WriterRead x = writer_access cell_with x"
| "oexec WriterWrite x = writer_access cell_with_mut x"

fun orun :: "oaction list \<Rightarrow> ostate \<Rightarrow> ostate step" where
  "orun [] x = ok x"
| "orun (a # as) x =
     (case oexec a x of None \<Rightarrow> None | Some (Inl e) \<Rightarrow> Some (Inl e) | Some (Inr x') \<Rightarrow> orun as x')"

inductive oreachable :: "(oaction \<Rightarrow> bool) \<Rightarrow> ostate \<Rightarrow> bool" for A where
  init: "build_map t key = Some (Inr s) \<Longrightarrow> oreachable A (build_order s)"
| step: "oreachable A x \<Longrightarrow> A a \<Longrightarrow> oexec a x = Some (Inr x') \<Longrightarrow> oreachable A x'"

interpretation order_machine: machine oexec orun "oreachable A" A for A
  by unfold_locales (auto intro: oreachable.step split: option.splits sum.splits)

end
