(* ===== verification/OrderingInv.thy ===== *)
theory OrderingInv
  imports Ordering CoreProps
begin

text \<open>
  The happens-before invariant of \<open>Ordering\<close>: where, at every program point, the accesses of each map
  are recorded that the next thread to use the map will have to see. It gives that no access of
  a map races.
\<close>

section \<open>Where an access is recorded\<close>

text \<open>The events seen by the guards that satisfy \<open>P\<close>.\<close>

definition seen :: "(ReadGuard \<Rightarrow> bool) \<Rightarrow> ReadGuard list \<Rightarrow> thread_view list \<Rightarrow> view" where
  "seen P gs vs = {e. \<exists>(g, v)\<in>set (zip gs vs). P g \<and> e \<in> cur v}"

lemma seen_nth:
  "length gs = length vs \<Longrightarrow> seen P gs vs = {e. \<exists>j<length gs. P (gs ! j) \<and> e \<in> cur (vs ! j)}"
  by (force simp: seen_def set_zip)

lemma seen_append:
  "length gs = length vs \<Longrightarrow> seen P (gs @ [g]) (vs @ [v]) = seen P gs vs \<union> (if P g then cur v else {})"
  by (auto simp: seen_def)

lemma seen_update:
  assumes "i < length gs" "length gs = length vs"
  shows "seen P (gs[i := g]) (vs[i := v])
     = {e. \<exists>j<length gs. j \<noteq> i \<and> P (gs ! j) \<and> e \<in> cur (vs ! j)} \<union> (if P g then cur v else {})"
  using assms by (auto simp: seen_nth nth_list_update split: if_splits) 

lemma seen_split:
  assumes "i < length gs" "length gs = length vs"
  shows "seen P gs vs
     = {e. \<exists>j<length gs. j \<noteq> i \<and> P (gs ! j) \<and> e \<in> cur (vs ! j)} \<union> (if P (gs ! i) then cur (vs ! i) else {})"
  using assms by (auto simp: seen_nth)

lemma seen_update_subset:
  assumes "i < length gs" "length gs = length vs" "P (gs ! i) \<Longrightarrow> cur (vs ! i) \<subseteq> (if P g then cur v else {}) \<union> X"
  shows "seen P gs vs \<subseteq> seen P (gs[i := g]) (vs[i := v]) \<union> X"
  unfolding seen_update [OF assms(1,2)] seen_split [OF assms(1,2)] using assms(3) by (auto split: if_splits)

section \<open>The invariant\<close>

definition on_writer_map :: "state \<Rightarrow> ReadGuard \<Rightarrow> bool" where
  "on_writer_map s g \<longleftrightarrow> phase g = Releasing \<or> phase g = Live \<and> map_index g = writer_map s"

definition on_reader_map :: "state \<Rightarrow> ReadGuard \<Rightarrow> bool" where
  "on_reader_map s g \<longleftrightarrow> phase g = Live \<and> map_index g \<noteq> writer_map s"

text \<open>Between the loop of \<open>publish\<close> and its acquire fence.\<close>

definition summing :: "writer_pc \<Rightarrow> bool" where
  "summing pc = (case pc of PubSwap ks a \<Rightarrow> True | PubUnlock a \<Rightarrow> True | PubFetchAdd a \<Rightarrow> True | _ \<Rightarrow> False)"

definition keys :: "state \<Rightarrow> slab_key set" where
  "keys s = fst ` set (refcounts s)"

text \<open>
  A read of the writer's map is in the view of the writer, or on its way there: acquired but not
  fenced, in the residual counter, in a reference count the loop has yet to visit, or with a
  guard that has not left. A read of the readers' map is also kept by the reference count and by the
  handle of a guard that left, or by the mutex once that handle is gone.
\<close>

definition writer_cover :: "ostate \<Rightarrow> view" where
  "writer_cover x =
     (let s = core_state x; pc = writer s in
      cur (writer_view x) \<union> (if summing pc then acq (writer_view x) else {}) \<union> residual_view x
      \<union> (\<Union>k\<in>set (todo pc). refcount_view x k) \<union> seen (on_writer_map s) (guards s) (guard_views x))"

definition reader_cover :: "ostate \<Rightarrow> view" where
  "reader_cover x =
     (let s = core_state x in
      cur (writer_view x) \<union> mutex_view x \<union> (\<Union>k\<in>keys s. refcount_view x k \<inter> dropped_view x k)
      \<union> seen (on_reader_map s) (guards s) (guard_views x))"

definition reads_ok :: "ostate \<Rightarrow> bool" where
  "reads_ok x \<longleftrightarrow>
     (let s = core_state x; m = writer_map s in
      reads (cells x m) \<subseteq> writer_cover x \<and> reads (cells x (other m)) \<subseteq> reader_cover x
      \<and> (exclusive (writer s) \<longrightarrow> reads (cells x m) \<subseteq> cur (writer_view x)))"

definition writes_ok :: "ostate \<Rightarrow> bool" where
  "writes_ok x \<longleftrightarrow>
     (let s = core_state x; m = writer_map s in
      (\<forall>m. writes (cells x m) \<subseteq> cur (writer_view x))
      \<and> (\<forall>i<length (guards s). phase (guards s ! i) = Live \<longrightarrow>
            writes (cells x (map_index (guards s ! i))) \<subseteq> cur (guard_views x ! i))
      \<and> (\<forall>k\<in>keys s. writes (cells x (expected s k)) \<subseteq> handle_view x k \<union> refcount_view x k)
      \<and> (if refcounts_locked s then mutex_view x \<subseteq> cur (writer_view x) \<and> (\<forall>m. writes (cells x m) \<subseteq> rel (writer_view x))
         else writes (cells x (other m)) \<subseteq> mutex_view x))"

text \<open>Whoever is about to overwrite the residual counter has acquired what it carries.\<close>

definition zero_ok :: "ostate \<Rightarrow> bool" where
  "zero_ok x \<longleftrightarrow>
     (\<forall>i<length (guards (core_state x)). phase (guards (core_state x) ! i) = ZeroStore \<longrightarrow>
        residual_view x \<subseteq> cur (guard_views x ! i))
     \<and> (\<forall>c. writer (core_state x) = SyncStoreZero c \<longrightarrow> residual_view x \<subseteq> cur (writer_view x))"

definition oinv :: "ostate \<Rightarrow> bool" where
  "oinv x \<longleftrightarrow> pinv (core_state x) \<and> length (guard_views x) = length (guards (core_state x))
     \<and> reads_ok x \<and> writes_ok x \<and> zero_ok x"

lemma oinvD:
  assumes "oinv x"
  shows "pinv (core_state x)" "length (guard_views x) = length (guards (core_state x))"
    "reads_ok x" "writes_ok x" "zero_ok x"
  using assms by (simp_all add: oinv_def)

text \<open>The cells \<open>writer_thread\<close> and \<open>writer_map\<close>, the tokens and the \<open>Arc\<close> play no part in it.\<close>

lemma oinv_frame [simp]:
  "oinv (x\<lparr>thread_cell := tc\<rparr>) = oinv x" "oinv (x\<lparr>token_view := tv\<rparr>) = oinv x" "oinv (x\<lparr>next_event := n\<rparr>) = oinv x"
  "oinv (x\<lparr>index_cell := ic\<rparr>) = oinv x" "oinv (x\<lparr>arc_view := av\<rparr>) = oinv x"
  by (simp_all add: oinv_def reads_ok_def writes_ok_def zero_ok_def writer_cover_def reader_cover_def Let_def)

section \<open>Steps of a guard\<close>

text \<open>What every step on one guard has in common.\<close>

definition guard_moved :: "nat \<Rightarrow> ReadGuard \<Rightarrow> state \<Rightarrow> state \<Rightarrow> bool" where
  "guard_moved i g s t \<longleftrightarrow> i < length (guards s) \<and> guards t = (guards s)[i := g] \<and> phase g \<noteq> Live
     \<and> writer t = writer s \<and> writer_map t = writer_map s \<and> keys t = keys s
     \<and> refcounts_locked t = refcounts_locked s"

lemma guard_moved_expected: "guard_moved i g s t \<Longrightarrow> expected t = expected s"
  by (simp add: guard_moved_def expected_def fun_eq_iff)

lemma oinv_guard_moved:
  fixes x :: ostate and t :: state and i :: nat
  defines "s \<equiv> core_state x"
  defines "old \<equiv> cur (guard_views x ! i)"
  assumes inv: "oinv x" "pinv t" and mv: "guard_moved i g s t"
    and grow: "old \<subseteq> cur v" "\<And>k. refcount_view x k \<subseteq> R k" "\<And>k. dropped_view x k \<subseteq> D k"
      "residual_view x \<subseteq> L"
    and wmap: "on_writer_map s (guards s ! i) \<Longrightarrow>
      on_writer_map s g \<or> old \<subseteq> L \<union> (\<Union>k\<in>set (todo (writer s)). R k)"
    and rmap: "on_reader_map s (guards s ! i) \<Longrightarrow> \<exists>k\<in>keys s. old \<subseteq> R k \<inter> D k"
    and zero: "phase g = ZeroStore \<Longrightarrow> L \<subseteq> cur v"
      "\<And>j. j < length (guards s) \<Longrightarrow> j \<noteq> i \<Longrightarrow> phase (guards s ! j) = ZeroStore \<Longrightarrow> L \<subseteq> residual_view x"
      "\<And>c. writer s = SyncStoreZero c \<Longrightarrow> L \<subseteq> residual_view x"
  shows "oinv (x\<lparr>refcount_view := R, guard_views := (guard_views x)[i := v], dropped_view := D,
      residual_view := L, core_state := t\<rparr>)" (is "oinv ?x")
proof -
  note frame = mv [unfolded guard_moved_def] guard_moved_expected [OF mv]
  have len: "length (guard_views x) = length (guards s)" and i: "i < length (guards s)"
    using oinvD(2) [OF inv(1)] frame by (simp_all add: s_def)
  have P: "on_writer_map t = on_writer_map s" "on_reader_map t = on_reader_map s"
    using frame by (simp_all add: on_writer_map_def on_reader_map_def fun_eq_iff)
  let ?X = "L \<union> (\<Union>k\<in>set (todo (writer s)). R k)" and ?Y = "\<Union>k\<in>keys s. R k \<inter> D k"
  have "seen (on_writer_map s) (guards s) (guard_views x)
      \<subseteq> seen (on_writer_map s) (guards t) ((guard_views x)[i := v]) \<union> ?X"
    using wmap grow(1) frame by (simp only:) (intro seen_update_subset i len [symmetric]; auto simp: old_def)
  moreover have "(\<Union>k\<in>set (todo (writer s)). refcount_view x k) \<subseteq> ?X" using grow(2) by blast
  moreover have "writer_cover ?x = cur (writer_view x) \<union> (if summing (writer s) then acq (writer_view x) else {})
      \<union> ?X \<union> seen (on_writer_map s) (guards t) ((guard_views x)[i := v])"
    using frame by (simp add: writer_cover_def P Let_def Un_assoc)
  ultimately have W: "writer_cover x \<subseteq> writer_cover ?x"
    unfolding writer_cover_def [of x] Let_def s_def [symmetric] using grow(4) by blast
  have "seen (on_reader_map s) (guards s) (guard_views x)
      \<subseteq> seen (on_reader_map s) (guards t) ((guard_views x)[i := v]) \<union> ?Y"
    using rmap grow(1) frame by (simp only:) (intro seen_update_subset i len [symmetric]; auto simp: old_def)
  moreover have "(\<Union>k\<in>keys s. refcount_view x k \<inter> dropped_view x k) \<subseteq> ?Y" using grow(2,3) by blast
  moreover have "reader_cover ?x = cur (writer_view x) \<union> mutex_view x \<union> ?Y
      \<union> seen (on_reader_map s) (guards t) ((guard_views x)[i := v])"
    using frame by (simp add: reader_cover_def P Let_def)
  ultimately have "reader_cover x \<subseteq> reader_cover ?x"
    unfolding reader_cover_def [of x] Let_def s_def [symmetric] by blast
  with W have "reads_ok ?x"
    using oinvD(3) [OF inv(1)] frame by (simp add: reads_ok_def Let_def flip: s_def) blast
  moreover have "writes_ok ?x"
    using oinvD(4) [OF inv(1)] frame grow len
    by (simp add: writes_ok_def Let_def nth_list_update flip: s_def) blast
  moreover have "zero_ok ?x"
    using oinvD(5) [OF inv(1)] frame zero len
    by (simp add: zero_ok_def nth_list_update flip: s_def) blast
  ultimately show ?thesis
    using inv(2) len frame by (simp add: oinv_def)
qed

text \<open>Who may still be using the residual counter.\<close>

lemma zero_store_alone:
  assumes "pinv s" "j < length (guards s)" "phase (guards s ! j) = ZeroStore"
  shows "n_res s = 0 \<and> n_zero s = 1"
proof -
  have "0 < n_zero s" using assms(2,3) by (auto simp: n_zero_def in_zero_def intro!: cnt_nth_pos)
  with res_rel_store_zero [OF inv_res_rel [OF assms(1)]] show ?thesis by simp
qed

lemma releasing_res:
  "i < length (guards s) \<Longrightarrow> phase (guards s ! i) = Releasing \<Longrightarrow> 0 < n_res s"
  by (auto simp: n_res_def is_residual_def intro!: cnt_nth_pos)

lemma store_zero_pc: "pinv s \<Longrightarrow> writer s = SyncStoreZero c \<Longrightarrow> n_res s = 0 \<and> n_zero s = 0"
  using inv_res_rel [of s] by (simp add: res_rel_def)

lemma n_zero_0: "n_zero s = 0 \<Longrightarrow> j < length (guards s) \<Longrightarrow> phase (guards s ! j) \<noteq> ZeroStore"
  by (auto simp: n_zero_def cnt_zero_iff in_zero_def)

lemma guard_handle:
  "pinv s \<Longrightarrow> i < length (guards s) \<Longrightarrow> phase (guards s ! i) \<noteq> Released \<Longrightarrow> refcount_key (guards s ! i) \<in> keys s"
  by (auto simp: pinv_def handles_ok_def keys_def)

lemma keys_refcounts [simp]:
  "map_of (refcounts s) k = Some v \<Longrightarrow> keys (s\<lparr>refcounts := AList.update k v' (refcounts s)\<rparr>) = keys s"
  by (simp add: keys_def keys_update_present map_of_fst_iff)

lemma keys_frame [simp]:
  "keys (set_phase i p s) = keys s" "keys (s\<lparr>guards := gs\<rparr>) = keys s" "keys (s\<lparr>writer := pc\<rparr>) = keys s"
  by (simp_all add: keys_def)

lemma keys_lookup: "map_of (refcounts s) k = Some v \<Longrightarrow> k \<in> keys s"
  unfolding keys_def map_of_fst_iff by blast

lemma drop_guard_keys:
  "drop_guard i s = Some (Inr t) \<Longrightarrow> keys t = keys s \<and> refcounts_locked t = refcounts_locked s"
  by (auto simp: drop_guard_def bind_res_def Let_def split: if_splits option.splits prod.splits sum.splits)

lemma read_guard_keys:
  "read_guard k s = Some (Inr t) \<Longrightarrow> keys t = keys s \<and> k \<in> keys s \<and> refcounts_locked t = refcounts_locked s"
  by (auto simp: read_guard_def bind_res_def Let_def keys_lookup split: option.splits prod.splits sum.splits)

lemma reader_map_current:
  assumes "pinv s" "i < length (guards s)" "on_reader_map s (guards s ! i)"
  shows "expected s (refcount_key (guards s ! i)) = map_index (guards s ! i)"
proof -
  have "refcount_key (guards s ! i) \<notin> set (todo (writer s))"
    using assms by (auto simp: on_reader_map_def pinv_def publish_ok_def)
  then show ?thesis
    using assms(3) by (cases "map_index (guards s ! i)"; cases "writer_map s") (simp_all add: expected_def on_reader_map_def)
qed

lemmas view_defs = atomic_rmw_def atomic_load_def atomic_store_def fence_acquire_def fence_release_def Let_def

lemma oinv_drop_guard:
  assumes "oinv x" "drop_guard i (core_state x) = Some (Inr t)" "pinv t"
  shows "oinv ((step_view (DropGuard i) t x)\<lparr>core_state := t\<rparr>)"
proof -
  let ?s = "core_state x" and ?g = "guards (core_state x) ! i"
  let ?k = "refcount_key ?g" and ?v = "guard_views x ! i"
  let ?p = "if expected ?s ?k \<noteq> map_index ?g then Releasing else Released"
  let ?t = "?v\<lparr>acq := acq ?v \<union> refcount_view x ?k\<rparr>"
  let ?R = "(refcount_view x)(?k := refcount_view x ?k \<union> cur ?v)"
  let ?D = "if ?p = Released then (dropped_view x)(?k := dropped_view x ?k \<union> cur ?v) else dropped_view x"
  note pinv = oinvD(1) [OF assms(1)]
  note eff = drop_guard_effect [OF pinv assms(2)]
  have key: "?k \<in> keys ?s" using eff by (intro guard_handle [OF pinv]) auto
  have mv: "guard_moved i (?g\<lparr>phase := ?p\<rparr>) ?s t"
    using eff drop_guard_keys [OF assms(2)] by (simp add: guard_moved_def writer_same_def)
  have idx: "map_index ?g = (if ?k \<in> set (todo (writer ?s)) then writer_map ?s else other (writer_map ?s))"
    if "?p = Released" using that by (auto simp: expected_def split: if_splits)
  have "oinv (x\<lparr>refcount_view := ?R, guard_views := (guard_views x)[i := ?t], dropped_view := ?D,
      residual_view := residual_view x, core_state := t\<rparr>)"
  proof (rule oinv_guard_moved [OF assms(1,3) mv])
    show "on_writer_map ?s (?g\<lparr>phase := ?p\<rparr>) \<or> cur ?v \<subseteq> residual_view x \<union> (\<Union>k\<in>set (todo (writer ?s)). ?R k)"
      if "on_writer_map ?s ?g"
      using that idx eff by (auto simp: on_writer_map_def)
    show "\<exists>k\<in>keys ?s. cur ?v \<subseteq> ?R k \<inter> ?D k" if "on_reader_map ?s ?g"
    proof -
      have "?p = Released"
        using reader_map_current [OF pinv _ that] eff by simp
      then show ?thesis using key by (intro bexI [of _ ?k]) auto
    qed
  qed (auto split: if_splits)
  also have "x\<lparr>refcount_view := ?R, guard_views := (guard_views x)[i := ?t], dropped_view := ?D,
      residual_view := residual_view x, core_state := t\<rparr> = (step_view (DropGuard i) t x)\<lparr>core_state := t\<rparr>"
    using eff oinvD(2) [OF assms(1)]
    by (auto simp: decrement_view_def guard_key_def done_if_released_def guard_done_view_def in_phase_def view_defs)
  finally show ?thesis .
qed

lemma oinv_release_residual:
  assumes "oinv x" "release_residual i (core_state x) = Some (Inr t)" "pinv t"
  shows "oinv ((step_view (ReleaseResidual i) t x)\<lparr>core_state := t\<rparr>)"
proof -
  let ?s = "core_state x" and ?g = "guards (core_state x) ! i" and ?v = "guard_views x ! i"
  let ?p = "if residual ?s \<noteq> ISIZE_MIN + 1 then Released else ZeroStore"
  let ?L = "residual_view x \<union> (cur ?v \<union> residual_view x)"
  let ?t = "?v\<lparr>cur := cur ?v \<union> residual_view x, acq := acq ?v \<union> residual_view x\<rparr>"
  let ?D = "if ?p = Released then (dropped_view x)(refcount_key ?g := dropped_view x (refcount_key ?g) \<union> cur ?t)
     else dropped_view x"
  note pinv = oinvD(1) [OF assms(1)]
  note eff = release_residual_effect [OF assms(2)]
  have g: "i < length (guards ?s)" "phase ?g = Releasing" using eff by (simp_all add: in_phase_def)
  have mv: "guard_moved i (?g\<lparr>phase := ?p\<rparr>) ?s t"
    using assms(2) by (auto simp: guard_moved_def release_residual_def in_phase_def keys_def Let_def split: if_splits)
  note busy = releasing_res [OF g]
  have "oinv (x\<lparr>refcount_view := refcount_view x, guard_views := (guard_views x)[i := ?t], dropped_view := ?D,
      residual_view := ?L, core_state := t\<rparr>)"
    using zero_store_alone [OF pinv] store_zero_pc [OF pinv] busy g(2)
    by (intro oinv_guard_moved [OF assms(1,3) mv]) (auto simp: on_reader_map_def split: if_splits)
  also have "x\<lparr>refcount_view := refcount_view x, guard_views := (guard_views x)[i := ?t], dropped_view := ?D,
      residual_view := ?L, core_state := t\<rparr> = (step_view (ReleaseResidual i) t x)\<lparr>core_state := t\<rparr>"
    using eff g oinvD(2) [OF assms(1)]
    by (auto simp: release_residual_view_def guard_key_def done_if_released_def guard_done_view_def in_phase_def view_defs)
  finally show ?thesis .
qed

lemma oinv_release_store_zero:
  assumes "oinv x" "release_store_zero i (core_state x) = Some (Inr t)" "pinv t"
  shows "oinv ((step_view (ReleaseStoreZero i) t x)\<lparr>core_state := t\<rparr>)"
proof -
  let ?s = "core_state x" and ?g = "guards (core_state x) ! i" and ?v = "guard_views x ! i"
  note pinv = oinvD(1) [OF assms(1)]
  note eff = release_store_zero_effect [OF assms(2)]
  have g: "i < length (guards ?s)" "phase ?g = ZeroStore" using eff by (simp_all add: in_phase_def)
  have mv: "guard_moved i (?g\<lparr>phase := Unparking\<rparr>) ?s t"
    using assms(2) by (auto simp: guard_moved_def release_store_zero_def in_phase_def keys_def split: if_splits)
  have "n_zero t = 0" using release_store_zero_counts [OF assms(2)] zero_store_alone [OF pinv g] by simp
  then have alone: "phase (guards ?s ! j) \<noteq> ZeroStore" if "j < length (guards ?s)" "j \<noteq> i" for j
    using n_zero_0 [of t j] that eff by simp
  have "oinv (x\<lparr>refcount_view := refcount_view x, guard_views := (guard_views x)[i := ?v],
      dropped_view := dropped_view x, residual_view := cur ?v, core_state := t\<rparr>)"
    using oinvD(5) [OF assms(1)] g alone store_zero_pc [OF pinv] zero_store_alone [OF pinv g]
    by (intro oinv_guard_moved [OF assms(1,3) mv]) (auto simp: on_writer_map_def on_reader_map_def zero_ok_def)
  then show ?thesis by (simp add: release_store_zero_view_def atomic_store_def)
qed

lemma oinv_release_unpark:
  assumes "oinv x" "release_unpark i (core_state x) = Some (Inr t)" "pinv t"
  shows "oinv ((step_view (ReleaseUnpark i) t x)\<lparr>core_state := t\<rparr>)" (is "oinv ?x")
proof -
  let ?s = "core_state x" and ?g = "guards (core_state x) ! i"
  let ?v = "(guard_views x ! i)\<lparr>cur := insert (next_event x) (cur (guard_views x ! i))\<rparr>"
  let ?D = "(dropped_view x)(refcount_key ?g := dropped_view x (refcount_key ?g) \<union> cur ?v)"
  let ?y = "x\<lparr>refcount_view := refcount_view x, guard_views := (guard_views x)[i := ?v],
      dropped_view := ?D, residual_view := residual_view x, core_state := t\<rparr>"
  note eff = release_unpark_effect [OF assms(2)]
  have g: "i < length (guards ?s)" "phase ?g = Unparking" using eff by (simp_all add: in_phase_def)
  have mv: "guard_moved i (?g\<lparr>phase := Released\<rparr>) ?s t"
    using assms(2)
    by (auto simp: guard_moved_def release_unpark_def in_phase_def keys_def split: if_splits option.splits)
  have "oinv ?y"
    using g by (intro oinv_guard_moved [OF assms(1,3) mv]) (auto simp: on_writer_map_def on_reader_map_def)
  then have "oinv (?y\<lparr>thread_cell := thread_cell ?x\<rparr>\<lparr>token_view := token_view ?x\<rparr>\<lparr>next_event := next_event ?x\<rparr>)"
    by (simp only: oinv_frame)
  also have "?y\<lparr>thread_cell := thread_cell ?x\<rparr>\<lparr>token_view := token_view ?x\<rparr>\<lparr>next_event := next_event ?x\<rparr> = ?x"
    using eff g oinvD(2) [OF assms(1)]
    by (simp add: done_if_released_def guard_done_view_def guard_key_def in_phase_def release_unpark_view_def Let_def)
  finally show ?thesis .
qed

section \<open>New guards, handles and reads\<close>

lemma oinv_read_guard:
  assumes "oinv x" "read_guard k (core_state x) = Some (Inr t)" "pinv t"
  shows "oinv ((step_view (NewGuard k) t x)\<lparr>core_state := t\<rparr>)"
proof -
  let ?s = "core_state x" and ?h = "handle_view x k \<union> refcount_view x k"
  let ?t = "\<lparr>cur = ?h, acq = ?h, rel = {}\<rparr>"
  let ?x = "x\<lparr>guard_views := guard_views x @ [?t], core_state := t\<rparr>"
  note eff = read_guard_effect [OF oinvD(1) [OF assms(1)] assms(2)]
  note same = eff [unfolded writer_same_def] read_guard_keys [OF assms(2)] writer_same_expected [OF conjunct1 [OF eff]]
  note len = oinvD(2) [OF assms(1)]
  have "on_writer_map t = on_writer_map ?s" "on_reader_map t = on_reader_map ?s"
    using same by (simp_all add: on_writer_map_def on_reader_map_def fun_eq_iff)
  then have "writer_cover x \<subseteq> writer_cover ?x" "reader_cover x \<subseteq> reader_cover ?x"
    using same len by (auto simp: writer_cover_def reader_cover_def Let_def seen_append)
  then have "reads_ok ?x"
    using oinvD(3) [OF assms(1)] same by (simp add: reads_ok_def Let_def) blast
  moreover have "writes_ok ?x"
    using oinvD(4) [OF assms(1)] same len
    by (simp add: writes_ok_def Let_def nth_append less_Suc_eq)
  moreover have "zero_ok ?x"
    using oinvD(5) [OF assms(1)] same len by (auto simp: zero_ok_def nth_append less_Suc_eq)
  ultimately have "oinv ?x" using assms(3) len same by (simp add: oinv_def)
  also have "?x = (step_view (NewGuard k) t x)\<lparr>core_state := t\<rparr>"
    by (simp add: increment_view_def view_defs)
  finally show ?thesis .
qed

lemma oinv_new_reader:
  assumes "oinv x" "clone_reader from k (core_state x) = Some (Inr t)" "pinv t"
  shows "oinv ((step_view (CloneReader from k) t x)\<lparr>core_state := t\<rparr>)" (is "oinv ?x")
proof -
  let ?s = "core_state x"
  have t: "t = ?s\<lparr>refcounts := refcounts ?s @ [(k, refcount_new (other (writer_map ?s)))]\<rparr>"
    and new: "k \<notin> keys ?s" "\<not> refcounts_locked ?s"
    using assms(2) by (auto simp: clone_reader_def new_reader_def keys_def split: if_splits)
  then have keys: "keys t = insert k (keys ?s)" by (auto simp: keys_def)
  have "todo (writer ?s) = []"
    using new(2) inv_lock [OF oinvD(1) [OF assms(1)]] by (cases "writer ?s") (auto simp: pc_defs)
  then have e: "expected ?s k = other (writer_map ?s)" "todo (writer ?s) = []" by (simp_all add: expected_def)
  have "on_writer_map t = on_writer_map ?s" "on_reader_map t = on_reader_map ?s"
    by (simp_all add: on_writer_map_def on_reader_map_def fun_eq_iff t)
  then have "writer_cover ?x = writer_cover x" "reader_cover x \<subseteq> reader_cover ?x"
    using new e keys by (auto simp: writer_cover_def reader_cover_def Let_def new_reader_view_def t)
  then have "reads_ok ?x"
    using oinvD(3) [OF assms(1)] by (simp add: reads_ok_def Let_def new_reader_view_def t) blast
  moreover have "writes_ok ?x"
    using oinvD(4) [OF assms(1)] new keys e by (auto simp: writes_ok_def Let_def new_reader_view_def t)
  moreover have "zero_ok ?x"
    using oinvD(5) [OF assms(1)] by (simp add: zero_ok_def new_reader_view_def Let_def t)
  ultimately show ?thesis
    using assms(3) oinvD(2) [OF assms(1)] by (simp add: oinv_def new_reader_view_def Let_def t)
qed

lemma oinv_release_refcount:
  assumes "oinv x" "release_refcount k (core_state x) = Some (Inr t)" "pinv t"
  shows "oinv ((step_view (DropReader k) t x)\<lparr>core_state := t\<rparr>)" (is "oinv ?x")
proof -
  let ?s = "core_state x"
  have t: "t = ?s\<lparr>refcounts := AList.delete k (refcounts ?s)\<rparr>" and unl: "\<not> refcounts_locked ?s"
    using assms(2) by (auto simp: release_refcount_def split: if_splits)
  then have keys: "keys t = keys ?s - {k}"
    by (simp add: keys_def keys_delete)
  have "todo (writer ?s) = []"
    using unl inv_lock [OF oinvD(1) [OF assms(1)]] by (cases "writer ?s") (auto simp: pc_defs)
  moreover have "on_writer_map t = on_writer_map ?s" "on_reader_map t = on_reader_map ?s"
    by (simp_all add: on_writer_map_def on_reader_map_def fun_eq_iff t)
  ultimately have "writer_cover ?x = writer_cover x" "reader_cover x \<subseteq> reader_cover ?x"
    using keys by (auto simp: writer_cover_def reader_cover_def Let_def release_refcount_view_def t)
  then have "reads_ok ?x"
    using oinvD(3) [OF assms(1)] by (simp add: reads_ok_def Let_def release_refcount_view_def t) blast
  moreover have "writes_ok ?x"
    using oinvD(4) [OF assms(1)] unl keys by (auto simp: writes_ok_def Let_def release_refcount_view_def t)
  moreover have "zero_ok ?x"
    using oinvD(5) [OF assms(1)] by (simp add: zero_ok_def release_refcount_view_def Let_def t)
  ultimately show ?thesis
    using assms(3) oinvD(2) [OF assms(1)] by (simp add: oinv_def release_refcount_view_def Let_def t)
qed

section \<open>Accesses of the maps\<close>

lemma oinv_reader_with_map:
  assumes "oinv x" "reader_with_map i x = Some r"
  shows "\<exists>x'. r = Inr x' \<and> oinv x'"
proof -
  let ?s = "core_state x" and ?t = "guard_views x ! i" and ?e = "next_event x"
  let ?m = "map_index (guards ?s ! i)"
  let ?c = "(cells x ?m)\<lparr>reads := insert ?e (reads (cells x ?m))\<rparr>"
  let ?v = "?t\<lparr>cur := insert ?e (cur ?t)\<rparr>"
  let ?x = "x\<lparr>cells := (cells x)(?m := ?c), guard_views := (guard_views x)[i := ?v], next_event := Suc ?e\<rparr>"
  from assms(2) have i: "i < length (guards ?s)" "phase (guards ?s ! i) = Live"
    by (auto simp: reader_with_map_def in_phase_def split: if_splits)
  note len = oinvD(2) [OF assms(1)]
  have "writes (cells x ?m) \<subseteq> cur ?t" using oinvD(4) [OF assms(1)] i by (simp add: writes_ok_def Let_def)
  with assms(2) have r: "r = Inr ?x"
    by (auto simp: reader_with_map_def cell_with_def Let_def split: if_splits)
  have grow: "insert ?e (seen P (guards ?s) (guard_views x)) \<subseteq> seen P (guards ?s) (guard_views ?x)"
    if "P (guards ?s ! i)" for P
    using seen_update_subset [OF i(1) len [symmetric], of P "guards ?s ! i" ?v "{}"] that
      seen_update [OF i(1) len [symmetric], of P "guards ?s ! i" ?v]
    by auto
  have stay: "seen P (guards ?s) (guard_views x) \<subseteq> seen P (guards ?s) (guard_views ?x)" for P
    using seen_update_subset [OF i(1) len [symmetric], of P "guards ?s ! i" ?v "{}"] by auto
  have "?m \<noteq> writer_map ?s" if "exclusive (writer ?s)"
    using exclusive_index [OF oinvD(1) [OF assms(1)] that nth_mem [OF i(1)] i(2)] by simp
  moreover have "writer_cover x \<union> (if ?m = writer_map ?s then {?e} else {}) \<subseteq> writer_cover ?x"
    using grow [of "on_writer_map ?s"] stay [of "on_writer_map ?s"] i(2)
    by (auto simp: writer_cover_def Let_def on_writer_map_def)
  moreover have "reader_cover x \<union> (if ?m \<noteq> writer_map ?s then {?e} else {}) \<subseteq> reader_cover ?x"
    using grow [of "on_reader_map ?s"] stay [of "on_reader_map ?s"] i(2)
    by (auto simp: reader_cover_def Let_def on_reader_map_def)
  ultimately have "reads_ok ?x"
    using oinvD(3) [OF assms(1)] by (auto simp: reads_ok_def Let_def neq_iff_other split: if_splits)
  moreover have more: "cur (guard_views x ! j) \<subseteq> cur (guard_views ?x ! j)" for j
    using i(1) len by (cases "j = i") auto
  have same: "writes (cells ?x m) = writes (cells x m)" for m by simp
  have "writes_ok ?x"
    using oinvD(4) [OF assms(1)] more unfolding writes_ok_def Let_def same by (simp del: nth_list_update_eq) blast
  moreover have "zero_ok ?x"
    using oinvD(5) [OF assms(1)] more unfolding zero_ok_def by (simp del: nth_list_update_eq) blast
  ultimately show ?thesis
    using r oinvD(1) [OF assms(1)] len by (simp add: oinv_def)
qed

text \<open>The writer alone: no guard reads its map and no handle leads there.\<close>

lemma writer_alone:
  assumes "pinv s" "writer_has_map (writer s)"
  shows "exclusive (writer s)" "expected s k = other (writer_map s)" "\<not> refcounts_locked s"
    "\<And>i. i < length (guards s) \<Longrightarrow> phase (guards s ! i) = Live \<Longrightarrow> map_index (guards s ! i) = other (writer_map s)"
proof -
  show ex: "exclusive (writer s)" using assms(2) by (auto simp: writer_has_map_def exclusive_def)
  show "expected s k = other (writer_map s)" using assms(2) by (auto simp: writer_has_map_def expected_def todo_def)
  show "\<not> refcounts_locked s" using inv_lock [OF assms(1)] assms(2) by (auto simp: writer_has_map_def holds_lock_def)
  show "map_index (guards s ! i) = other (writer_map s)" if "i < length (guards s)" "phase (guards s ! i) = Live" for i
    using exclusive_index [OF assms(1) ex] that by simp
qed

lemma oinv_writer_access:
  assumes "oinv x" "writer_access access x = Some r" "access = cell_with \<or> access = cell_with_mut"
  shows "\<exists>x'. r = Inr x' \<and> oinv x'"
proof -
  let ?s = "core_state x" and ?e = "next_event x" and ?t = "writer_view x"
  let ?c = "cells x (writer_map ?s)"
  from assms(2) have pc: "writer_has_map (writer ?s)" by (auto simp: writer_access_def split: if_splits)
  note alone = writer_alone [OF oinvD(1) [OF assms(1)] pc]
  have cov: "reads ?c \<union> writes ?c \<subseteq> cur ?t"
    using oinvD(3,4) [OF assms(1)] alone(1) by (simp add: reads_ok_def writes_ok_def Let_def)
  then have "\<exists>c. access ?e (cur ?t) ?c = Inr c \<and> reads c \<subseteq> insert ?e (reads ?c) \<and> writes c \<subseteq> insert ?e (writes ?c)"
    using assms(3) by (auto simp: cell_with_def cell_with_mut_def)
  then obtain c where c: "access ?e (cur ?t) ?c = Inr c" "reads c \<subseteq> insert ?e (reads ?c)" "writes c \<subseteq> insert ?e (writes ?c)"
    by blast
  let ?x = "x\<lparr>cells := (cells x)(writer_map ?s := c), writer_view := ?t\<lparr>cur := insert ?e (cur ?t)\<rparr>, next_event := Suc ?e\<rparr>"
  have r: "r = Inr ?x" using assms(2) pc c(1) by (simp add: writer_access_def Let_def)
  have new: "writes c \<subseteq> insert ?e (cur ?t)" using c(3) cov by blast
  have "writer_cover x \<union> {?e} \<subseteq> writer_cover ?x" "reader_cover x \<subseteq> reader_cover ?x"
    by (auto simp: writer_cover_def reader_cover_def Let_def)
  then have "reads_ok ?x"
    using oinvD(3) [OF assms(1)] c(2) alone(1) by (auto simp: reads_ok_def Let_def)
  moreover have "writes_ok ?x"
    using oinvD(4) [OF assms(1)] new alone(2-4) by (auto simp: writes_ok_def Let_def)
  moreover have "zero_ok ?x"
    using oinvD(5) [OF assms(1)] by (auto simp: zero_ok_def)
  ultimately show ?thesis using r oinvD(1,2) [OF assms(1)] by (simp add: oinv_def)
qed

section \<open>Steps of the writer\<close>

lemma seen_writer_map_idle:
  assumes "pinv s" "todo (writer s) = []" "n_res s = 0" "length vs = length (guards s)"
  shows "seen (on_writer_map s) (guards s) vs = {}"
proof -
  have "\<not> on_writer_map s g" if "g \<in> set (guards s)" for g
    using assms(2,3) that by (auto simp: n_res_def cnt_zero_iff is_residual_def on_writer_map_def expected_def)
  then show ?thesis using assms(4) by (auto simp: seen_nth)
qed

lemma oinv_writer_moved:
  fixes x :: ostate and t :: state
  defines "s \<equiv> core_state x" and "w \<equiv> writer_view x"
  assumes inv: "oinv x" "pinv t"
    and same: "guards t = guards s" "writer_map t = writer_map s" "refcounts t = refcounts s"
      "todo (writer t) = []" "todo (writer s) = []"
    and grow: "cur w \<subseteq> cur w'" "residual_view x \<subseteq> L \<union> cur w'" "mutex_view x \<subseteq> M"
      "summing (writer s) \<Longrightarrow> acq w \<subseteq> (if summing (writer t) then acq w' else cur w')"
    and excl: "exclusive (writer t) \<Longrightarrow> exclusive (writer s) \<or>
      n_res s = 0 \<and> \<not> summing (writer s) \<and> residual_view x \<subseteq> cur w'"
    and zero: "n_zero s \<noteq> 0 \<Longrightarrow> L \<subseteq> residual_view x" "\<And>c. writer t = SyncStoreZero c \<Longrightarrow> L \<subseteq> cur w'"
    and lock: "if refcounts_locked t then M \<subseteq> cur w' \<and> (\<forall>m. writes (cells x m) \<subseteq> rel w')
      else refcounts_locked s \<longrightarrow> cur w \<subseteq> M"
  shows "oinv (x\<lparr>writer_view := w', residual_view := L, mutex_view := M, core_state := t\<rparr>)" (is "oinv ?x")
proof -
  note len = oinvD(2) [OF inv(1), folded s_def]
  have P: "on_writer_map t = on_writer_map s" "on_reader_map t = on_reader_map s" "keys t = keys s"
    "expected t = expected s"
    using same by (simp_all add: on_writer_map_def on_reader_map_def keys_def expected_def fun_eq_iff)
  have W: "writer_cover x \<subseteq> writer_cover ?x"
    using grow same P by (auto simp: writer_cover_def Let_def s_def w_def split: if_splits)
  have R: "reader_cover x \<subseteq> reader_cover ?x"
    using grow same P by (auto simp: reader_cover_def Let_def s_def w_def)
  have E: "writer_cover x \<subseteq> cur w'" if "n_res s = 0 \<and> \<not> summing (writer s) \<and> residual_view x \<subseteq> cur w'"
    using that seen_writer_map_idle [OF oinvD(1) [OF inv(1), folded s_def] same(5) _ len] same(5) grow(1)
    by (auto simp: writer_cover_def Let_def s_def w_def)
  have "reads_ok ?x"
    using oinvD(3) [OF inv(1)] W R E excl grow(1) same
    by (simp add: reads_ok_def Let_def flip: s_def w_def) blast
  moreover have "\<not> refcounts_locked t \<Longrightarrow> writes (cells x (other (writer_map s))) \<subseteq> M"
    "writes (cells x m) \<subseteq> cur w'" for m
    using oinvD(4) [OF inv(1)] lock grow(1,3)
    by (auto simp: writes_ok_def Let_def simp flip: s_def w_def split: if_splits) blast+
  then have "writes_ok ?x"
    using oinvD(4) [OF inv(1)] lock same P
    by (simp add: writes_ok_def Let_def flip: s_def w_def)
  moreover have "L \<subseteq> residual_view x" if "j < length (guards s)" "phase (guards s ! j) = ZeroStore" for j
    using zero(1) n_zero_0 [of s j] that by auto
  then have "zero_ok ?x"
    using oinvD(5) [OF inv(1)] zero(2) same
    by (simp add: zero_ok_def flip: s_def w_def) blast
  ultimately show ?thesis using inv(2) len same by (simp add: oinv_def)
qed

text \<open>A step that touches neither an atomic nor the mutex.\<close>

lemma oinv_quiet:
  assumes "oinv x" "pinv t"
    and "guards t = guards (core_state x)" "writer_map t = writer_map (core_state x)" "refcounts t = refcounts (core_state x)"
      "refcounts_locked t = refcounts_locked (core_state x)" "todo (writer t) = []" "todo (writer (core_state x)) = []"
      "summing (writer t) = summing (writer (core_state x))" "exclusive (writer t) \<Longrightarrow> exclusive (writer (core_state x))"
      "\<And>c. writer t \<noteq> SyncStoreZero c"
  shows "oinv (x\<lparr>core_state := t\<rparr>)"
proof -
  have "oinv (x\<lparr>writer_view := writer_view x, residual_view := residual_view x, mutex_view := mutex_view x, core_state := t\<rparr>)"
    using assms oinvD(4) [OF assms(1)] by (intro oinv_writer_moved) (auto simp: writes_ok_def Let_def)
  then show ?thesis by simp
qed

lemmas writer_pc_defs = pc_defs summing_def exclusive_def

text \<open>A residual of zero, read at either load, means that no residual reader is left.\<close>

lemma residual_zero:
  assumes "pinv s" "residual s = 0" "writer s = SyncLoad c \<or> writer s = SyncReload c"
  shows "n_res s = 0"
proof -
  have "ISIZE_MIN + of_nat R \<noteq> (0 :: isize)" if "R < 2 ^ 63" for R
    using sint_waiting_neg [OF that] by auto
  then show ?thesis
    using inv_res_rel [OF assms(1)] assms(2,3) of_nat_eq_0 [of "n_res s"]
    by (auto simp: res_rel_def resting_rel_def waiting_rel_def split: if_splits)
qed

lemma oinv_sync_load:
  assumes "oinv x" "writer (core_state x) = SyncLoad c \<or> writer (core_state x) = SyncReload c"
    "pinv ((core_state x)\<lparr>writer := pc\<rparr>)" "pc = after_sync c \<and> residual (core_state x) = 0 \<or> pc = SyncSetThread c \<or> pc = SyncPark c"
  shows "oinv (x\<lparr>writer_view := atomic_load Acquire (residual_view x) (writer_view x), core_state := (core_state x)\<lparr>writer := pc\<rparr>\<rparr>)"
proof -
  let ?w = "atomic_load Acquire (residual_view x) (writer_view x)"
  have "\<not> refcounts_locked (core_state x)"
    using inv_lock [OF oinvD(1) [OF assms(1)]] assms(2) by (auto simp: holds_lock_def)
  then have "oinv (x\<lparr>writer_view := ?w, residual_view := residual_view x, mutex_view := mutex_view x,
      core_state := (core_state x)\<lparr>writer := pc\<rparr>\<rparr>)"
    using assms(2,4) residual_zero [OF oinvD(1) [OF assms(1)] _ assms(2)]
    by (intro oinv_writer_moved assms(1,3)) (cases c; auto simp: view_defs writer_pc_defs)+
  then show ?thesis by simp
qed

lemma oinv_sync_fetch_add:
  assumes "oinv x" "writer (core_state x) = SyncFetchAdd c" "t = sync_fetch_add c (core_state x)" "pinv t"
  shows "oinv ((sync_fetch_add_view x)\<lparr>core_state := t\<rparr>)"
proof -
  let ?w = "atomic_load Acquire (residual_view x) (writer_view x)"
  have "n_zero (core_state x) = 0" "\<not> refcounts_locked (core_state x)"
    using inv_res_rel [OF oinvD(1) [OF assms(1)]] inv_lock [OF oinvD(1) [OF assms(1)]] assms(2)
    by (simp_all add: res_rel_def resting_rel_def holds_lock_def)
  then have "oinv (x\<lparr>writer_view := ?w, residual_view := residual_view x \<union> cur ?w, mutex_view := mutex_view x,
      core_state := t\<rparr>)"
    using assms(2,3)
    by (intro oinv_writer_moved assms(1,4)) (auto simp: view_defs sync_fetch_add_def writer_pc_defs split: if_splits)
  then show ?thesis by (simp add: sync_fetch_add_view_def view_defs)
qed

lemma oinv_sync_store_zero:
  assumes "oinv x" "writer (core_state x) = SyncStoreZero c" "t = sync_store_zero c (core_state x)" "pinv t"
  shows "oinv ((sync_store_zero_view x)\<lparr>core_state := t\<rparr>)"
proof -
  have "n_zero (core_state x) = 0" "n_res (core_state x) = 0" "\<not> refcounts_locked (core_state x)"
    "residual_view x \<subseteq> cur (writer_view x)"
    using store_zero_pc [OF oinvD(1) [OF assms(1)] assms(2)] inv_lock [OF oinvD(1) [OF assms(1)]] assms(2)
      oinvD(5) [OF assms(1)] by (simp_all add: holds_lock_def zero_ok_def)
  then have "oinv (x\<lparr>writer_view := writer_view x, residual_view := cur (writer_view x), mutex_view := mutex_view x,
      core_state := t\<rparr>)"
    using assms(2,3)
    by (intro oinv_writer_moved assms(1,4)) (cases c; auto simp: sync_store_zero_def writer_pc_defs)+
  then show ?thesis by (simp add: sync_store_zero_view_def atomic_store_def)
qed

lemma oinv_sync_set_thread:
  assumes "oinv x" "writer (core_state x) = SyncSetThread c" "t = sync_set_thread c (core_state x)" "pinv t"
  shows "oinv ((sync_set_thread_view x)\<lparr>core_state := t\<rparr>)" (is "oinv ?x")
proof -
  let ?w = "(writer_view x)\<lparr>cur := insert (next_event x) (cur (writer_view x))\<rparr>"
  let ?y = "x\<lparr>writer_view := ?w, residual_view := residual_view x, mutex_view := mutex_view x, core_state := t\<rparr>"
  have "\<not> refcounts_locked (core_state x)"
    using inv_lock [OF oinvD(1) [OF assms(1)]] assms(2) by (simp add: holds_lock_def)
  then have "oinv ?y"
    using assms(2,3) by (intro oinv_writer_moved assms(1,4)) (auto simp: sync_set_thread_def writer_pc_defs)
  then have "oinv (?y\<lparr>thread_cell := thread_cell ?x\<rparr>\<lparr>next_event := next_event ?x\<rparr>)" by (simp only: oinv_frame)
  also have "?y\<lparr>thread_cell := thread_cell ?x\<rparr>\<lparr>next_event := next_event ?x\<rparr> = ?x"
    by (simp add: sync_set_thread_view_def Let_def)
  finally show ?thesis .
qed

lemma oinv_sync_park:
  assumes "oinv x" "writer (core_state x) = SyncPark c" "sync_park c (core_state x) = Some (Inr t)" "pinv t"
  shows "oinv ((sync_park_view x)\<lparr>core_state := t\<rparr>)"
proof -
  let ?w = "(writer_view x)\<lparr>cur := cur (writer_view x) \<union> token_view x (writer_tid (core_state x)),
      acq := acq (writer_view x) \<union> token_view x (writer_tid (core_state x))\<rparr>"
  have "\<not> refcounts_locked (core_state x)"
    using inv_lock [OF oinvD(1) [OF assms(1)]] assms(2) by (simp add: holds_lock_def)
  then have "oinv (x\<lparr>writer_view := ?w, residual_view := residual_view x, mutex_view := mutex_view x, core_state := t\<rparr>)"
    using assms(2,3)
    by (intro oinv_writer_moved assms(1,4)) (auto simp: sync_park_def writer_pc_defs split: if_splits)
  then show ?thesis by (simp add: sync_park_view_def Let_def)
qed

lemma oinv_publish_lock:
  assumes "oinv x" "writer (core_state x) = PubLock" "publish_lock (core_state x) = Some (Inr t)" "pinv t"
  shows "oinv ((publish_lock_view x)\<lparr>core_state := t\<rparr>)"
proof -
  let ?w = "writer_view x"
  let ?w' = "?w\<lparr>rel := cur ?w, cur := cur ?w \<union> mutex_view x, acq := acq ?w \<union> residual_view x \<union> mutex_view x\<rparr>"
  have t: "t = (core_state x)\<lparr>refcounts_locked := True, writer := PubSetMap\<rparr>"
    using assms(3) by (auto simp: publish_lock_def split: if_splits)
  then have "oinv (x\<lparr>writer_view := ?w', residual_view := residual_view x, mutex_view := mutex_view x, core_state := t\<rparr>)"
    using assms(2) oinvD(4) [OF assms(1)]
    by (intro oinv_writer_moved assms(1,4)) (auto simp: writer_pc_defs writes_ok_def Let_def)
  then show ?thesis by (simp add: publish_lock_view_def view_defs)
qed

lemma oinv_publish_unlock:
  assumes "oinv x" "writer (core_state x) = PubUnlock a" "t = publish_unlock a (core_state x)" "pinv t"
  shows "oinv ((publish_unlock_view x)\<lparr>core_state := t\<rparr>)"
proof -
  have "oinv (x\<lparr>writer_view := writer_view x, residual_view := residual_view x,
      mutex_view := mutex_view x \<union> cur (writer_view x), core_state := t\<rparr>)"
    using assms(2,3) by (intro oinv_writer_moved assms(1,4)) (auto simp: publish_unlock_def writer_pc_defs)
  then show ?thesis by (simp add: publish_unlock_view_def)
qed

lemma oinv_publish_fetch_add:
  assumes "oinv x" "writer (core_state x) = PubFetchAdd a" "t = publish_fetch_add a (core_state x)" "pinv t"
  shows "oinv ((publish_fetch_add_view x)\<lparr>core_state := t\<rparr>)"
proof -
  let ?w = "writer_view x"
  let ?w' = "?w\<lparr>acq := acq ?w \<union> residual_view x, cur := cur ?w \<union> (acq ?w \<union> residual_view x)\<rparr>"
  have "n_zero (core_state x) = 0" "\<not> refcounts_locked (core_state x)"
    using inv_res_rel [OF oinvD(1) [OF assms(1)]] inv_lock [OF oinvD(1) [OF assms(1)]] assms(2)
    by (simp_all add: res_rel_def publishing_rel_def holds_lock_def)
  then have "oinv (x\<lparr>writer_view := ?w', residual_view := residual_view x \<union> rel ?w, mutex_view := mutex_view x, core_state := t\<rparr>)"
    using assms(2,3) by (intro oinv_writer_moved assms(1,4)) (auto simp: publish_fetch_add_def writer_pc_defs)
  then show ?thesis by (simp add: publish_fetch_add_view_def view_defs)
qed

text \<open>The loop of \<open>publish\<close>: one reference count is turned over to the other map.\<close>

lemma oinv_publish_swap:
  assumes "oinv x" "writer (core_state x) = PubSwap (k # ks) a" "publish_swap (k # ks) a (core_state x) = Inr t" "pinv t"
  shows "oinv ((swap_maps_view k x)\<lparr>core_state := t\<rparr>)" (is "oinv ?x")
proof -
  let ?s = "core_state x" and ?w = "writer_view x"
  have t: "guards t = guards ?s" "writer_map t = writer_map ?s" "keys t = keys ?s"
    "refcounts_locked t = refcounts_locked ?s" "summing (writer t)" "todo (writer t) = ks" "\<not> exclusive (writer t)"
    "\<And>c. writer t \<noteq> SyncStoreZero c"
    using assms(3) by (auto simp: Let_def writer_pc_defs split: option.splits prod.splits if_splits)
  have locked: "refcounts_locked ?s" "distinct (k # ks)"
    using oinvD(1) [OF assms(1)] assms(2) by (simp_all add: pinv_def publish_ok_def pc_defs)
  have P: "on_writer_map t = on_writer_map ?s" "on_reader_map t = on_reader_map ?s"
    using t by (simp_all add: on_writer_map_def on_reader_map_def fun_eq_iff)
  have e: "expected ?s = (\<lambda>j. if j = k then writer_map ?s else expected t j)"
    using t(2,6) assms(2) locked(2) by (auto simp: expected_def fun_eq_iff todo_def)
  have "writer_cover x \<subseteq> writer_cover ?x" "reader_cover x \<subseteq> reader_cover ?x"
    using t P assms(2)
    by (auto simp: writer_cover_def reader_cover_def Let_def swap_maps_view_def view_defs writer_pc_defs)
  then have "reads_ok ?x"
    using oinvD(3) [OF assms(1)] t by (simp add: reads_ok_def Let_def swap_maps_view_def view_defs) blast
  moreover have "writes_ok ?x"
    using oinvD(4) [OF assms(1)] t locked e
    by (auto simp: writes_ok_def Let_def swap_maps_view_def view_defs split: if_splits)
  moreover have "zero_ok ?x"
    using oinvD(5) [OF assms(1)] t by (simp add: zero_ok_def swap_maps_view_def view_defs)
  ultimately show ?thesis
    using assms(4) oinvD(2) [OF assms(1)] t by (simp add: oinv_def swap_maps_view_def view_defs)
qed

text \<open>The turn of the writer's map: the readers' map becomes the writer's, the handles still lead there.\<close>

lemma oinv_publish_set_map:
  assumes "oinv x" "publish_set_map ks (core_state x) = Some (Inr t)" "pinv t"
  shows "oinv (x\<lparr>core_state := t\<rparr>)" (is "oinv ?x")
proof -
  let ?s = "core_state x"
  have pc: "writer ?s = PubSetMap" "set ks = keys ?s"
    and t: "t = ?s\<lparr>writer_map := other (writer_map ?s), writer := PubSwap ks 0\<rparr>"
    using assms(2) by (auto simp: publish_set_map_def keys_def split: if_splits)
  have locked: "refcounts_locked ?s" "exclusive (writer ?s)"
    using inv_lock [OF oinvD(1) [OF assms(1)]] pc by (simp_all add: writer_pc_defs)
  have e: "expected t j = expected ?s j" if "j \<in> keys ?s" for j
    using that pc by (simp add: expected_def t todo_def)
  have keys: "keys t = keys ?s" by (simp add: t keys_def)
  have P: "on_reader_map ?s g \<Longrightarrow> on_writer_map t g" for g
    by (auto simp: on_writer_map_def on_reader_map_def t neq_iff_other)
  have "seen (on_reader_map ?s) (guards ?s) (guard_views x) \<subseteq> seen (on_writer_map t) (guards ?s) (guard_views x)"
    using P oinvD(2) [OF assms(1)] by (auto simp: seen_nth)
  then have "reader_cover x \<subseteq> writer_cover ?x"
    using pc locked(1) oinvD(4) [OF assms(1)]
    by (auto simp: writer_cover_def reader_cover_def Let_def t todo_def writes_ok_def)
  moreover have "cur (writer_view x) \<subseteq> reader_cover ?x" by (auto simp: reader_cover_def Let_def)
  ultimately have "reads_ok ?x"
    using oinvD(3) [OF assms(1)] locked(2) by (auto simp: reads_ok_def Let_def t exclusive_def)
  moreover have "writes_ok ?x"
    using oinvD(4) [OF assms(1)] locked e keys by (simp add: writes_ok_def Let_def) (simp add: t)
  moreover have "zero_ok ?x"
    using oinvD(5) [OF assms(1)] by (simp add: zero_ok_def t)
  ultimately show ?thesis
    using assms(3) oinvD(2) [OF assms(1)] by (simp add: oinv_def t)
qed

text \<open>The write of the cell \<open>writer_map\<close> is one more event that the writer has seen.\<close>

lemma oinv_writer_event:
  assumes "oinv x"
  shows "oinv (x\<lparr>writer_view := (writer_view x)\<lparr>cur := insert e (cur (writer_view x))\<rparr>\<rparr>)" (is "oinv ?x")
proof -
  have "writer_cover x \<subseteq> writer_cover ?x" "reader_cover x \<subseteq> reader_cover ?x"
    by (auto simp: writer_cover_def reader_cover_def Let_def)
  then have "reads_ok ?x" using oinvD(3) [OF assms] by (simp add: reads_ok_def Let_def) blast
  moreover have "writes_ok ?x" using oinvD(4) [OF assms] by (auto simp: writes_ok_def Let_def)
  moreover have "zero_ok ?x" using oinvD(5) [OF assms] by (auto simp: zero_ok_def)
  ultimately show ?thesis using oinvD(1,2) [OF assms] by (simp add: oinv_def)
qed

lemma oinv_publish_turn:
  assumes "oinv x" "publish_set_map ks (core_state x) = Some (Inr t)" "pinv t"
  shows "oinv ((step_view (WriterIter ks) t x)\<lparr>core_state := t\<rparr>)"
proof -
  let ?x = "(step_view (WriterIter ks) t x)\<lparr>core_state := t\<rparr>"
  let ?y = "x\<lparr>core_state := t\<rparr>\<lparr>writer_view := (writer_view x)\<lparr>cur := insert (next_event x) (cur (writer_view x))\<rparr>\<rparr>"
  have "oinv ?y" using oinv_writer_event [OF oinv_publish_set_map [OF assms], of "next_event x"] by simp
  then have "oinv (?y\<lparr>index_cell := index_cell ?x\<rparr>\<lparr>next_event := next_event ?x\<rparr>)" by (simp only: oinv_frame)
  also have "?y\<lparr>index_cell := index_cell ?x\<rparr>\<lparr>next_event := next_event ?x\<rparr> = ?x"
    by (simp add: publish_set_map_view_def Let_def)
  finally show ?thesis .
qed

section \<open>Every step is free of races\<close>

lemma oinv_writer_step:
  assumes "oinv x" "writer_step (core_state x) = Some (Inr t)" "pinv t"
  shows "oinv ((writer_step_view (writer (core_state x)) x)\<lparr>core_state := t\<rparr>)"
proof (cases "writer (core_state x)")
  case (SyncLoad c)
  with assms(2) have t: "t = (core_state x)\<lparr>writer := if residual (core_state x) \<noteq> 0 then SyncSetThread c else after_sync c\<rparr>"
    by (simp add: sync_load_def)
  with SyncLoad assms(1,3) show ?thesis
    unfolding t by (simp only: writer_step_view.simps sync_load_view_def) (rule oinv_sync_load; auto)
next
  case (SyncReload c)
  with assms(2) have t: "t = (core_state x)\<lparr>writer := if residual (core_state x) = 0 then after_sync c else SyncPark c\<rparr>"
    by (auto simp: sync_reload_def split: if_splits)
  with SyncReload assms(1,3) show ?thesis
    unfolding t by (simp only: writer_step_view.simps sync_reload_view_def) (rule oinv_sync_load; auto)
next
  case (PubSwap ks a)
  show ?thesis
  proof (cases ks)
    case Nil
    with PubSwap assms show ?thesis by (auto intro!: oinv_quiet simp: writer_pc_defs)
  next
    case (Cons k ks')
    with PubSwap assms(2) have "publish_swap (k # ks') a (core_state x) = Inr t" by simp
    with PubSwap Cons assms show ?thesis by (simp del: publish_swap.simps add: oinv_publish_swap)
  qed
qed (use assms in \<open>auto simp: oinv_sync_set_thread oinv_sync_fetch_add oinv_sync_park oinv_sync_store_zero
       oinv_publish_lock oinv_publish_unlock oinv_publish_fetch_add drop_write_handle_view_def writer_pc_defs intro!: oinv_quiet split: if_splits\<close>)

lemma oinv_proto:
  assumes "oinv x" "exec a (core_state x) = Some (Inr t)"
  shows "oinv ((step_view a t x)\<lparr>core_state := t\<rparr>)"
proof -
  have t: "pinv t" using inv_exec [OF oinvD(1) [OF assms(1)], of a] assms(2) by simp
  show ?thesis
  proof (cases a)
    case WriterStep
    with assms t oinv_writer_step show ?thesis by (simp del: writer_step.simps)
  next
    case ParkSpuriously
    with assms t show ?thesis
      by (auto simp: park_spuriously_def writer_pc_defs intro!: oinv_quiet split: writer_pc.splits)
  qed (use assms t in \<open>auto simp: oinv_new_reader oinv_release_refcount oinv_read_guard oinv_drop_guard
       oinv_release_residual oinv_release_store_zero oinv_release_unpark oinv_publish_turn writer_pc_defs
       intro!: oinv_quiet simp del: step_view.simps(1-7,9) split: if_splits\<close>)
qed

lemma oinv_load_stale:
  assumes "oinv x" "sync_load_stale x = Some r"
  shows "\<exists>x'. r = Inr x' \<and> oinv x'"
proof -
  from assms(2) obtain c where c: "writer (core_state x) = SyncLoad c"
    and r: "r = Inr (x\<lparr>core_state := (core_state x)\<lparr>writer := SyncSetThread c\<rparr>\<rparr>)"
    by (auto simp: sync_load_stale_def split: writer_pc.splits)
  note pinv = oinvD(1) [OF assms(1)]
  have "pinv ((core_state x)\<lparr>writer := SyncSetThread c\<rparr>)"
    using c inv_res_rel [OF pinv] by (intro inv_set_pc pinv) (simp_all add: pc_defs res_rel_def)
  then show ?thesis using assms(1) c r by (auto simp: writer_pc_defs intro!: oinv_quiet)
qed

lemma oinv_reload_stale:
  assumes "oinv x" "sync_reload_stale x = Some r"
  shows "\<exists>x'. r = Inr x' \<and> oinv x'"
proof -
  let ?s = "core_state x"
  from assms(2) obtain c where c: "writer ?s = SyncReload c"
    and owed: "residual ?s \<noteq> 0 \<or> tokens ?s (writer_tid ?s) \<or> (\<exists>g\<in>set (guards ?s). phase g = Unparking)"
    and r: "r = Inr (x\<lparr>core_state := ?s\<lparr>writer := SyncPark c\<rparr>\<rparr>)"
    by (auto simp: sync_reload_stale_def Let_def split: writer_pc.splits if_splits)
  note pinv = oinvD(1) [OF assms(1)]
  have rel: "waiting_rel (n_res ?s) (n_zero ?s) (residual ?s)" using inv_res_rel [OF pinv] c by (simp add: res_rel_def)
  have "?s\<lparr>writer := SyncPark c\<rparr> = ?s\<lparr>residual := residual ?s, refcounts_locked := refcounts_locked ?s,
      writer_thread := writer_thread ?s, writer := SyncPark c, tokens := tokens ?s\<rparr>" by simp
  also have "pinv \<dots>"
    using c owed rel inv_lock [OF pinv] inv_thread [OF pinv]
    by (intro inv_writer_move pinv) (auto simp: pc_defs res_rel_def waiting_rel_def split: if_splits)
  finally show ?thesis using assms(1) c r by (auto simp: writer_pc_defs intro!: oinv_quiet)
qed

lemma oexec_ok:
  assumes "oinv x" "oexec a x = Some r"
  shows "r = Inl Abort \<or> (\<exists>x'. r = Inr x' \<and> oinv x')"
proof (cases a)
  case (CoreStep b)
  with assms(2) obtain q where q: "exec b (core_state x) = Some q"
    and r: "r = bind_res q (\<lambda>s'. Inr ((step_view b s' x)\<lparr>core_state := s'\<rparr>))" by auto
  show ?thesis
  proof (cases q)
    case (Inl e)
    then show ?thesis using inv_exec [OF oinvD(1) [OF assms(1)], of b] q r by simp
  next
    case (Inr t)
    then show ?thesis using oinv_proto [OF assms(1), of b t] q r by simp
  qed
qed (use assms oinv_load_stale oinv_reload_stale oinv_reader_with_map oinv_writer_access in auto)

lemma oreachable_inv: "oreachable A x \<Longrightarrow> oinv x"
proof (induction rule: oreachable.induct)
  case (init t key s)
  have "guards s = []" "writer s = Idle" "\<not> refcounts_locked s"
    using init by (auto simp: build_map_def build_core_def new_reader_def split: if_splits)
  then show ?case
    using inv_build_map [OF init]
    by (simp add: oinv_def build_order_def reads_ok_def writes_ok_def zero_ok_def cell_new_def exclusive_def Let_def)
next
  case (step x a x')
  then show ?case using oexec_ok [of x a] by fastforce
qed

section \<open>Properties\<close>

text \<open>
  C2: the orderings of the source suffice. Under the happens-before order that the acquire and
  release operations, the two fences and the mutex establish, and for every interleaving of
  readers, handles and the writer with stale loads and spurious wake-ups, no access of either map is
  a data race: a guard never reads a map while a write of it is unordered, and the writer never changes
  its map, nor destroys a value it held, before every read of it has happened. Nor does any
  step panic.
\<close>

theorem maps_race_free:
  assumes "oreachable A x"
  shows "oexec a x \<noteq> Some (Inl (UB u)) \<and> oexec a x \<noteq> Some (Inl (Panic msg))"
  using oexec_ok [OF oreachable_inv [OF assms], of a] by auto

definition oexample :: "oaction list \<Rightarrow> ostate" where
  "oexample as = (case orun as (build_order example_start) of Some (Inr x) \<Rightarrow> x | _ \<Rightarrow> build_order example_start)"

lemma oexample_reachable:
  assumes "list_all A as"
  shows "oreachable A (oexample as)"
proof -
  have "oreachable A (build_order example_start)" using example_built by (rule oreachable.init)
  with assms show ?thesis
    by (auto simp: oexample_def intro: order_machine.reach_run split: option.splits sum.splits)
qed

text \<open>A reader leaves while the writer waits for it, and the writer then writes the map it read.\<close>

definition reuse_run :: "oaction list" where
  "reuse_run = [CoreStep (NewGuard 0), ReaderRead 0] @ map CoreStep (write_once [0])
     @ [CoreStep (WriterCall ByGuard), LoadStale, CoreStep WriterStep, CoreStep WriterStep, CoreStep (DropGuard 0),
        CoreStep (ReleaseResidual 0), CoreStep (ReleaseStoreZero 0), CoreStep (ReleaseUnpark 0), CoreStep WriterStep, CoreStep WriterStep,
        WriterWrite]"

theorem maps_race_free_witness:
  "next_event (oexample reuse_run) = 5 \<and> writes (cells (oexample reuse_run) First) = {4}
   \<and> oexec WriterWrite (oexample reuse_run) \<noteq> Some (Inl (UB DataRace))"
proof (intro conjI)
  show "next_event (oexample reuse_run) = 5" by code_simp
  show "writes (cells (oexample reuse_run) First) = {4}" by code_simp
  have "oreachable (\<lambda>_. True) (oexample reuse_run)" by (rule oexample_reachable) (simp add: list_all_iff)
  then show "oexec WriterWrite (oexample reuse_run) \<noteq> Some (Inl (UB DataRace))"
    using maps_race_free by blast
qed

end
