(* ===== verification/ThreadCell.thy ===== *)
theory ThreadCell
  imports OrderingInv
begin

text \<open>
  The cell \<open>writer_thread\<close> under happens-before: provided that \<open>park\<close> returns only for an \<open>unpark\<close>, its accesses are
  ordered. The writer's write is released by the \<open>fetch_add\<close> that announces the wait, and acquired by the reader that
  ends it; that reader's read is ordered before the next write by the token of \<open>unpark\<close> and \<open>park\<close> alone.
\<close>

section \<open>Views only grow\<close>

lemmas writer_view_defs = sync_load_view_def sync_set_thread_view_def sync_fetch_add_view_def sync_park_view_def
  sync_reload_view_def sync_store_zero_view_def publish_lock_view_def swap_maps_view_def
  publish_unlock_view_def publish_fetch_add_view_def drop_write_handle_view_def view_defs

lemma writer_view_grows: "cur (writer_view x) \<subseteq> cur (writer_view (writer_step_view pc x))"
  by (cases "(pc, x)" rule: writer_step_view.cases)
    (auto simp: writer_view_defs)

lemma writer_step_guard_views [simp]: "guard_views (writer_step_view pc x) = guard_views x"
  by (cases "(pc, x)" rule: writer_step_view.cases)
    (auto simp: writer_view_defs)

lemmas reader_view_defs = new_reader_view_def release_refcount_view_def increment_view_def decrement_view_def
  release_residual_view_def release_store_zero_view_def release_unpark_view_def done_if_released_def
  guard_done_view_def publish_set_map_view_def view_defs

lemma step_view_writer: "cur (writer_view x) \<subseteq> cur (writer_view (step_view a t x))"
  by (cases a) (auto simp: reader_view_defs writer_view_grows [THEN subsetD])

lemma update_grows:
  "j < length vs \<Longrightarrow> cur (vs ! j) \<subseteq> cur v \<Longrightarrow> i < length vs \<Longrightarrow> cur (vs ! i) \<subseteq> cur (vs[j := v] ! i)"
  by (cases "i = j") auto

lemma step_view_guard:
  assumes "i < length (guard_views x)" "\<And>j. a \<in> {DropGuard j, ReleaseResidual j, ReleaseUnpark j} \<Longrightarrow> j < length (guard_views x)"
  shows "cur (guard_views x ! i) \<subseteq> cur (guard_views (step_view a t x) ! i)"
  using assms by (cases a) (auto simp: reader_view_defs nth_append intro!: update_grows [THEN subsetD])

text \<open>The steps that leave the cell and the tokens alone.\<close>

definition off_cell :: "action \<Rightarrow> state \<Rightarrow> bool" where
  "off_cell a s \<longleftrightarrow> (\<forall>i. a \<noteq> ReleaseUnpark i) \<and> \<not> (a = WriterStep \<and> (\<exists>c. writer s = SyncSetThread c))"

lemma step_view_off_cell:
  assumes "off_cell a (core_state x)"
  shows "thread_cell (step_view a t x) = thread_cell x" "token_view (step_view a t x) = token_view x"
proof -
  have "thread_cell (writer_step_view pc x) = thread_cell x \<and> token_view (writer_step_view pc x) = token_view x"
    if "\<forall>c. pc \<noteq> SyncSetThread c" for pc
    using that by (cases "(pc, x)" rule: writer_step_view.cases)
      (auto simp: writer_view_defs)
  with assms show "thread_cell (step_view a t x) = thread_cell x" "token_view (step_view a t x) = token_view x"
    by (cases a; auto simp: off_cell_def reader_view_defs)+
qed

section \<open>The invariant\<close>

definition waking :: "ReadGuard \<Rightarrow> bool" where
  "waking g \<longleftrightarrow> phase g = ZeroStore \<or> phase g = Unparking"

definition waiting_pc :: "writer_pc \<Rightarrow> bool" where
  "waiting_pc pc \<longleftrightarrow> (\<exists>c. pc = SyncPark c \<or> pc = SyncReload c)"

definition cell_ok :: "ostate \<Rightarrow> bool" where
  "cell_ok x \<longleftrightarrow>
     (let s = core_state x; c = thread_cell x; w = cur (writer_view x) in
      writes c \<subseteq> w
      \<and> reads c \<subseteq> w \<union> (if tokens s (writer_tid s) then token_view x (writer_tid s) else {})
      \<and> (\<forall>i<length (guards s). waking (guards s ! i) \<longrightarrow> writes c \<subseteq> cur (guard_views x ! i))
      \<and> (waiting_pc (writer s) \<longrightarrow> writes c \<subseteq> residual_view x))"

definition tinv :: "ostate \<Rightarrow> bool" where
  "tinv x \<longleftrightarrow> oinv x \<and> wake_ok (core_state x) \<and> cell_ok x"

lemma cell_ok_keep:
  assumes "cell_ok x" "thread_cell y = thread_cell x" "token_view y = token_view x"
    and "cur (writer_view x) \<subseteq> cur (writer_view y)"
    and "tokens (core_state x) (writer_tid (core_state x)) \<Longrightarrow>
      tokens (core_state y) (writer_tid (core_state y)) \<and> writer_tid (core_state y) = writer_tid (core_state x)
      \<or> token_view x (writer_tid (core_state x)) \<subseteq> cur (writer_view y)"
    and "\<And>i. i < length (guards (core_state y)) \<Longrightarrow> waking (guards (core_state y) ! i) \<Longrightarrow>
      writes (thread_cell x) \<subseteq> cur (guard_views y ! i)"
    and "waiting_pc (writer (core_state y)) \<Longrightarrow> writes (thread_cell x) \<subseteq> residual_view y"
  shows "cell_ok y"
  using assms by (auto simp: cell_ok_def Let_def split: if_splits)

section \<open>Steps\<close>

lemma writer_step_guards: "writer_step s = Some (Inr t) \<Longrightarrow> guards t = guards s"
proof (cases "writer s")
  case (PubSwap ks b)
  assume "writer_step s = Some (Inr t)"
  with PubSwap publish_swap_effect [of ks b s t] show ?thesis by simp
qed (auto simp: sync_load_def sync_set_thread_def sync_fetch_add_def sync_park_def
       sync_reload_def sync_store_zero_def publish_lock_def publish_unlock_def publish_fetch_add_def
       split: if_splits)

text \<open>A guard that is waking the writer after the step did so before, or has the write in its view.\<close>

lemma guard_step_waking:
  assumes "oinv x" "exec a (core_state x) = Some (Inr t)" "cell_ok x"
    and "i < length (guards t)" "waking (guards t ! i)"
    and "\<And>j. a \<noteq> ReleaseResidual j"
  shows "writes (thread_cell x) \<subseteq> cur (guard_views (step_view a t x) ! i)"
proof -
  let ?s = "core_state x"
  note len = oinvD(2) [OF assms(1)]
  have old: "i < length (guards ?s)" "waking (guards ?s ! i)"
    and j: "\<And>j. a \<in> {DropGuard j, ReleaseResidual j, ReleaseUnpark j} \<Longrightarrow> j < length (guard_views x)"
  proof -
    have "i < length (guards ?s) \<and> waking (guards ?s ! i)
      \<and> (\<forall>j. a \<in> {DropGuard j, ReleaseResidual j, ReleaseUnpark j} \<longrightarrow> j < length (guards ?s))"
    proof (cases a)
      case (NewGuard k)
      with assms(2) read_guard_effect [OF oinvD(1) [OF assms(1)], of k t] assms(4,5) show ?thesis
        by (auto simp: nth_append waking_def split: if_splits)
    next
      case (DropGuard j)
      with assms(2) drop_guard_effect [OF oinvD(1) [OF assms(1)], of j t] assms(4,5) show ?thesis
        by (auto simp: nth_list_update waking_def split: if_splits)
    next
      case (ReleaseStoreZero j)
      with assms(2) release_store_zero_effect [of j ?s t] assms(4,5) show ?thesis
        by (auto simp: nth_list_update waking_def in_phase_def split: if_splits)
    next
      case (ReleaseUnpark j)
      with assms(2) release_unpark_effect [of j ?s t] assms(4,5) show ?thesis
        by (auto simp: nth_list_update waking_def in_phase_def split: if_splits)
    next
      case WriterStep
      have "guards t = guards ?s" using assms(2) WriterStep writer_step_guards by (simp del: writer_step.simps)
      with WriterStep assms(4,5) show ?thesis by simp
    qed (use assms in \<open>auto simp: clone_reader_def new_reader_def release_refcount_def publish_set_map_def
           park_spuriously_def split: if_splits writer_pc.splits\<close>)
    then show "i < length (guards ?s)" "waking (guards ?s ! i)"
      "\<And>j. a \<in> {DropGuard j, ReleaseResidual j, ReleaseUnpark j} \<Longrightarrow> j < length (guard_views x)"
      using len by auto
  qed
  then have "writes (thread_cell x) \<subseteq> cur (guard_views x ! i)"
    using assms(3) by (simp add: cell_ok_def Let_def)
  also have "\<dots> \<subseteq> cur (guard_views (step_view a t x) ! i)"
    using old(1) len j by (intro step_view_guard) auto
  finally show ?thesis .
qed

lemma no_token: "wake_ok s \<Longrightarrow> \<not> is_parked (writer s) \<Longrightarrow> \<not> tokens s t"
  by (cases "t = writer_tid s") (auto simp: wake_ok_def wake_rel_def)

lemma tinvD: "tinv x \<Longrightarrow> oinv x" "tinv x \<Longrightarrow> wake_ok (core_state x)" "tinv x \<Longrightarrow> cell_ok x"
  by (simp_all add: tinv_def)

text \<open>Steps that neither touch the cell nor the residual counter, nor take part in the wait.\<close>

lemma cell_ok_quiet:
  assumes "tinv x" "exec a (core_state x) = Some (Inr t)" "off_cell a (core_state x)" "\<And>j. a \<noteq> ReleaseResidual j"
    and "residual_view (step_view a t x) = residual_view x"
    and "waiting_pc (writer t) \<Longrightarrow> waiting_pc (writer (core_state x))"
    and "tokens t = tokens (core_state x)"
    and "writer_tid t = writer_tid (core_state x) \<or> \<not> is_parked (writer (core_state x))"
  shows "cell_ok ((step_view a t x)\<lparr>core_state := t\<rparr>)"
proof (rule cell_ok_keep [OF tinvD(3) [OF assms(1)]])
  show "writes (thread_cell x) \<subseteq> cur (guard_views ((step_view a t x)\<lparr>core_state := t\<rparr>) ! i)"
    if "i < length (guards (core_state ((step_view a t x)\<lparr>core_state := t\<rparr>)))"
      "waking (guards (core_state ((step_view a t x)\<lparr>core_state := t\<rparr>)) ! i)" for i
    using guard_step_waking [OF tinvD(1) [OF assms(1)] assms(2) tinvD(3) [OF assms(1)] _ _ assms(4)] that by simp
  show "waiting_pc (writer (core_state ((step_view a t x)\<lparr>core_state := t\<rparr>))) \<Longrightarrow>
      writes (thread_cell x) \<subseteq> residual_view ((step_view a t x)\<lparr>core_state := t\<rparr>)"
    using assms(5,6) tinvD(3) [OF assms(1)] by (simp add: cell_ok_def Let_def)
qed (use assms(7,8) no_token [OF tinvD(2) [OF assms(1)]] step_view_off_cell [OF assms(3)] step_view_writer in auto)

lemma cell_ok_release_residual:
  assumes "tinv x" "release_residual i (core_state x) = Some (Inr t)" "pinv t"
  shows "cell_ok ((step_view (ReleaseResidual i) t x)\<lparr>core_state := t\<rparr>)" (is "cell_ok ?y")
proof -
  let ?s = "core_state x" and ?v = "guard_views x ! i"
  note ok = tinvD(3) [OF assms(1), unfolded cell_ok_def Let_def]
  note len = oinvD(2) [OF tinvD(1) [OF assms(1)]]
  have eff: "writer_same ?s t" "tokens t = tokens ?s" "in_phase i Releasing ?s"
    "guards t = (guards ?s)[i := (guards ?s ! i)\<lparr>phase := if residual ?s \<noteq> ISIZE_MIN + 1 then Released else ZeroStore\<rparr>]"
    using release_residual_effect [OF assms(2)] by auto
  have i: "i < length (guards ?s)" "phase (guards ?s ! i) = Releasing" using eff(3) by (auto simp: in_phase_def)
  have views: "residual_view ?y = residual_view x \<union> cur (guard_views ?y ! i)" "residual_view x \<subseteq> cur (guard_views ?y ! i)"
    "\<And>j. j \<noteq> i \<Longrightarrow> guard_views ?y ! j = guard_views x ! j"
    using i len by (auto simp: reader_view_defs)
  have "waiting_pc (writer t)" if "waking (guards t ! i)"
  proof -
    have "0 < n_zero t"
      using that i eff(4) unfolding n_zero_def by (intro cnt_nth_pos [of i]) (auto simp: in_zero_def waking_def split: if_splits)
    then show ?thesis using zero_parked [OF assms(3)] by (cases "writer t") (auto simp: waiting_pc_def is_parked_def)
  qed
  then have w: "writes (thread_cell x) \<subseteq> residual_view x" if "waking (guards t ! i)"
    using that ok eff(1) by (simp add: writer_same_def)
  show ?thesis
  proof (rule cell_ok_keep [OF tinvD(3) [OF assms(1)]])
    fix j
    assume "j < length (guards (core_state ?y))" "waking (guards (core_state ?y) ! j)"
    then have j: "j < length (guards ?s)" "waking (guards t ! j)" using eff(4) by simp_all
    show "writes (thread_cell x) \<subseteq> cur (guard_views ?y ! j)"
    proof (cases "j = i")
      case True
      with w j views(2) show ?thesis by auto
    next
      case False
      then have "waking (guards ?s ! j)" using j eff(4) by simp
      with ok j(1) views(3) [OF False] show ?thesis by auto
    qed
  next
    show "waiting_pc (writer (core_state ?y)) \<Longrightarrow> writes (thread_cell x) \<subseteq> residual_view ?y"
      using ok eff(1) views(1) by (auto simp: writer_same_def)
  qed (use eff in \<open>auto simp: reader_view_defs writer_same_def\<close>)
qed

lemma cell_ok_release_store_zero:
  assumes "tinv x" "release_store_zero i (core_state x) = Some (Inr t)"
  shows "cell_ok ((step_view (ReleaseStoreZero i) t x)\<lparr>core_state := t\<rparr>)"
proof (rule cell_ok_keep [OF tinvD(3) [OF assms(1)]])
  note eff = release_store_zero_effect [OF assms(2)]
  show "writes (thread_cell x) \<subseteq> cur (guard_views ((step_view (ReleaseStoreZero i) t x)\<lparr>core_state := t\<rparr>) ! j)"
    if "j < length (guards (core_state ((step_view (ReleaseStoreZero i) t x)\<lparr>core_state := t\<rparr>)))"
      "waking (guards (core_state ((step_view (ReleaseStoreZero i) t x)\<lparr>core_state := t\<rparr>)) ! j)" for j
    using guard_step_waking [OF tinvD(1) [OF assms(1)] _ tinvD(3) [OF assms(1)], of "ReleaseStoreZero i" t j] assms(2) that
    by simp
  show "writes (thread_cell x) \<subseteq> residual_view ((step_view (ReleaseStoreZero i) t x)\<lparr>core_state := t\<rparr>)"
    using tinvD(3) [OF assms(1)] eff by (auto simp: cell_ok_def Let_def reader_view_defs waking_def in_phase_def)
qed (use release_store_zero_effect [OF assms(2)] in \<open>auto simp: reader_view_defs writer_same_def\<close>)

lemma cell_ok_release_unpark:
  assumes "tinv x" "release_unpark i (core_state x) = Some (Inr t)"
  shows "cell_ok ((step_view (ReleaseUnpark i) t x)\<lparr>core_state := t\<rparr>)" (is "cell_ok ?y")
proof -
  let ?s = "core_state x"
  note ok = tinvD(3) [OF assms(1), unfolded cell_ok_def Let_def]
  note eff = release_unpark_effect [OF assms(2)]
  have i: "i < length (guards ?s)" "phase (guards ?s ! i) = Unparking" using eff by (auto simp: in_phase_def)
  have "0 < n_unp ?s" using i unfolding n_unp_def by (intro cnt_nth_pos [of i]) (auto simp: in_unpark_def)
  then have "is_parked (writer ?s)" using tinvD(2) [OF assms(1)] by (auto simp: wake_ok_def wake_rel_def split: if_splits)
  then have th: "writer_thread ?s = Some (writer_tid ?s)"
    using inv_thread [OF oinvD(1) [OF tinvD(1) [OF assms(1)]]]
    by (cases "writer ?s") (auto simp: is_parked_def past_set_thread_def)
  have guards: "writes (thread_cell x) \<subseteq> cur (guard_views ?y ! j)" if "j < length (guards t)" "waking (guards t ! j)" for j
    using guard_step_waking [OF tinvD(1) [OF assms(1)] _ tinvD(3) [OF assms(1)] that, of "ReleaseUnpark i"] assms(2) by simp
  have "thread_cell ?y = (thread_cell x)\<lparr>reads := insert (next_event x) (reads (thread_cell x))\<rparr>"
    "writer_view ?y = writer_view x" "residual_view ?y = residual_view x"
    "next_event x \<in> token_view ?y (writer_tid ?s)" "token_view x (writer_tid ?s) \<subseteq> token_view ?y (writer_tid ?s)"
    using th by (auto simp: reader_view_defs)
  then show ?thesis
    unfolding cell_ok_def Let_def using ok eff th guards
    by (auto simp: writer_same_def simp del: step_view.simps split: if_splits)
qed

lemma after_sync_park [simp]: "after_sync c \<noteq> SyncPark c'"
  by (cases c) simp_all

lemma cell_ok_writer_step:
  assumes "tinv x" "writer_step (core_state x) = Some (Inr t)"
  shows "cell_ok ((writer_step_view (writer (core_state x)) x)\<lparr>core_state := t\<rparr>)"
proof -
  let ?s = "core_state x"
  let ?y = "(writer_step_view (writer ?s) x)\<lparr>core_state := t\<rparr>"
  note ok = tinvD(3) [OF assms(1), unfolded cell_ok_def Let_def]
  have gs: "guards t = guards ?s" using writer_step_guards [OF assms(2)] .
  show ?thesis
  proof (cases "writer ?s")
    case (SyncSetThread c)
    then have "\<not> tokens ?s u" for u using no_token [OF tinvD(2) [OF assms(1)]] by (simp add: is_parked_def)
    moreover have "\<not> waking (guards ?s ! j)" if "j < length (guards ?s)" for j
    proof -
      have "n_unp ?s = 0" using tinvD(2) [OF assms(1)] SyncSetThread by (simp add: wake_ok_def wake_rel_def is_parked_def)
      moreover have "n_zero ?s = 0"
        using inv_res_rel [OF oinvD(1) [OF tinvD(1) [OF assms(1)]]] SyncSetThread by (simp add: res_rel_def resting_rel_def)
      ultimately show ?thesis
        using that by (auto simp: waking_def n_unp_def n_zero_def cnt_zero_iff in_unpark_def in_zero_def)
    qed
    ultimately show ?thesis
      using ok gs SyncSetThread assms(2)
      by (auto simp: cell_ok_def Let_def sync_set_thread_def sync_set_thread_view_def waiting_pc_def)
  next
    case (SyncPark c)
    then show ?thesis
      using ok gs assms(2)
      by (auto simp: cell_ok_def Let_def sync_park_def sync_park_view_def waiting_pc_def split: if_splits)
  next
    case (SyncFetchAdd c)
    then show ?thesis
      using ok gs assms(2)
      by (auto simp: cell_ok_def Let_def sync_fetch_add_def sync_fetch_add_view_def view_defs split: if_splits)
  next
    case (SyncReload c)
    then show ?thesis
      using ok gs assms(2)
      by (auto simp: cell_ok_def Let_def sync_reload_def sync_reload_view_def view_defs waiting_pc_def split: if_splits)
  next
    case (PubSwap ks a)
    with assms(2) have sw: "publish_swap ks a ?s = Inr t" by simp
    then have "\<not> waiting_pc (writer t)"
      by (cases ks) (auto simp: waiting_pc_def Let_def split: option.splits prod.splits if_splits)
    then show ?thesis
      using ok gs publish_swap_effect [OF sw] PubSwap
      by (cases ks) (auto simp: cell_ok_def Let_def swap_maps_view_def view_defs)
  qed (use ok gs assms(2) in \<open>auto simp: cell_ok_def Let_def waiting_pc_def view_defs sync_load_def sync_load_view_def sync_store_zero_def
      sync_store_zero_view_def publish_lock_def publish_lock_view_def publish_unlock_def publish_unlock_view_def
      publish_fetch_add_def publish_fetch_add_view_def drop_write_handle_view_def split: if_splits\<close>)
qed

lemma tinv_core:
  assumes "tinv x" "exec a (core_state x) = Some (Inr t)" "not_spurious a"
  shows "tinv ((step_view a t x)\<lparr>core_state := t\<rparr>)"
proof -
  note inv = tinvD [OF assms(1)]
  have t: "pinv t" using inv_exec [OF oinvD(1) [OF inv(1)], of a] assms(2) by simp
  have "cell_ok ((step_view a t x)\<lparr>core_state := t\<rparr>)"
  proof (cases a)
    case (NewGuard k)
    with assms(2) read_guard_effect [OF oinvD(1) [OF inv(1)], of k t] show ?thesis
      by (intro cell_ok_quiet [OF assms(1,2)]) (auto simp: off_cell_def reader_view_defs writer_same_def)
  next
    case (DropGuard i)
    with assms(2) drop_guard_effect [OF oinvD(1) [OF inv(1)], of i t] show ?thesis
      by (intro cell_ok_quiet [OF assms(1,2)]) (auto simp: off_cell_def reader_view_defs writer_same_def)
  next
    case (ReleaseResidual i)
    with assms(2) t show ?thesis by (simp only: exec.simps) (rule cell_ok_release_residual [OF assms(1)])
  next
    case (ReleaseStoreZero i)
    with assms(2) show ?thesis by (simp only: exec.simps) (rule cell_ok_release_store_zero [OF assms(1)])
  next
    case (ReleaseUnpark i)
    with assms(2) show ?thesis by (simp only: exec.simps) (rule cell_ok_release_unpark [OF assms(1)])
  next
    case WriterStep
    with assms(2) show ?thesis by (simp only: exec.simps step_view.simps) (rule cell_ok_writer_step [OF assms(1)])
  next
    case ParkSpuriously
    with assms(3) show ?thesis by (simp add: not_spurious_def)
  qed (rule cell_ok_quiet [OF assms(1,2)]; use assms(2) in \<open>auto simp: off_cell_def reader_view_defs clone_reader_def
         new_reader_def release_refcount_def publish_set_map_def waiting_pc_def is_parked_def split: if_splits\<close>)+
  then show ?thesis
    using oinv_proto [OF inv(1) assms(2)] wake_exec [OF oinvD(1) [OF inv(1)] inv(2) assms(2,3)]
    by (simp add: tinv_def)
qed

text \<open>The accesses of the maps and the stale loads; without spurious wake-ups the second of these sees zero.\<close>

lemma tinv_reader_with_map:
  assumes "tinv x" "reader_with_map i x = Some (Inr y)"
  shows "tinv y"
proof -
  note inv = tinvD [OF assms(1)]
  have "oinv y" using oinv_reader_with_map [OF inv(1) assms(2)] by auto
  moreover have y: "core_state y = core_state x" "thread_cell y = thread_cell x" "token_view y = token_view x"
      "residual_view y = residual_view x" "writer_view y = writer_view x"
      "guard_views y = (guard_views x)[i := (guard_views x ! i)\<lparr>cur := insert (next_event x) (cur (guard_views x ! i))\<rparr>]"
    and i: "i < length (guards (core_state x))"
    using assms(2) by (auto simp: reader_with_map_def in_phase_def Let_def bind_res_eq_Inr split: if_splits)
  have "writes (thread_cell x) \<subseteq> cur (guard_views y ! j)"
    if j: "j < length (guards (core_state x))" "waking (guards (core_state x) ! j)" for j
  proof -
    have "writes (thread_cell x) \<subseteq> cur (guard_views x ! j)" using inv(3) j by (simp add: cell_ok_def Let_def)
    also have "\<dots> \<subseteq> cur (guard_views y ! j)"
      using j(1) i oinvD(2) [OF inv(1)] unfolding y by (intro update_grows) auto
    finally show ?thesis .
  qed
  then have "cell_ok y"
    using inv(3) by (intro cell_ok_keep [OF inv(3)]) (simp_all add: y(1-5) cell_ok_def Let_def)
  ultimately show ?thesis using inv(2) by (simp add: tinv_def y(1))
qed

lemma tinv_writer_access:
  assumes "tinv x" "writer_access access x = Some (Inr y)" "access = cell_with \<or> access = cell_with_mut"
  shows "tinv y"
proof -
  note inv = tinvD [OF assms(1)]
  have "oinv y" using oinv_writer_access [OF inv(1) assms(2,3)] by auto
  moreover have y: "core_state y = core_state x" "thread_cell y = thread_cell x" "token_view y = token_view x"
      "residual_view y = residual_view x" "guard_views y = guard_views x"
      "cur (writer_view x) \<subseteq> cur (writer_view y)"
    using assms(2) by (auto simp: writer_access_def Let_def bind_res_eq_Inr split: if_splits)
  have "cell_ok y"
    using inv(3) y(6) by (intro cell_ok_keep [OF inv(3)]) (auto simp: y(1-5) cell_ok_def Let_def)
  ultimately show ?thesis using inv(2) by (simp add: tinv_def y(1))
qed

lemma tinv_load_stale:
  assumes "tinv x" "sync_load_stale x = Some (Inr y)"
  shows "tinv y"
proof -
  note inv = tinvD [OF assms(1)]
  have o: "oinv y" using oinv_load_stale [OF inv(1) assms(2)] by auto
  from assms(2) obtain c where c: "writer (core_state x) = SyncLoad c"
    and y: "y = x\<lparr>core_state := (core_state x)\<lparr>writer := SyncSetThread c\<rparr>\<rparr>"
    by (auto simp: sync_load_stale_def split: writer_pc.splits)
  have "wake_ok (core_state y)" using inv(2) c by (intro wake_quiet [OF inv(2)]) (simp_all add: y is_parked_def)
  moreover have "cell_ok y"
    using inv(3) by (intro cell_ok_keep [OF inv(3)]) (auto simp: y cell_ok_def Let_def waiting_pc_def)
  ultimately show ?thesis using o by (simp add: tinv_def)
qed

lemma no_reload_stale:
  assumes "tinv x"
  shows "sync_reload_stale x = None"
proof -
  note inv = tinvD [OF assms]
  have False if c: "writer (core_state x) = SyncReload c"
    and owed: "residual (core_state x) \<noteq> 0 \<or> tokens (core_state x) (writer_tid (core_state x))
      \<or> (\<exists>g\<in>set (guards (core_state x)). phase g = Unparking)" for c
  proof -
    have "n_res (core_state x) = 0" "n_zero (core_state x) = 0" "n_unp (core_state x) = 0"
      "\<not> tokens (core_state x) (writer_tid (core_state x))"
      using inv(2) c by (auto simp: wake_ok_def wake_rel_def is_parked_def)
    moreover from this have "residual (core_state x) = 0"
      using inv_res_rel [OF oinvD(1) [OF inv(1)]] c by (simp add: res_rel_def waiting_rel_def)
    ultimately show False using owed by (auto simp: n_unp_def cnt_zero_iff in_unpark_def)
  qed
  then show ?thesis by (auto simp: sync_reload_stale_def Let_def split: writer_pc.splits)
qed

definition wakes_for_unpark :: "oaction \<Rightarrow> bool" where
  "wakes_for_unpark a \<longleftrightarrow> a \<noteq> CoreStep ParkSpuriously"

lemma oreachable_tinv: "oreachable wakes_for_unpark x \<Longrightarrow> tinv x"
proof (induction rule: oreachable.induct)
  case (init t key s)
  then have "guards s = []" "writer s = Idle"
    by (auto simp: build_map_def build_core_def new_reader_def split: if_splits)
  moreover have "oinv (build_order s)" using oreachable.init [OF init] by (rule oreachable_inv)
  ultimately show ?case
    using wake_build_map [OF init]
    by (simp add: tinv_def cell_ok_def build_order_def cell_new_def waiting_pc_def)
next
  case (step x a x')
  show ?case
  proof (cases a)
    case (CoreStep b)
    with step.hyps(3) obtain t where t: "exec b (core_state x) = Some (Inr t)"
      "x' = (step_view b t x)\<lparr>core_state := t\<rparr>" by (auto simp: bind_res_eq_Inr)
    moreover have "not_spurious b" using step.hyps(2) CoreStep by (auto simp: wakes_for_unpark_def not_spurious_def)
    ultimately show ?thesis using tinv_core [OF step.IH] by simp
  next
    case ReloadStale
    with step show ?thesis using no_reload_stale [OF step.IH] by simp
  next
    case (ReaderRead i)
    with step show ?thesis using tinv_reader_with_map [OF step.IH] by simp
  next
    case WriterRead
    with step show ?thesis using tinv_writer_access [OF step.IH, of cell_with] by simp
  next
    case WriterWrite
    with step show ?thesis using tinv_writer_access [OF step.IH, of cell_with_mut] by simp
  next
    case LoadStale
    with step show ?thesis using tinv_load_stale [OF step.IH] by simp
  qed
qed

section \<open>Property\<close>

text \<open>
  C29: provided that \<open>park\<close> returns only for an \<open>unpark\<close> of this protocol, the non-atomic cell \<open>writer_thread\<close> is free
  of data races under happens-before: a reader about to unpark has the writer's write in its view, and the
  writer about to overwrite the cell has every earlier read in its own. The order of the read before the next
  write comes from the wake-up alone, so without that proviso it is lost.
\<close>

theorem thread_cell_race_free:
  assumes "oreachable wakes_for_unpark x"
  shows "\<not> thread_cell_race x"
proof -
  note inv = tinvD [OF oreachable_tinv [OF assms]]
  have "\<not> tokens (core_state x) (writer_tid (core_state x))" if "writer (core_state x) = SyncSetThread c" for c
    using no_token [OF inv(2)] that by (simp add: is_parked_def)
  with inv(3) show ?thesis
    by (auto simp: thread_cell_race_def cell_ok_def Let_def waking_def split: if_splits)
qed

text \<open>The reader that ends the wait is about to read the cell, and has already stored zero.\<close>

definition wake_run :: "oaction list" where
  "wake_run = map CoreStep (waiting_run @ [DropGuard 0, ReleaseResidual 0, ReleaseStoreZero 0])"

theorem thread_cell_race_free_witness:
  "in_phase 0 Unparking (core_state (oexample wake_run)) \<and> writes (thread_cell (oexample wake_run)) = {1}
   \<and> \<not> thread_cell_race (oexample wake_run)"
proof (intro conjI)
  show "in_phase 0 Unparking (core_state (oexample wake_run))" by code_simp
  show "writes (thread_cell (oexample wake_run)) = {1}" by code_simp
  have "list_all wakes_for_unpark wake_run" by code_simp
  then show "\<not> thread_cell_race (oexample wake_run)" by (intro thread_cell_race_free oexample_reachable)
qed

end
