(* ===== verification/Teardown.thy ===== *)
theory Teardown
  imports ThreadCell
begin

text \<open>
  The rest of the non-atomic accesses of the core under happens-before: the cell \<open>writer_map\<close>, which \<open>publish\<close> changes
  and \<open>new_reader\<close> reads under the mutex, and the drop of the core by the last handle.
\<close>

section \<open>The invariant\<close>

definition index_ok :: "ostate \<Rightarrow> bool" where
  "index_ok x \<longleftrightarrow>
     (let c = index_cell x; w = cur (writer_view x) in
      writes c \<subseteq> w \<and> reads c \<subseteq> w \<union> mutex_view x
      \<and> (\<not> refcounts_locked (core_state x) \<longrightarrow> writes c \<subseteq> mutex_view x))"

text \<open>Every access has been seen by a dropped handle, by the writer, by a handle, or by a guard not yet dropped.\<close>

definition unreleased :: "ReadGuard \<Rightarrow> bool" where
  "unreleased g \<longleftrightarrow> phase g \<noteq> Released"

definition arc_cover :: "ostate \<Rightarrow> view" where
  "arc_cover x =
     arc_view x \<union> cur (writer_view x) \<union> (\<Union>k\<in>keys (core_state x). handle_view x k \<union> dropped_view x k)
     \<union> seen unreleased (guards (core_state x)) (guard_views x)"

definition arc_ok :: "ostate \<Rightarrow> bool" where
  "arc_ok x \<longleftrightarrow>
     (\<forall>m. reads (cells x m) \<subseteq> arc_cover x) \<and> reads (index_cell x) \<subseteq> arc_cover x
     \<and> reads (thread_cell x) \<union> writes (thread_cell x) \<subseteq> arc_cover x
     \<and> (writer (core_state x) = Closed \<longrightarrow> cur (writer_view x) \<subseteq> arc_view x)"

definition dinv :: "ostate \<Rightarrow> bool" where
  "dinv x \<longleftrightarrow> oinv x \<and> index_ok x \<and> arc_ok x"

lemma dinvD:
  assumes "dinv x"
  shows "oinv x" "index_ok x" "arc_ok x"
  using assms by (simp_all add: dinv_def)

section \<open>Steps of the protocol\<close>

lemma writer_step_view_frame [simp]:
  "handle_view (writer_step_view pc x) = handle_view x" "dropped_view (writer_step_view pc x) = dropped_view x"
  "index_cell (writer_step_view pc x) = index_cell x" "cells (writer_step_view pc x) = cells x"
  by (cases "(pc, x)" rule: writer_step_view.cases; auto simp: writer_view_defs)+

lemma writer_step_view_grows:
  "mutex_view x \<subseteq> mutex_view (writer_step_view pc x)" "arc_view x \<subseteq> arc_view (writer_step_view pc x)"
  by (cases "(pc, x)" rule: writer_step_view.cases; auto simp: writer_view_defs)+

lemma step_view_grows:
  "mutex_view x \<subseteq> mutex_view (step_view a t x)" "arc_view x \<subseteq> arc_view (step_view a t x)"
  using writer_step_view_grows [of x "writer (core_state x)"]
  by (cases a; auto simp: reader_view_defs)+

lemma step_view_cells [simp]: "cells (step_view a t x) = cells x"
  by (cases a) (auto simp: reader_view_defs)

lemma exec_locked:
  "exec a s = Some (Inr t) \<Longrightarrow> a \<noteq> WriterStep \<Longrightarrow> refcounts_locked t = refcounts_locked s"
  by (cases a) (auto simp: clone_reader_def new_reader_def release_refcount_def read_guard_def drop_guard_def
      release_residual_def release_store_zero_def release_unpark_def publish_set_map_def park_spuriously_def Let_def
      bind_res_def split: if_splits option.splits sum.splits prod.splits writer_pc.splits)

lemma writer_step_locked:
  assumes "writer_step s = Some (Inr t)" "refcounts_locked s" "\<not> refcounts_locked t"
  shows "\<exists>r. writer s = PubUnlock r"
proof (cases "writer s")
  case (PubSwap ks r)
  with assms show ?thesis by (cases ks) (auto simp: Let_def split: option.splits prod.splits if_splits)
qed (use assms in \<open>auto simp: sync_load_def sync_set_thread_def sync_fetch_add_def sync_park_def sync_reload_def
       sync_store_zero_def publish_lock_def publish_fetch_add_def split: if_splits\<close>)

lemma index_ok_keep:
  assumes "index_ok x" "index_cell y = index_cell x" "cur (writer_view x) \<subseteq> cur (writer_view y)"
    "mutex_view x \<subseteq> mutex_view y"
    "\<not> refcounts_locked (core_state y) \<Longrightarrow> refcounts_locked (core_state x) \<Longrightarrow> cur (writer_view x) \<subseteq> mutex_view y"
  shows "index_ok y"
  using assms by (auto simp: index_ok_def Let_def)

lemma index_ok_core:
  assumes "index_ok x" "pinv (core_state x)" "exec a (core_state x) = Some (Inr t)"
  shows "index_ok ((step_view a t x)\<lparr>core_state := t\<rparr>)"
proof (cases a)
  case (CloneReader j k)
  with assms show ?thesis
    by (auto simp: index_ok_def Let_def new_reader_view_def clone_reader_def new_reader_def split: if_splits)
next
  case (WriterIter ks)
  with assms(3) have "refcounts_locked (core_state x)"
    using inv_lock [OF assms(2)] by (auto simp: publish_set_map_def holds_lock_def split: if_splits)
  with WriterIter assms(1) exec_locked [OF assms(3)] show ?thesis
    by (auto simp: index_ok_def Let_def publish_set_map_view_def)
next
  case WriterStep
  have "cur (writer_view x) \<subseteq> mutex_view (writer_step_view (writer (core_state x)) x)"
    if "refcounts_locked (core_state x)" "\<not> refcounts_locked t"
    using writer_step_locked [OF _ that] assms(3) WriterStep by (auto simp: publish_unlock_view_def)
  with WriterStep show ?thesis
    using step_view_writer [of x WriterStep t] step_view_grows(1) [of x WriterStep t]
    by (intro index_ok_keep [OF assms(1)]) simp_all
qed (rule index_ok_keep [OF assms(1)];
     use step_view_writer [of x a t] step_view_grows(1) [of x a t] exec_locked [OF assms(3)] in
       \<open>auto simp: reader_view_defs\<close>)+

section \<open>What the drop of the core has to see\<close>

lemma writer_step_keys: "writer_step s = Some (Inr t) \<Longrightarrow> keys t = keys s"
proof (cases "writer s")
  case (PubSwap ks r)
  assume "writer_step s = Some (Inr t)"
  with PubSwap show ?thesis
    by (cases ks) (auto simp: Let_def keys_lookup split: option.splits prod.splits if_splits)
qed (auto simp: sync_load_def sync_set_thread_def sync_fetch_add_def sync_park_def sync_reload_def
       sync_store_zero_def publish_lock_def publish_unlock_def publish_fetch_add_def keys_def split: if_splits)

lemma arc_cover_guard:
  assumes "oinv x" "i < length (guards (core_state x))" "unreleased (guards (core_state x) ! i)"
    and "guards t = (guards (core_state x))[i := (guards (core_state x) ! i)\<lparr>phase := p\<rparr>]" "keys t = keys (core_state x)"
    and "guard_views y = (guard_views x)[i := v]" "cur (guard_views x ! i) \<subseteq> cur v"
    and "p = Released \<Longrightarrow> cur v \<subseteq> dropped_view y (guard_key i x)"
    and "arc_view y = arc_view x" "writer_view y = writer_view x" "handle_view y = handle_view x"
      "\<And>k. dropped_view x k \<subseteq> dropped_view y k"
  shows "arc_cover x \<subseteq> arc_cover (y\<lparr>core_state := t\<rparr>)"
proof -
  let ?s = "core_state x"
  have key: "guard_key i x \<in> keys ?s"
    using guard_handle [OF oinvD(1) [OF assms(1)] assms(2)] assms(3) by (simp add: guard_key_def unreleased_def)
  have "seen unreleased (guards ?s) (guard_views x) \<subseteq> seen unreleased (guards t) (guard_views y) \<union> (\<Union>k\<in>keys ?s. dropped_view y k)"
    unfolding assms(4,6)
    by (rule seen_update_subset [OF assms(2) oinvD(2) [OF assms(1), symmetric]])
      (use assms(7,8) key in \<open>auto simp: unreleased_def\<close>)
  with assms(5,9-12) show ?thesis by (fastforce simp: arc_cover_def)
qed

lemma arc_cover_guard_step:
  assumes "oinv x" "exec a (core_state x) = Some (Inr t)"
    "a \<in> {DropGuard i, ReleaseResidual i, ReleaseStoreZero i, ReleaseUnpark i}"
  shows "arc_cover x \<subseteq> arc_cover ((step_view a t x)\<lparr>core_state := t\<rparr>)"
proof -
  let ?s = "core_state x"
  note pinv = oinvD(1) [OF assms(1)] and len = oinvD(2) [OF assms(1)]
  from assms(3) consider (DropGuard) "a = DropGuard i" | (ReleaseResidual) "a = ReleaseResidual i"
    | (ReleaseStoreZero) "a = ReleaseStoreZero i" | (ReleaseUnpark) "a = ReleaseUnpark i" by blast
  then show ?thesis
  proof cases
    case DropGuard
    with assms(2) have st: "drop_guard i ?s = Some (Inr t)" by simp
    note eff = drop_guard_effect [OF pinv st] drop_guard_keys [OF st]
    show ?thesis unfolding DropGuard
      by (rule arc_cover_guard [OF assms(1), of i]) (use eff len in \<open>auto simp: unreleased_def reader_view_defs in_phase_def guard_key_def\<close>)
  next
    case ReleaseResidual
    with assms(2) have st: "release_residual i ?s = Some (Inr t)" by simp
    note eff = release_residual_effect [OF st]
    have "keys t = keys ?s" using st by (auto simp: release_residual_def keys_def Let_def split: if_splits)
    with eff len show ?thesis unfolding ReleaseResidual
      by (intro arc_cover_guard [OF assms(1), of i]) (auto simp: unreleased_def reader_view_defs in_phase_def guard_key_def)
  next
    case ReleaseStoreZero
    with assms(2) have st: "release_store_zero i ?s = Some (Inr t)" by simp
    note eff = release_store_zero_effect [OF st]
    have "keys t = keys ?s" using st by (auto simp: release_store_zero_def keys_def split: if_splits)
    with eff len show ?thesis unfolding ReleaseStoreZero
      by (intro arc_cover_guard [OF assms(1), of i]) (auto simp: unreleased_def reader_view_defs in_phase_def guard_key_def)
  next
    case ReleaseUnpark
    with assms(2) have st: "release_unpark i ?s = Some (Inr t)" by simp
    note eff = release_unpark_effect [OF st]
    have "keys t = keys ?s" using st by (auto simp: release_unpark_def keys_def split: if_splits option.splits)
    with eff len show ?thesis unfolding ReleaseUnpark
      by (intro arc_cover_guard [OF assms(1), of i]) (auto simp: unreleased_def reader_view_defs in_phase_def guard_key_def)
  qed
qed

lemma arc_cover_core:
  assumes "oinv x" "exec a (core_state x) = Some (Inr t)"
  shows "arc_cover x \<subseteq> arc_cover ((step_view a t x)\<lparr>core_state := t\<rparr>)"
proof -
  let ?s = "core_state x"
  note pinv = oinvD(1) [OF assms(1)] and len = oinvD(2) [OF assms(1)]
  show ?thesis
  proof (cases a)
    case (CloneReader j k)
    with assms(2) have new: "k \<notin> keys ?s" "keys t = insert k (keys ?s)" "guards t = guards ?s"
      by (auto simp: clone_reader_def new_reader_def keys_def split: if_splits)
    then have "handle_view (step_view a t x) l = handle_view x l" "dropped_view (step_view a t x) l = dropped_view x l"
      if "l \<in> keys ?s" for l using that CloneReader by (auto simp: new_reader_view_def Let_def)
    with new CloneReader show ?thesis by (auto simp: arc_cover_def new_reader_view_def Let_def)
  next
    case (DropReader k)
    with assms(2) have "t = ?s\<lparr>refcounts := AList.delete k (refcounts ?s)\<rparr>"
      by (auto simp: release_refcount_def split: if_splits)
    then have "keys t = keys ?s - {k}" "guards t = guards ?s" by (simp_all add: keys_def keys_delete)
    with DropReader show ?thesis by (auto simp: arc_cover_def release_refcount_view_def Let_def)
  next
    case (NewGuard k)
    with assms(2) read_guard_effect [OF pinv, of k t] read_guard_keys [of k ?s t] len show ?thesis
      by (auto simp: arc_cover_def increment_view_def view_defs seen_append)
  next
    case WriterStep
    with assms(2) have "guards t = guards ?s" "keys t = keys ?s"
      by (simp_all add: writer_step_guards writer_step_keys del: writer_step.simps)
    with WriterStep show ?thesis
      using step_view_writer [of x WriterStep t] step_view_grows(2) [of x WriterStep t] by (auto simp: arc_cover_def)
  qed (use assms(2) arc_cover_guard_step [OF assms] in \<open>auto simp: arc_cover_def keys_def publish_set_map_def publish_set_map_view_def park_spuriously_def Let_def
        split: if_splits writer_pc.splits\<close>)
qed

lemma closed_stays:
  assumes "exec a s = Some (Inr t)" "writer s = Closed"
  shows "writer t = Closed \<and> writer_view (step_view a t x) = writer_view x"
  using assms
  by (cases a) (auto simp: clone_reader_def new_reader_def release_refcount_def read_guard_def drop_guard_def
      release_residual_def release_store_zero_def release_unpark_def publish_set_map_def park_spuriously_def Let_def
      bind_res_def reader_view_defs split: if_splits option.splits sum.splits prod.splits)

lemma closing_step:
  assumes "exec a s = Some (Inr t)" "writer s \<noteq> Closed" "writer t = Closed"
  shows "a = WriterStep \<and> writer s = Closing"
proof (cases a)
  case WriterStep
  have "after_sync c \<noteq> Closed" for c by (cases c) simp_all
  moreover have "\<not> (\<exists>ks r. writer s = PubSwap ks r)"
  proof clarify
    fix ks r assume pc: "writer s = PubSwap ks r"
    with assms(1,3) WriterStep show False
      by (cases ks) (auto simp: Let_def split: option.splits prod.splits if_splits)
  qed
  ultimately show ?thesis
    using WriterStep assms
    by (cases "writer s") (auto simp: sync_load_def sync_set_thread_def sync_fetch_add_def sync_park_def sync_reload_def
        sync_store_zero_def publish_lock_def publish_unlock_def publish_fetch_add_def split: if_splits)
qed (use assms in \<open>auto simp: clone_reader_def new_reader_def release_refcount_def read_guard_def drop_guard_def
      release_residual_def release_store_zero_def release_unpark_def publish_set_map_def park_spuriously_def Let_def
      bind_res_def split: if_splits option.splits sum.splits prod.splits writer_pc.splits\<close>)

text \<open>
  The read of \<open>writer_thread\<close> ends the drop of its guard, which its handle sees; the write is the writer's.
\<close>

lemma thread_cell_cover:
  assumes "oinv x" "exec a (core_state x) = Some (Inr t)"
  shows "reads (thread_cell (step_view a t x)) \<union> writes (thread_cell (step_view a t x))
     \<subseteq> reads (thread_cell x) \<union> writes (thread_cell x) \<union> arc_cover ((step_view a t x)\<lparr>core_state := t\<rparr>)"
proof (cases "off_cell a (core_state x)")
  case True
  then show ?thesis by (simp add: step_view_off_cell)
next
  case False
  then consider (Unpark) i where "a = ReleaseUnpark i" | (Set) c where "a = WriterStep" "writer (core_state x) = SyncSetThread c"
    by (auto simp: off_cell_def)
  then show ?thesis
  proof cases
    case Unpark
    with assms(2) have st: "release_unpark i (core_state x) = Some (Inr t)" by simp
    note eff = release_unpark_effect [OF st] and len = oinvD(2) [OF assms(1)]
    have "keys t = keys (core_state x)" using st by (auto simp: release_unpark_def keys_def split: if_splits option.splits)
    moreover have "guard_key i x \<in> keys (core_state x)"
      using guard_handle [OF oinvD(1) [OF assms(1)], of i] eff by (auto simp: guard_key_def in_phase_def)
    moreover have "in_phase i Released t" using eff by (auto simp: in_phase_def)
    ultimately show ?thesis
      using eff len by (auto simp: Unpark arc_cover_def reader_view_defs guard_key_def in_phase_def
          intro!: bexI [of _ "refcount_key (guards (core_state x) ! i)"])
  next
    case Set
    then show ?thesis by (auto simp: sync_set_thread_view_def arc_cover_def Let_def)
  qed
qed

lemma arc_ok_core:
  assumes "oinv x" "arc_ok x" "exec a (core_state x) = Some (Inr t)"
  shows "arc_ok ((step_view a t x)\<lparr>core_state := t\<rparr>)" (is "arc_ok ?y")
proof -
  let ?s = "core_state x"
  note mono = arc_cover_core [OF assms(1,3)]
  have "\<forall>m. reads (cells ?y m) \<subseteq> arc_cover ?y" using assms(2) mono by (auto simp: arc_ok_def)
  moreover have "reads (index_cell ?y) \<subseteq> reads (index_cell x) \<union> arc_cover ?y"
  proof (cases a)
    case (CloneReader j k)
    with assms(3) have "k \<in> keys t" by (auto simp: clone_reader_def new_reader_def keys_def split: if_splits)
    with CloneReader show ?thesis by (auto simp: new_reader_view_def arc_cover_def Let_def)
  qed (auto simp: reader_view_defs)
  then have "reads (index_cell ?y) \<subseteq> arc_cover ?y" using assms(2) mono by (auto simp: arc_ok_def)
  moreover have "reads (thread_cell ?y) \<union> writes (thread_cell ?y) \<subseteq> arc_cover ?y"
    using thread_cell_cover [OF assms(1,3)] mono assms(2) unfolding arc_ok_def by simp blast
  moreover have "cur (writer_view ?y) \<subseteq> arc_view ?y" if "writer t = Closed"
  proof (cases "writer ?s = Closed")
    case True
    with closed_stays [OF assms(3) True, of x] step_view_grows(2) [of x a t] assms(2) show ?thesis
      by (auto simp: arc_ok_def)
  next
    case False
    with closing_step [OF assms(3) False that] show ?thesis by (simp add: drop_write_handle_view_def)
  qed
  ultimately show ?thesis by (simp add: arc_ok_def)
qed

section \<open>Accesses and stale loads\<close>

text \<open>A step that only adds one event of a thread that is still there.\<close>

lemma dinv_more:
  assumes "dinv x" "oinv y" "index_cell y = index_cell x \<and> thread_cell y = thread_cell x" "mutex_view y = mutex_view x" "arc_view y = arc_view x"
    "refcounts_locked (core_state y) = refcounts_locked (core_state x)" "cur (writer_view x) \<subseteq> cur (writer_view y)"
    "arc_cover x \<subseteq> arc_cover y" "\<And>m. reads (cells y m) \<subseteq> reads (cells x m) \<union> arc_cover y"
    "writer (core_state y) \<noteq> Closed \<or> writer (core_state x) = Closed \<and> writer_view y = writer_view x"
  shows "dinv y"
proof -
  note inv = dinvD [OF assms(1)]
  have "index_ok y" using assms(4,6) by (intro index_ok_keep [OF inv(2) _ assms(7)]) (simp_all add: assms(3))
  moreover have "\<forall>m. reads (cells y m) \<subseteq> arc_cover y" using inv(3) assms(8,9) unfolding arc_ok_def by blast
  then have "arc_ok y" using inv(3) assms(3,5,8,10) by (simp add: arc_ok_def) blast
  ultimately show ?thesis using assms(2) by (simp add: dinv_def)
qed

lemma dinv_reader_with_map:
  assumes "dinv x" "reader_with_map i x = Some (Inr y)"
  shows "dinv y"
proof -
  let ?s = "core_state x" and ?t = "guard_views x ! i" and ?e = "next_event x"
  let ?v = "?t\<lparr>cur := insert ?e (cur ?t)\<rparr>"
  note inv = dinvD [OF assms(1)] and len = oinvD(2) [OF dinvD(1) [OF assms(1)]]
  have i: "i < length (guards ?s)" "phase (guards ?s ! i) = Live"
    and y: "core_state y = ?s" "index_cell y = index_cell x \<and> thread_cell y = thread_cell x" "mutex_view y = mutex_view x" "arc_view y = arc_view x"
      "writer_view y = writer_view x" "handle_view y = handle_view x" "dropped_view y = dropped_view x"
      "guard_views y = (guard_views x)[i := ?v]" "\<And>m. reads (cells y m) \<subseteq> insert ?e (reads (cells x m))"
    using assms(2)
    by (auto simp: reader_with_map_def in_phase_def Let_def bind_res_eq_Inr cell_with_def split: if_splits)
  have "oinv y" using oinv_reader_with_map [OF inv(1) assms(2)] by auto
  moreover have "seen unreleased (guards ?s) (guard_views x) \<subseteq> seen unreleased (guards ?s) (guard_views y)"
    using seen_update_subset [OF i(1) len [symmetric], of unreleased "guards ?s ! i" ?v "{}"] y(8) by auto
  moreover have "?e \<in> seen unreleased (guards ?s) (guard_views y)"
    using i len y(8) by (auto simp: seen_nth unreleased_def intro!: exI [of _ i])
  ultimately have cover: "oinv y" "arc_cover x \<subseteq> arc_cover y" "?e \<in> arc_cover y"
    using y(1-7) by (auto simp: arc_cover_def)
  show ?thesis
    by (rule dinv_more [OF assms(1) cover(1)]) (use y cover(2,3) in auto)
qed

lemma dinv_writer_access:
  assumes "dinv x" "writer_access access x = Some (Inr y)" "access = cell_with \<or> access = cell_with_mut"
  shows "dinv y"
proof -
  note inv = dinvD [OF assms(1)]
  have "oinv y" using oinv_writer_access [OF inv(1) assms(2,3)] by auto
  with assms(2,3) show ?thesis
    by (intro dinv_more [OF assms(1)])
      (auto simp: writer_access_def writer_has_map_def Let_def bind_res_eq_Inr arc_cover_def cell_with_def cell_with_mut_def
        split: if_splits)
qed

lemma dinv_stale:
  assumes "dinv x" "sync_load_stale x = Some (Inr y) \<or> sync_reload_stale x = Some (Inr y)"
  shows "dinv y"
proof -
  note inv = dinvD [OF assms(1)]
  have "oinv y" using assms(2) oinv_load_stale [OF inv(1)] oinv_reload_stale [OF inv(1)] by auto
  with assms(2) show ?thesis
    by (intro dinv_more [OF assms(1)])
      (auto simp: sync_load_stale_def sync_reload_stale_def arc_cover_def keys_def Let_def split: writer_pc.splits if_splits)
qed

lemma oreachable_dinv: "oreachable A x \<Longrightarrow> dinv x"
proof (induction rule: oreachable.induct)
  case (init t key s)
  then have "oinv (build_order s)" by (intro oreachable_inv [OF oreachable.init])
  moreover have "writer s = Idle" using init by (auto simp: build_map_def build_core_def new_reader_def split: if_splits)
  ultimately show ?case
    by (simp add: dinv_def index_ok_def arc_ok_def build_order_def cell_new_def Let_def)
next
  case (step x a x')
  note inv = dinvD [OF step.IH]
  show ?case
  proof (cases a)
    case (CoreStep b)
    with step.hyps(3) obtain t where t: "exec b (core_state x) = Some (Inr t)" "x' = (step_view b t x)\<lparr>core_state := t\<rparr>"
      by (auto simp: bind_res_eq_Inr)
    with oinv_proto [OF inv(1)] index_ok_core [OF inv(2) oinvD(1) [OF inv(1)]] arc_ok_core [OF inv(1,3)]
    show ?thesis by (simp add: dinv_def)
  qed (use step.hyps(3) dinv_reader_with_map [OF step.IH] dinv_writer_access [OF step.IH] dinv_stale [OF step.IH] in auto)
qed

section \<open>Property\<close>

lemma index_cell_ordered:
  assumes "dinv x"
  shows "\<not> index_cell_race x"
proof -
  note inv = dinvD [OF assms] and o = oinvD [OF dinvD(1) [OF assms]]
  have "refcounts_locked (core_state x)" if "writer (core_state x) = PubSetMap"
    using inv_lock [OF o(1)] that by (simp add: holds_lock_def)
  moreover have "mutex_view x \<subseteq> cur (writer_view x)" if "refcounts_locked (core_state x)"
    using o(4) that by (simp add: writes_ok_def Let_def)
  ultimately show ?thesis
    using inv(2) unfolding index_cell_race_def index_ok_def Let_def by blast
qed

lemma core_drop_ordered:
  assumes "dinv x" and closed: "writer (core_state x) = Closed" "refcounts (core_state x) = []"
  shows "core_drop_view x = Some (Inr ())"
proof -
  note inv = dinvD [OF assms(1)] and o = oinvD [OF dinvD(1) [OF assms(1)]]
  from closed have "phase (guards (core_state x) ! i) = Released" if "i < length (guards (core_state x))" for i
    using guard_handle [OF o(1) that] by (auto simp: keys_def)
  then have "seen unreleased (guards (core_state x)) (guard_views x) = {}"
    using o(2) by (auto simp: seen_nth unreleased_def)
  moreover have w: "cur (writer_view x) \<subseteq> arc_view x" using inv(3) closed(1) by (simp add: arc_ok_def)
  ultimately have "arc_cover x \<subseteq> arc_view x" using closed(2) by (auto simp: arc_cover_def keys_def)
  moreover have "writes (cells x m) \<subseteq> cur (writer_view x)" "writes (index_cell x) \<subseteq> cur (writer_view x)" for m
    using o(4) inv(2) by (simp_all add: writes_ok_def index_ok_def Let_def)
  ultimately have "reads (cells x m) \<union> writes (cells x m) \<subseteq> arc_view x"
    "reads (index_cell x) \<union> writes (index_cell x) \<subseteq> arc_view x"
    "reads (thread_cell x) \<union> writes (thread_cell x) \<subseteq> arc_view x" for m
    using inv(3) w by (auto simp: arc_ok_def) blast+
  then show ?thesis using closed by (simp add: core_drop_view_def cell_with_def cell_with_mut_def)
qed

text \<open>
  C15: the other non-atomic accesses of the core are free of data races as well. The cell \<open>writer_map\<close> is changed by \<open>publish\<close>
  and read by \<open>new_reader\<close> under the mutex, which orders them. When the last handle drops the core, every access of
  either map, of \<open>writer_map\<close> and of \<open>writer_thread\<close> by any thread happens before the core drains and frees the maps and frees
  the cells: the guards have handed on what they had seen to their handles, and the handles to the last one
  through the \<open>Arc\<close>.
\<close>

theorem teardown_race_free:
  assumes "oreachable A x"
  shows "\<not> index_cell_race x
     \<and> (writer (core_state x) = Closed \<longrightarrow> refcounts (core_state x) = [] \<longrightarrow> core_drop_view x = Some (Inr ()))"
  using index_cell_ordered core_drop_ordered oreachable_dinv [OF assms] by blast

text \<open>A reader reads both before and after a publication; then the write handle and the read handle are dropped.\<close>

definition teardown_run :: "oaction list" where
  "teardown_run = [CoreStep (NewGuard 0), ReaderRead 0, CoreStep (DropGuard 0)] @ map CoreStep (write_once [0])
     @ [CoreStep (NewGuard 0), ReaderRead 1, CoreStep (DropGuard 1), CoreStep (WriterCall ByDrop), CoreStep WriterStep,
        WriterWrite, CoreStep WriterStep, CoreStep (DropReader 0)]"

theorem teardown_race_free_witness:
  "reads (cells (oexample teardown_run) First) = {0} \<and> reads (cells (oexample teardown_run) Second) = {2}
   \<and> core_drop_view (oexample teardown_run) = Some (Inr ())"
proof (intro conjI)
  show "reads (cells (oexample teardown_run) First) = {0}" by code_simp
  show "reads (cells (oexample teardown_run) Second) = {2}" by code_simp
  have "writer (core_state (oexample teardown_run)) = Closed" "refcounts (core_state (oexample teardown_run)) = []"
    by code_simp+
  moreover have "oreachable (\<lambda>_. True) (oexample teardown_run)" by (rule oexample_reachable) (simp add: list_all_iff)
  ultimately show "core_drop_view (oexample teardown_run) = Some (Inr ())" using teardown_race_free by blast
qed

end
