(* ===== verification/OrderingNeeded.thy ===== *)
theory OrderingNeeded
  imports OrderingInv
begin

text \<open>
  Which orderings of the source are needed. With any of eleven weakened, a run is given in which an access of a map, or of
  \<open>writer_thread\<close>, is a data race, while the same run is free of races with the orderings of the source. The twelfth, the
  \<open>Release\<close> of the store in \<open>synchronize\<close>, could be \<open>Relaxed\<close>.
\<close>

section \<open>Weakened operations\<close>

datatype weakening =
    RelaxedIncrement        \<comment> \<open>\<open>increment\<close> without \<open>Acquire\<close>\<close>
  | RelaxedDecrement        \<comment> \<open>\<open>decrement\<close> without \<open>Release\<close>\<close>
  | AcquireResidual         \<comment> \<open>the \<open>fetch_sub\<close> of \<open>release_residual\<close> without its release half\<close>
  | ReleaseResidualOnly     \<comment> \<open>the same without its acquire half\<close>
  | RelaxedReaderZero       \<comment> \<open>the store of zero in \<open>release_residual\<close> without \<open>Release\<close>\<close>
  | RelaxedLoad             \<comment> \<open>the first load of \<open>synchronize\<close> without \<open>Acquire\<close>\<close>
  | RelaxedReload           \<comment> \<open>the load after \<open>park\<close> without \<open>Acquire\<close>\<close>
  | ReleaseFetchAdd         \<comment> \<open>the \<open>fetch_add\<close> of \<open>synchronize\<close> without its acquire half\<close>
  | AcquireFetchAdd         \<comment> \<open>the same without its release half\<close>
  | RelaxedWriterZero       \<comment> \<open>the store of zero in \<open>synchronize\<close> without \<open>Release\<close>\<close>
  | NoReleaseFence          \<comment> \<open>\<open>publish\<close> without its first fence\<close>
  | NoAcquireFence          \<comment> \<open>\<open>publish\<close> without its second fence\<close>

definition with_refcount :: "ordering \<Rightarrow> slab_key \<Rightarrow> thread_view \<Rightarrow> ostate \<Rightarrow> thread_view \<times> ostate" where
  "with_refcount ord key t x =
     (let (L, t') = atomic_rmw ord (refcount_view x key) t in (t', x\<lparr>refcount_view := (refcount_view x)(key := L)\<rparr>))"

definition with_residual :: "ordering \<Rightarrow> thread_view \<Rightarrow> ostate \<Rightarrow> thread_view \<times> ostate" where
  "with_residual ord t x =
     (let (L, t') = atomic_rmw ord (residual_view x) t in (t', x\<lparr>residual_view := L\<rparr>))"

definition weak_writer_view :: "weakening \<Rightarrow> writer_pc \<Rightarrow> ostate \<Rightarrow> ostate" where
  "weak_writer_view w pc x =
     (case pc of
        SyncLoad c \<Rightarrow>
          (if w = RelaxedLoad then x\<lparr>writer_view := atomic_load Relaxed (residual_view x) (writer_view x)\<rparr>
           else writer_step_view pc x)
      | SyncReload c \<Rightarrow>
          (if w = RelaxedReload then x\<lparr>writer_view := atomic_load Relaxed (residual_view x) (writer_view x)\<rparr>
           else writer_step_view pc x)
      | SyncFetchAdd c \<Rightarrow>
          (if w = ReleaseFetchAdd then let (t, y) = with_residual Release (writer_view x) x in y\<lparr>writer_view := t\<rparr>
           else if w = AcquireFetchAdd then let (t, y) = with_residual Acquire (writer_view x) x in y\<lparr>writer_view := t\<rparr>
           else writer_step_view pc x)
      | SyncStoreZero c \<Rightarrow>
          (if w = RelaxedWriterZero then x\<lparr>residual_view := atomic_store Relaxed (writer_view x)\<rparr>
           else writer_step_view pc x)
      | PubLock \<Rightarrow>
          (if w = NoReleaseFence then let t = atomic_load Relaxed (residual_view x) (writer_view x) in
             x\<lparr>writer_view := t\<lparr>cur := cur t \<union> mutex_view x, acq := acq t \<union> mutex_view x\<rparr>\<rparr>
           else writer_step_view pc x)
      | PubFetchAdd a \<Rightarrow>
          (if w = NoAcquireFence then let (t, y) = with_residual Relaxed (writer_view x) x in y\<lparr>writer_view := t\<rparr>
           else writer_step_view pc x)
      | _ \<Rightarrow> writer_step_view pc x)"

definition weak_guard_view :: "nat \<Rightarrow> state \<Rightarrow> thread_view \<times> ostate \<Rightarrow> ostate" where
  "weak_guard_view i s' ty = (case ty of (t, y) \<Rightarrow> done_if_released i s' (y\<lparr>guard_views := (guard_views y)[i := t]\<rparr>))"

definition weak_view :: "weakening \<Rightarrow> action \<Rightarrow> state \<Rightarrow> ostate \<Rightarrow> ostate" where
  "weak_view w a s' x =
     (case a of
        NewGuard key \<Rightarrow>
          (if w = RelaxedIncrement
           then let (t, y) = with_refcount Relaxed key \<lparr>cur = handle_view x key, acq = handle_view x key, rel = {}\<rparr> x in
             y\<lparr>guard_views := guard_views y @ [t]\<rparr>
           else step_view a s' x)
      | DropGuard i \<Rightarrow>
          (if w = RelaxedDecrement
           then weak_guard_view i s' (with_refcount Relaxed (guard_key i x) (guard_views x ! i) x)
           else step_view a s' x)
      | ReleaseResidual i \<Rightarrow>
          (if w = AcquireResidual then weak_guard_view i s' (with_residual Acquire (guard_views x ! i) x)
           else if w = ReleaseResidualOnly then weak_guard_view i s' (with_residual Release (guard_views x ! i) x)
           else step_view a s' x)
      | ReleaseStoreZero i \<Rightarrow>
          (if w = RelaxedReaderZero then x\<lparr>residual_view := atomic_store Relaxed (guard_views x ! i)\<rparr>
           else step_view a s' x)
      | WriterStep \<Rightarrow> weak_writer_view w (writer (core_state x)) x
      | _ \<Rightarrow> step_view a s' x)"

fun weak_exec :: "weakening \<Rightarrow> oaction \<Rightarrow> ostate \<Rightarrow> ostate step" where
  "weak_exec w (CoreStep a) x =
     map_option (\<lambda>r. bind_res r (\<lambda>s'. Inr ((weak_view w a s' x)\<lparr>core_state := s'\<rparr>))) (exec a (core_state x))"
| "weak_exec w a x = oexec a x"

fun weak_run :: "weakening \<Rightarrow> oaction list \<Rightarrow> ostate \<Rightarrow> ostate step" where
  "weak_run w [] x = ok x"
| "weak_run w (a # as) x =
     (case weak_exec w a x of None \<Rightarrow> None | Some (Inl e) \<Rightarrow> Some (Inl e) | Some (Inr x') \<Rightarrow> weak_run w as x')"

section \<open>The runs\<close>

definition open_guard :: "oaction list" where
  "open_guard = map CoreStep [WriterCall ByGuard, WriterStep, WriterStep]"

definition close_guard :: "oaction list" where
  "close_guard = map CoreStep ([DropWriteGuard, WriterStep, WriterIter [0]] @ replicate 4 WriterStep)"

text \<open>A new guard reads what the writer wrote and published.\<close>

definition publish_run :: "oaction list" where
  "publish_run = open_guard @ [WriterWrite] @ close_guard @ [CoreStep (NewGuard 0), ReaderRead 0]"

text \<open>A guard reads, leaves before the publication, and the writer takes over its map.\<close>

definition early_run :: "oaction list" where
  "early_run = [CoreStep (NewGuard 0), ReaderRead 0, CoreStep (DropGuard 0)] @ open_guard @ close_guard @ open_guard @ [WriterWrite]"

text \<open>A guard leaves after the publication, before the writer looks.\<close>

definition residual_run :: "oaction list" where
  "residual_run = [CoreStep (NewGuard 0), ReaderRead 0] @ open_guard @ close_guard
     @ map CoreStep [DropGuard 0, ReleaseResidual 0] @ open_guard @ [WriterWrite]"

text \<open>The last guard leaves between the first load of \<open>synchronize\<close> and its \<open>fetch_add\<close>.\<close>

definition late_run :: "oaction list" where
  "late_run = [CoreStep (NewGuard 0), ReaderRead 0] @ open_guard @ close_guard
     @ map CoreStep [WriterCall ByGuard, WriterStep, WriterStep, DropGuard 0, ReleaseResidual 0, WriterStep, WriterStep]
     @ [WriterWrite]"

text \<open>The writer waits for two guards and returns from \<open>park\<close> by itself once the last has stored zero.\<close>

definition waiting_for_two :: "oaction list" where
  "waiting_for_two = [CoreStep (NewGuard 0), CoreStep (NewGuard 0), ReaderRead 0, ReaderRead 1] @ open_guard @ close_guard
     @ map CoreStep [WriterCall ByGuard, WriterStep, WriterStep, WriterStep, DropGuard 0, ReleaseResidual 0,
         DropGuard 1, ReleaseResidual 1, ReleaseStoreZero 1, ParkSpuriously, WriterStep]
     @ [WriterWrite]"

text \<open>The reader that ends the wait is about to read \<open>writer_thread\<close>.\<close>

definition waking_run :: "oaction list" where
  "waking_run = map CoreStep (waiting_run @ [DropGuard 0, ReleaseResidual 0, ReleaseStoreZero 0])"

fun racy_run :: "weakening \<Rightarrow> oaction list" where
  "racy_run RelaxedIncrement = publish_run"
| "racy_run NoReleaseFence = publish_run"
| "racy_run RelaxedDecrement = early_run"
| "racy_run NoAcquireFence = early_run"
| "racy_run AcquireResidual = residual_run"
| "racy_run RelaxedLoad = residual_run"
| "racy_run ReleaseFetchAdd = late_run"
| "racy_run AcquireFetchAdd = waking_run"
| "racy_run ReleaseResidualOnly = waiting_for_two"
| "racy_run RelaxedReaderZero = waiting_for_two"
| "racy_run RelaxedReload = waiting_for_two"
| "racy_run RelaxedWriterZero = []"

text \<open>A run ends in a race on a map, or in a state where the next access of \<open>writer_thread\<close> races.\<close>

definition races :: "ostate step \<Rightarrow> bool" where
  "races r = (case r of Some (Inl e) \<Rightarrow> e = UB DataRace | Some (Inr x) \<Rightarrow> thread_cell_race x | None \<Rightarrow> False)"

definition fault :: "ostate step \<Rightarrow> fault option" where
  "fault r = (case r of Some (Inl e) \<Rightarrow> Some e | _ \<Rightarrow> None)"

definition completes :: "ostate step \<Rightarrow> bool" where
  "completes r = (case r of Some (Inr x) \<Rightarrow> True | _ \<Rightarrow> False)"

definition start :: ostate where
  "start = build_order example_start"

lemma weakened_runs_race:
  "fault (weak_run RelaxedIncrement publish_run start) = Some (UB DataRace)"
  "fault (weak_run NoReleaseFence publish_run start) = Some (UB DataRace)"
  "fault (weak_run RelaxedDecrement early_run start) = Some (UB DataRace)"
  "fault (weak_run NoAcquireFence early_run start) = Some (UB DataRace)"
  "fault (weak_run AcquireResidual residual_run start) = Some (UB DataRace)"
  "fault (weak_run RelaxedLoad residual_run start) = Some (UB DataRace)"
  "fault (weak_run ReleaseFetchAdd late_run start) = Some (UB DataRace)"
  "fault (weak_run ReleaseResidualOnly waiting_for_two start) = Some (UB DataRace)"
  "fault (weak_run RelaxedReaderZero waiting_for_two start) = Some (UB DataRace)"
  "fault (weak_run RelaxedReload waiting_for_two start) = Some (UB DataRace)"
  by code_simp+

lemma fault_races: "fault r = Some (UB DataRace) \<Longrightarrow> races r"
  by (auto simp: fault_def races_def split: option.splits sum.splits)

definition result :: "ostate step \<Rightarrow> ostate" where
  "result r = (case r of Some (Inr x) \<Rightarrow> x | _ \<Rightarrow> start)"

lemma waking_run_races: "races (weak_run AcquireFetchAdd waking_run start)"
proof -
  let ?r = "weak_run AcquireFetchAdd waking_run start"
  have "completes ?r" by code_simp
  then have r: "?r = Some (Inr (result ?r))" by (auto simp: completes_def result_def split: option.splits sum.splits)
  have "in_phase 0 Unparking (core_state (result ?r))" "\<not> writes (thread_cell (result ?r)) \<subseteq> cur (guard_views (result ?r) ! 0)"
    by code_simp+
  then have "thread_cell_race (result ?r)" by (auto simp: thread_cell_race_def in_phase_def)
  then show ?thesis by (subst r) (simp add: races_def)
qed

text \<open>The runs with the orderings of the source: they go through, and no access of \<open>writer_thread\<close> is about to race.\<close>

definition ordered :: "ostate step \<Rightarrow> bool" where
  "ordered r =
     (case r of
        Some (Inr x) \<Rightarrow>
          length (guards (core_state x)) = length (guard_views x)
          \<and> list_all (\<lambda>(g, v). phase g = Unparking \<longrightarrow> writes (thread_cell x) \<subseteq> cur v) (zip (guards (core_state x)) (guard_views x))
          \<and> (case writer (core_state x) of SyncSetThread c \<Rightarrow> False | _ \<Rightarrow> True)
      | _ \<Rightarrow> False)"

lemma orderedD: "ordered r \<Longrightarrow> completes r \<and> \<not> races r"
  by (force simp: ordered_def completes_def races_def thread_cell_race_def list_all_iff set_zip
      split: option.splits sum.splits writer_pc.splits)

lemma source_runs_ordered:
  "ordered (orun publish_run start)" "ordered (orun early_run start)" "ordered (orun residual_run start)"
  "ordered (orun late_run start)" "ordered (orun waking_run start)" "ordered (orun waiting_for_two start)"
  by code_simp+

section \<open>The ordering that is not needed\<close>

inductive weak_reachable :: "weakening \<Rightarrow> ostate \<Rightarrow> bool" for w where
  init: "build_map t key = Some (Inr s) \<Longrightarrow> weak_reachable w (build_order s)"
| step: "weak_reachable w x \<Longrightarrow> weak_exec w a x = Some (Inr x') \<Longrightarrow> weak_reachable w x'"

interpretation weak_machine: machine "weak_exec w" "weak_run w" "weak_reachable w" "\<lambda>_. True" for w
  by unfold_locales (auto intro: weak_reachable.step split: option.splits sum.splits)

lemma oinv_relaxed_zero:
  assumes "oinv x" "writer (core_state x) = SyncStoreZero c" "pinv (sync_store_zero c (core_state x))"
  shows "oinv (x\<lparr>residual_view := rel (writer_view x), core_state := sync_store_zero c (core_state x)\<rparr>)"
proof -
  have "n_zero (core_state x) = 0" "n_res (core_state x) = 0" "\<not> refcounts_locked (core_state x)"
    "residual_view x \<subseteq> cur (writer_view x)"
    using store_zero_pc [OF oinvD(1) [OF assms(1)] assms(2)] inv_lock [OF oinvD(1) [OF assms(1)]] assms(2)
      oinvD(5) [OF assms(1)] by (simp_all add: holds_lock_def zero_ok_def)
  then have "oinv (x\<lparr>writer_view := writer_view x, residual_view := rel (writer_view x), mutex_view := mutex_view x,
      core_state := sync_store_zero c (core_state x)\<rparr>)"
    using assms(2) by (intro oinv_writer_moved assms(1,3)) (cases c; auto simp: sync_store_zero_def writer_pc_defs)+
  then show ?thesis by simp
qed

lemma weak_oinv:
  assumes "oinv x" "weak_exec RelaxedWriterZero a x = Some r"
  shows "r = Inl Abort \<or> (\<exists>x'. r = Inr x' \<and> oinv x')"
proof (cases "\<exists>c. a = CoreStep WriterStep \<and> writer (core_state x) = SyncStoreZero c")
  case True
  then obtain c where c: "a = CoreStep WriterStep" "writer (core_state x) = SyncStoreZero c" by blast
  then have "pinv (sync_store_zero c (core_state x))" using inv_writer_step [OF oinvD(1) [OF assms(1)]] by simp
  with oinv_relaxed_zero [OF assms(1) c(2)] assms(2) c show ?thesis
    by (auto simp: weak_view_def weak_writer_view_def atomic_store_def)
next
  case False
  have "weak_exec RelaxedWriterZero a x = oexec a x"
  proof (cases a)
    case (CoreStep b)
    have "weak_view RelaxedWriterZero b s' x = step_view b s' x" for s'
    proof (cases b)
      case WriterStep
      with False CoreStep show ?thesis by (cases "writer (core_state x)") (simp_all add: weak_view_def weak_writer_view_def)
    qed (simp_all add: weak_view_def)
    with CoreStep show ?thesis by simp
  qed simp_all
  with assms oexec_ok show ?thesis by simp
qed

text \<open>With the \<open>Release\<close> of the store of zero in \<open>synchronize\<close> weakened, both maps stay free of races.\<close>

theorem writer_zero_may_be_relaxed:
  assumes "weak_reachable RelaxedWriterZero x"
  shows "weak_exec RelaxedWriterZero a x \<noteq> Some (Inl (UB u))"
proof -
  have "oinv x" using assms
  proof induction
    case (init t key s)
    then show ?case by (intro oreachable_inv [OF oreachable.init])
  next
    case (step x a x')
    then show ?case using weak_oinv [of x a] by fastforce
  qed
  then show ?thesis using weak_oinv [of x a] by auto
qed

section \<open>Property\<close>

text \<open>
  C30: eleven orderings and fences of the source are needed. Weaken any one of them, and the run given for it ends in a data
  race on a map or on \<open>writer_thread\<close>; with the orderings of the source the same run goes through and does not race.
  The one ordering left out may be weakened (\<open>writer_zero_may_be_relaxed\<close>).
\<close>

theorem orderings_needed:
  assumes "w \<noteq> RelaxedWriterZero"
  shows "races (weak_run w (racy_run w) start) \<and> completes (orun (racy_run w) start) \<and> \<not> races (orun (racy_run w) start)"
proof -
  have "races (weak_run w (racy_run w) start)"
    using assms weakened_runs_race [THEN fault_races] waking_run_races by (cases w) (simp_all only: racy_run.simps simp_thms)
  moreover have "ordered (orun (racy_run w) start)"
    using assms source_runs_ordered by (cases w) (simp_all only: racy_run.simps simp_thms)
  ultimately show ?thesis using orderedD by blast
qed

theorem orderings_needed_witness:
  "races (weak_run RelaxedIncrement publish_run start) \<and> \<not> races (orun publish_run start)"
  using orderings_needed [of RelaxedIncrement] by simp

end
