(* ===== verification/BuildModes.thy ===== *)
theory BuildModes
  imports CoreProps
begin

text \<open>
  What differs between a debug and a release build of \<open>src/core/mod.rs\<close>: assertions, the branch on a missing
  \<open>writer_thread\<close>, arithmetic overflow, and how \<open>lock\<close> of \<open>src/util/mod.rs\<close> treats a poisoned mutex. \<open>Protocol\<close> has the
  assertions of a debug build and the wrapping arithmetic of a release build; here each build has
  its own step function, and a panic under the mutex poisons it.
\<close>

section \<open>The mutex\<close>

text \<open>\<open>cfg!(debug_assertions)\<close>; the overflow checks of the compiler are on in the same builds.\<close>

datatype build = DebugBuild | ReleaseBuild

datatype lock_result = Locked | Poisoned

definition mutex_lock :: "bool \<Rightarrow> lock_result" where
  "mutex_lock poisoned = (if poisoned then Poisoned else Locked)"

definition lock :: "build \<Rightarrow> bool \<Rightarrow> unit res" where
  "lock b poisoned =
     (case mutex_lock poisoned of
        Locked \<Rightarrow> Inr ()
      | Poisoned \<Rightarrow>
          (if b = DebugBuild then Inl (Panic ''Internal mutex(es) should never be poisoned'') else Inr ()))"

record bstate =
  base :: state
  poisoned :: bool

definition on_base :: "bstate \<Rightarrow> state step \<Rightarrow> bstate step" where
  "on_base s r = map_option (\<lambda>x. bind_res x (\<lambda>t. Inr (s\<lparr>base := t\<rparr>))) r"

text \<open>A section under the mutex that can run, run after \<open>lock\<close>.\<close>

definition locked :: "build \<Rightarrow> bstate \<Rightarrow> state step \<Rightarrow> bstate step" where
  "locked b s r =
     (case on_base s r of None \<Rightarrow> None | Some x \<Rightarrow> Some (bind_res (lock b (poisoned s)) (\<lambda>u. x)))"

section \<open>The operations that depend on the build\<close>

definition release_unpark_in :: "build \<Rightarrow> nat \<Rightarrow> state \<Rightarrow> state step" where
  "release_unpark_in b i s =
     (if \<not> in_phase i Unparking s then None
      else case writer_thread s of
        Some t \<Rightarrow> ok (set_phase i Released (s\<lparr>tokens := (tokens s)(t := True)\<rparr>))
      | None \<Rightarrow>
          (if b = DebugBuild then Some (Inl (Panic ''Writer is waiting on readers but writer_thread is None''))
           else let u = cold in ok (set_phase i Released s)))"

definition sync_reload_in :: "build \<Rightarrow> sync_caller \<Rightarrow> state \<Rightarrow> state step" where
  "sync_reload_in b c s =
     (if likely (residual s = 0) then ok (s\<lparr>writer := after_sync c\<rparr>)
      else if b = DebugBuild \<and> \<not> sint (residual s) < 0 then Some (Inl (Panic ''assertion failed: residual < 0''))
      else ok (s\<lparr>writer := SyncPark c\<rparr>))"

definition publish_lock_in :: "build \<Rightarrow> bstate \<Rightarrow> bstate step" where
  "publish_lock_in b s =
     (if b = DebugBuild \<and> residual (base s) \<noteq> 0 then Some (Inl (Panic ''assertion failed: residual == 0''))
      else if refcounts_locked (base s) then None
      else locked b s (ok ((base s)\<lparr>refcounts_locked := True, writer := PubSetMap\<rparr>)))"

text \<open>\<open>initial_residual += c\<close>: checked in a debug build, wrapping in a release build.\<close>

definition add_isize :: "build \<Rightarrow> isize \<Rightarrow> isize \<Rightarrow> isize res" where
  "add_isize b x y =
     (if b = DebugBuild \<and> sint (x + y) \<noteq> sint x + sint y then Inl (Panic ''attempt to add with overflow'')
      else Inr (x + y))"

fun publish_swap_in :: "build \<Rightarrow> slab_key list \<Rightarrow> isize \<Rightarrow> state \<Rightarrow> state res" where
  "publish_swap_in b [] initial_residual s = Inr (s\<lparr>writer := PubUnlock initial_residual\<rparr>)"
| "publish_swap_in b (k # ks) initial_residual s =
     (case map_of (refcounts s) k of
        None \<Rightarrow> Inl (UB UseAfterFree)
      | Some v \<Rightarrow>
          (let (c, v') = swap_maps v in
           bind_res (add_isize b initial_residual c) (\<lambda>sum.
             if sint sum < 0 then Inl Abort
             else Inr (s\<lparr>refcounts := AList.update k v' (refcounts s), writer := PubSwap ks sum\<rparr>))))"

text \<open>
  A panic in the loop unwinds out of \<open>publish\<close> and so out of the drop of the write guard: the last swap
  is done, the guard of the mutex is dropped by a panicking thread, which poisons the mutex, and the
  write handle is left without a write guard.
\<close>

definition publish_unwind :: "slab_key \<Rightarrow> bstate \<Rightarrow> bstate" where
  "publish_unwind k s =
     (case map_of (refcounts (base s)) k of
        None \<Rightarrow> s
      | Some v \<Rightarrow> \<lparr>base = (base s)\<lparr>refcounts := AList.update k (snd (swap_maps v)) (refcounts (base s)),
            refcounts_locked := False, writer := Idle\<rparr>, poisoned = True\<rparr>)"

section \<open>Steps\<close>

definition writer_step_in :: "build \<Rightarrow> bstate \<Rightarrow> bstate step" where
  "writer_step_in b s =
     (case writer (base s) of
        SyncReload c \<Rightarrow> on_base s (sync_reload_in b c (base s))
      | PubLock \<Rightarrow> publish_lock_in b s
      | PubSwap ks a \<Rightarrow> on_base s (Some (publish_swap_in b ks a (base s)))
      | _ \<Rightarrow> on_base s (writer_step (base s)))"

fun bexec :: "build \<Rightarrow> action \<Rightarrow> bstate \<Rightarrow> bstate step" where
  "bexec b (CloneReader from key) s = locked b s (clone_reader from key (base s))"
| "bexec b (DropReader key) s = locked b s (release_refcount key (base s))"
| "bexec b (ReleaseUnpark i) s = on_base s (release_unpark_in b i (base s))"
| "bexec b WriterStep s = writer_step_in b s"
| "bexec b a s = on_base s (exec a (base s))"

inductive breachable :: "build \<Rightarrow> bstate \<Rightarrow> bool" for b where
  init: "build_map t key = Some (Inr s) \<Longrightarrow> breachable b \<lparr>base = s, poisoned = False\<rparr>"
| step: "breachable b s \<Longrightarrow> bexec b a s = Some (Inr s') \<Longrightarrow> breachable b s'"
| unwind: "breachable b s \<Longrightarrow> writer (base s) = PubSwap (k # ks) acc \<Longrightarrow> bexec b WriterStep s = Some (Inl (Panic msg))
    \<Longrightarrow> breachable b (publish_unwind k s)"

fun brun :: "build \<Rightarrow> action list \<Rightarrow> bstate \<Rightarrow> bstate step" where
  "brun b [] s = ok s"
| "brun b (a # as) s =
     (case bexec b a s of None \<Rightarrow> None | Some (Inl e) \<Rightarrow> Some (Inl e) | Some (Inr s') \<Rightarrow> brun b as s')"

interpretation build_machine: machine "bexec b" "brun b" "breachable b" "\<lambda>_. True" for b
  by unfold_locales (auto intro: breachable.step split: option.splits sum.splits)

section \<open>Both builds against the protocol\<close>

lemma on_base_simps [simp]:
  "on_base s None = None"
  "on_base s (Some (Inl e)) = Some (Inl e)"
  "on_base s (ok t) = ok (s\<lparr>base := t\<rparr>)"
  by (simp_all add: on_base_def)

lemma on_base_Inr: "on_base s r = Some (Inr s') \<longleftrightarrow> (\<exists>t. r = Some (Inr t) \<and> s' = s\<lparr>base := t\<rparr>)"
  by (cases r) (auto simp: on_base_def bind_res_eq_Inr)

lemma on_base_Inl: "on_base s r = Some (Inl e) \<longleftrightarrow> r = Some (Inl e)"
  by (cases r) (auto simp: on_base_def bind_res_def split: sum.splits)

lemma locked_unpoisoned [simp]: "\<not> poisoned s \<Longrightarrow> locked b s r = on_base s r"
  by (cases "on_base s r") (simp_all add: locked_def lock_def mutex_lock_def)

text \<open>The steps of both builds are those of the protocol, but for the overflow in the loop of \<open>publish\<close>.\<close>

definition overflow_step :: "action \<Rightarrow> state \<Rightarrow> bool" where
  "overflow_step a s \<longleftrightarrow>
     (\<exists>k ks acc. a = WriterStep \<and> writer s = PubSwap (k # ks) acc \<and> 2 ^ 63 \<le> unat acc + n_live s k)"

lemma release_unpark_in_eq:
  assumes "pinv s"
  shows "release_unpark_in b i s = release_unpark i s"
  using inv_exec [OF assms, of "ReleaseUnpark i"]
  by (auto simp: release_unpark_in_def release_unpark_def split: option.splits if_splits)

lemma sync_reload_in_eq:
  assumes "pinv s" "writer s = SyncReload c"
  shows "sync_reload_in b c s = writer_step s"
  using inv_writer_step [OF assms(1)] assms(2)
  by (auto simp: sync_reload_in_def sync_reload_def split: if_splits)

lemma publish_lock_in_eq:
  assumes "pinv (base s)" "writer (base s) = PubLock" "\<not> poisoned s"
  shows "publish_lock_in b s = on_base s (writer_step (base s))"
  using inv_writer_step [OF assms(1)] assms(2,3)
  by (auto simp: publish_lock_in_def publish_lock_def split: if_splits)

text \<open>Two numbers that are not negative are added without overflow when their sum is not negative.\<close>

lemma add_isize_nonneg:
  assumes "unat x < 2 ^ 63" "unat y < 2 ^ 63"
  shows "add_isize b x y =
    (if b = DebugBuild \<and> 2 ^ 63 \<le> unat x + unat y then Inl (Panic ''attempt to add with overflow'') else Inr (x + y))"
proof -
  have of_nat: "sint (of_nat n :: isize) = int n" if "n < 2 ^ 63" for n
    using that by (simp add: signed_of_nat signed_take_bit_int_eq_self)
  have sint_eq: "sint w = uint w" if "unat w < 2 ^ 63" for w :: isize
    using of_nat [OF that] by simp
  have sum: "unat (x + y) = unat x + unat y" using assms by (simp add: unat_word_ariths)
  have "sint (x + y) = sint x + sint y \<longleftrightarrow> unat x + unat y < 2 ^ 63"
  proof
    assume "sint (x + y) = sint x + sint y"
    then have "0 \<le> sint (x + y)" using assms by (simp add: sint_eq)
    then show "unat x + unat y < 2 ^ 63" by (simp add: sint_nonneg_iff sum)
  next
    assume "unat x + unat y < 2 ^ 63"
    then have "sint (x + y) = uint (x + y)" by (intro sint_eq) (simp add: sum)
    moreover have "uint (x + y) = uint x + uint y" by (simp only: uint_nat sum of_nat_add)
    ultimately show "sint (x + y) = sint x + sint y" using assms by (simp add: sint_eq)
  qed
  then show ?thesis by (auto simp: add_isize_def not_less)
qed

lemma publish_swap_in_eq:
  assumes "pinv s" "writer s = PubSwap ks acc"
  shows "publish_swap_in b ks acc s =
    (if b = DebugBuild \<and> overflow_step WriterStep s then Inl (Panic ''attempt to add with overflow'')
     else publish_swap ks acc s)"
proof (cases ks)
  case Nil
  with assms(2) show ?thesis by (simp add: overflow_step_def)
next
  case (Cons k ks')
  from assms Cons have "k \<in> fst ` set (refcounts s)" by (auto simp: pinv_def publish_ok_def todo_def)
  then obtain v where look: "map_of (refcounts s) k = Some v" by (auto simp: map_of_fst_iff)
  have a: "unat acc < 2 ^ 63"
    using inv_res_rel [OF assms(1)] assms(2) by (simp add: res_rel_def publishing_rel_def)
  have n: "n_live s k \<le> 2 ^ 62" and v: "v = encode (expected s k) (n_live s k)"
    using inv_lookup [OF assms(1) look] by simp_all
  have "unat (of_nat (n_live s k) :: isize) = n_live s k" using n by (simp add: unat_of_nat)
  then show ?thesis
    using n a assms(2) add_isize_nonneg [OF a, of "of_nat (n_live s k)" b]
    by (simp add: Cons look v swap_maps_encode Let_def overflow_step_def)
qed

lemma bexec_eq:
  assumes "pinv (base s)" "\<not> poisoned s"
  shows "bexec b a s =
    (if b = DebugBuild \<and> overflow_step a (base s) then Some (Inl (Panic ''attempt to add with overflow''))
     else on_base s (exec a (base s)))"
proof (cases a)
  case WriterStep
  then show ?thesis
    using sync_reload_in_eq [OF assms(1)] publish_lock_in_eq [OF assms(1) _ assms(2)] publish_swap_in_eq [OF assms(1)]
    by (cases "writer (base s)") (auto simp: writer_step_in_def overflow_step_def)
qed (use assms release_unpark_in_eq in \<open>auto simp: overflow_step_def\<close>)

lemma bexec_poisoned: "bexec b a s = Some (Inr s') \<Longrightarrow> poisoned s' = poisoned s"
  by (cases a) (auto simp: on_base_Inr locked_def writer_step_in_def publish_lock_in_def lock_def mutex_lock_def
      split: option.splits writer_pc.splits if_splits lock_result.splits)

lemma breachable_reachable: "breachable b s \<Longrightarrow> \<not> poisoned s \<Longrightarrow> reachable (\<lambda>_. True) (base s)"
proof (induction rule: breachable.induct)
  case (init t key s)
  then show ?case by (auto intro: reachable.init)
next
  case (step s a s')
  from step bexec_poisoned have "reachable (\<lambda>_. True) (base s)" "\<not> poisoned s" by simp_all
  with step.hyps(2) bexec_eq [OF reachable_inv] show ?case
    by (auto simp: on_base_Inr split: if_splits intro: reachable.step)
next
  case (unwind s k ks acc msg)
  then show ?case by (auto simp: publish_unwind_def split: option.splits)
qed

lemma release_not_poisoned: "breachable b s \<Longrightarrow> poisoned s \<Longrightarrow> b = DebugBuild"
proof (induction rule: breachable.induct)
  case (unwind s k ks acc msg)
  show ?case
  proof (cases "poisoned s")
    case False
    have inv: "pinv (base s)" using breachable_reachable [OF unwind.hyps(1) False] by (rule reachable_inv)
    then have "exec WriterStep (base s) \<noteq> Some (Inl (Panic msg))"
      using inv_exec [of "base s" WriterStep] by (cases "exec WriterStep (base s)") auto
    with unwind.hyps(3) show ?thesis
      by (auto simp only: bexec_eq [OF inv False] on_base_Inl split: if_splits)
  qed (use unwind.IH in simp)
qed (auto simp: bexec_poisoned)

section \<open>Properties\<close>

text \<open>
  C16: the builds behave alike. A release build is never left with a poisoned mutex. As long as the mutex is not
  poisoned, every step of either build is the step of the protocol (so what holds of its reachable states
  holds of both builds), except that on an overflow of the number of residual readers, where a release build
  aborts, a debug build panics.
\<close>

theorem builds_agree:
  assumes "breachable b s"
  shows "(poisoned s \<longrightarrow> b = DebugBuild)
    \<and> (\<not> poisoned s \<longrightarrow> reachable (\<lambda>_. True) (base s)
        \<and> bexec ReleaseBuild a s = on_base s (exec a (base s))
        \<and> bexec DebugBuild a s = (if overflow_step a (base s)
             then Some (Inl (Panic ''attempt to add with overflow'')) else on_base s (exec a (base s)))
        \<and> (overflow_step a (base s) \<longrightarrow> exec a (base s) = Some (Inl Abort)))"
proof (intro conjI impI)
  show "b = DebugBuild" if "poisoned s" using release_not_poisoned [OF assms that] .
  assume p: "\<not> poisoned s"
  show reach: "reachable (\<lambda>_. True) (base s)" using breachable_reachable [OF assms p] .
  note inv = reachable_inv [OF reach]
  show "bexec ReleaseBuild a s = on_base s (exec a (base s))"
    "bexec DebugBuild a s = (if overflow_step a (base s)
       then Some (Inl (Panic ''attempt to add with overflow'')) else on_base s (exec a (base s)))"
    by (simp_all add: bexec_eq [OF inv p])
  show "exec a (base s) = Some (Inl Abort)" if "overflow_step a (base s)"
    using that abort_publish_swap [OF inv] by (auto simp: overflow_step_def)
qed

theorem builds_agree_witness:
  "bexec ReleaseBuild (NewGuard 0) \<lparr>base = example_start, poisoned = False\<rparr>
   = bexec DebugBuild (NewGuard 0) \<lparr>base = example_start, poisoned = False\<rparr>"
  using builds_agree [OF breachable.init [OF example_built], of DebugBuild "NewGuard 0"]
  by (simp add: overflow_step_def)

text \<open>States of a map with two read handles whose guards have all been created before the first publication.\<close>

definition two_handles :: "nat \<Rightarrow> nat \<Rightarrow> writer_pc \<Rightarrow> bstate" where
  "two_handles m n pc = \<lparr>base = example_start\<lparr>refcounts := [(0, encode First m), (1, encode First n)],
     guards := replicate m \<lparr>refcount_key = 0, map_index = First, phase = Live\<rparr>
       @ replicate n \<lparr>refcount_key = 1, map_index = First, phase = Live\<rparr>, writer := pc\<rparr>, poisoned = False\<rparr>"

lemma first_handle_guards: "m \<le> 2 ^ 62 \<Longrightarrow> breachable b (two_handles m 0 Idle)"
proof (induction m)
  case 0
  have "bexec b (CloneReader 0 1) \<lparr>base = example_start, poisoned = False\<rparr> = ok (two_handles 0 0 Idle)"
    by (simp add: clone_reader_def new_reader_def example_start_def build_core_def two_handles_def encode_0 refcount_new_eq)
  then show ?case by (rule breachable.step [OF breachable.init [OF example_built]])
next
  case (Suc m)
  then have "bexec b (NewGuard 0) (two_handles m 0 Idle) = ok (two_handles (Suc m) 0 Idle)"
    by (simp add: read_guard_def two_handles_def increment_encode replicate_append_same)
  with Suc show ?case by (auto simp del: bexec.simps intro: breachable.step)
qed

lemma second_handle_guards: "m \<le> 2 ^ 62 \<Longrightarrow> n \<le> 2 ^ 62 \<Longrightarrow> breachable b (two_handles m n Idle)"
proof (induction n)
  case 0
  then show ?case by (simp add: first_handle_guards)
next
  case (Suc n)
  then have "bexec b (NewGuard 1) (two_handles m n Idle) = ok (two_handles m (Suc n) Idle)"
    by (simp add: read_guard_def two_handles_def increment_encode replicate_append_same)
  with Suc show ?case by (auto simp del: bexec.simps intro: breachable.step)
qed

text \<open>
  C34: in a debug build the test for an overflow in \<open>publish\<close> comes too late: the addition before it panics. When two
  handles hold \<open>2 ^ 62\<close> guards each (guards may be forgotten without being dropped), the panic leaves the maps exchanged,
  the residual readers uncounted and the mutex poisoned. The write handle can still be used, or is dropped while
  the panic unwinds: its next \<open>synchronize\<close> does not wait, and the writer is given a map that live guards read.
\<close>

theorem overflow_panic_breaks_exclusion:
  "\<exists>s g. breachable DebugBuild s \<and> poisoned s \<and> writer (base s) = Flushing \<and> g \<in> set (guards (base s))
     \<and> phase g = Live \<and> map_index g = writer_map (base s)"
proof -
  obtain N :: nat where N: "N = 2 ^ 62" by blast
  define s where "s = two_handles N N"
  define t where "t = (s (PubSwap [1] (of_nat N)))\<lparr>base :=
     (base (s (PubSwap [1] (of_nat N))))\<lparr>refcounts := [(0, encode Second N), (1, encode First N)], refcounts_locked := True,
        writer_map := First\<rparr>\<rparr>"
  have swap: "swap_maps (encode i N) = (of_nat N, encode (other i) N)" for i by (simp add: swap_maps_encode N)
  have sint_N: "\<not> sint (of_nat N :: isize) < 0" by (simp add: N)
  have "brun DebugBuild [WriterCall ByGuard, WriterStep, WriterStep, DropWriteGuard, WriterStep, WriterIter [0, 1], WriterStep]
      (s Idle) = ok t"
    using sint_N
    by (simp add: s_def t_def two_handles_def example_start_def build_core_def writer_step_in_def sync_load_def
        publish_lock_in_def publish_set_map_def swap add_isize_def insert_commute Let_def)
  moreover have "breachable DebugBuild (s Idle)" unfolding s_def by (rule second_handle_guards) (simp_all add: N)
  ultimately have t: "breachable DebugBuild t" by (auto simp only: list.pred_True intro: build_machine.reach_run)
  have "sint (of_nat N + of_nat N :: isize) \<noteq> sint (of_nat N :: isize) + sint (of_nat N :: isize)"
    by (simp add: N)
  then have "bexec DebugBuild WriterStep t = Some (Inl (Panic ''attempt to add with overflow''))"
    by (simp add: s_def t_def two_handles_def writer_step_in_def swap add_isize_def)
  then have "breachable DebugBuild (publish_unwind 1 t)"
    using breachable.unwind [OF t, of 1 "[]" "of_nat N"] by (simp add: t_def s_def two_handles_def)
  moreover have "brun DebugBuild [WriterCall ByGuard, WriterStep] (publish_unwind 1 t)
      = ok ((publish_unwind 1 t)\<lparr>base := (base (publish_unwind 1 t))\<lparr>writer := Flushing\<rparr>\<rparr>)" (is "_ = ok ?u")
    by (simp add: publish_unwind_def t_def s_def two_handles_def example_start_def build_core_def writer_step_in_def sync_load_def)
  ultimately have "breachable DebugBuild ?u"
    by (auto simp only: list.pred_True intro: build_machine.reach_run)
  moreover have "poisoned ?u" "writer (base ?u) = Flushing" "writer_map (base ?u) = First"
    "\<lparr>refcount_key = 0, map_index = First, phase = Live\<rparr> \<in> set (guards (base ?u))"
    by (simp_all add: publish_unwind_def t_def s_def two_handles_def N)
  ultimately show ?thesis by (intro exI [of _ ?u] exI [of _ "\<lparr>refcount_key = 0, map_index = First, phase = Live\<rparr>"]) simp
qed

end
