(* ===== verification/TrustedTypes.thy ===== *)
theory TrustedTypes
  imports Main
begin

text \<open>
  \<open>src/util/deterministic.rs\<close>: which types are keys the crate accepts without \<open>unsafe\<close>. The marker trait
  \<open>TrustedHashEq\<close> is implemented by macros; this theory expands the macros' tables into impls and states
  the trait resolution of Rust over them. Lifetimes play no part in it and are left out.
\<close>

section \<open>Types and patterns\<close>

text \<open>
  A type is a constructor applied to types; a function pointer carries its qualifiers and has
  its result as first argument. An array also has its length.
\<close>

datatype tycon =
    Named string
  | Ref bool                    \<comment> \<open>\<open>&T\<close>, \<open>&mut T\<close>\<close>
  | Ptr bool                    \<comment> \<open>\<open>*const T\<close>, \<open>*mut T\<close>\<close>
  | Slice
  | Tuple
  | FnPtr bool bool bool        \<comment> \<open>\<open>unsafe\<close>, \<open>extern "C"\<close>, variadic\<close>

datatype rtype = Con tycon "rtype list" | Arr rtype nat

datatype pat = PVar nat | PCon tycon "pat list" | PArr pat

text \<open>The head of an impl names each of its parameters once, so matching only collects the arguments.\<close>

fun match_pat :: "pat \<Rightarrow> rtype \<Rightarrow> (nat \<times> rtype) list option"
  and match_pats :: "pat list \<Rightarrow> rtype list \<Rightarrow> (nat \<times> rtype) list option" where
  "match_pat (PVar v) t = Some [(v, t)]"
| "match_pat (PCon c ps) (Con d ts) = (if c = d then match_pats ps ts else None)"
| "match_pat (PArr p) (Arr t n) = match_pat p t"
| "match_pat (PCon c ps) (Arr t n) = None"
| "match_pat (PArr p) (Con d ts) = None"
| "match_pats [] [] = Some []"
| "match_pats (p # ps) (t # ts) =
     (case match_pat p t of None \<Rightarrow> None
      | Some b \<Rightarrow> map_option (\<lambda>bs. b @ bs) (match_pats ps ts))"
| "match_pats [] (t # ts) = None"
| "match_pats (p # ps) [] = None"

section \<open>The macros\<close>

text \<open>
  A row of \<open>trusted_hash_eq!\<close>: for each parameter whether it is \<open>?Sized\<close>, the bounds written by hand, if any, and
  the type. The expansion takes the bounds written by hand in place of the automatic ones, one
  \<open>TrustedHashEq\<close> per parameter; a parameter without \<open>?Sized\<close> is \<open>Sized\<close>.
\<close>

datatype bound = Trusted nat | Cloned nat | IsSized nat

datatype row = Row "bool list" "bound list option" pat

datatype impl = Impl "bound list" pat

definition sized_bounds :: "bool list \<Rightarrow> bound list" where
  "sized_bounds ps = map IsSized (filter (\<lambda>v. \<not> ps ! v) [0..<length ps])"

fun trusted_hash_eq :: "row \<Rightarrow> impl" where
  "trusted_hash_eq (Row ps manual head) =
     Impl (sized_bounds ps @ (case manual of Some bs \<Rightarrow> bs | None \<Rightarrow> map Trusted [0..<length ps])) head"

abbreviation vars :: "nat \<Rightarrow> pat list" where
  "vars n \<equiv> map PVar [0..<n]"

definition named :: "string \<Rightarrow> pat" where
  "named n = PCon (Named n) []"



definition unsized_names :: "string list" where
  "unsized_names = [''str'', ''CStr'', ''OsStr'', ''Path'']"





















section \<open>Trait resolution\<close>

lemma size_last [termination_simp]: "ts \<noteq> [] \<Longrightarrow> size (last ts) < Suc (size_list size ts)"
  by (simp add: less_Suc_eq_le size_list_estimation' [OF last_in_set])

fun sized :: "rtype \<Rightarrow> bool" where
  "sized (Arr t n) = True"
| "sized (Con c ts) =
     (case c of
        Slice \<Rightarrow> False
      | Named n \<Rightarrow> \<not> (n \<in> set unsized_names \<and> ts = [])
      | Tuple \<Rightarrow> (if ts = [] then True else sized (last ts))
      | _ \<Rightarrow> True)"

text \<open>
  An impl applies when its head matches and the arguments satisfy the bounds. Which types are
  \<open>Clone\<close> is a parameter; the trait itself is the least predicate closed under the impls.
\<close>

definition arg :: "(nat \<times> rtype) list \<Rightarrow> nat \<Rightarrow> rtype" where
  "arg b v = the (map_of b v)"



section \<open>The same types, described directly\<close>





section \<open>Matching\<close>

lemma match_pats_vars:
  "match_pats (map PVar vs) ts = (if length vs = length ts then Some (zip vs ts) else None)"
proof (induction vs arbitrary: ts)
  case Nil
  then show ?case by (cases ts) simp_all
next
  case (Cons v vs)
  then show ?case by (cases ts) simp_all
qed

lemma match_pat_vars:
  "match_pat (PCon c (vars n)) t = Some b \<longleftrightarrow> (\<exists>ts. t = Con c ts \<and> length ts = n \<and> b = zip [0..<n] ts)"
  by (cases t) (auto simp: match_pats_vars simp del: upt_Suc)


section \<open>One step of resolution, by group of rows\<close>

definition satisfies :: "(rtype \<Rightarrow> bool) \<Rightarrow> (rtype \<Rightarrow> bool) \<Rightarrow> (nat \<times> rtype) list \<Rightarrow> bound \<Rightarrow> bool" where
  "satisfies C T b x = (case x of IsSized v \<Rightarrow> sized (arg b v) | Cloned v \<Rightarrow> C (arg b v) | Trusted v \<Rightarrow> T (arg b v))"

lemma satisfies_simps [simp]:
  "satisfies C T b (IsSized v) = sized (arg b v)"
  "satisfies C T b (Cloned v) = C (arg b v)"
  "satisfies C T b (Trusted v) = T (arg b v)"
  by (simp_all add: satisfies_def)

fun by_impl :: "(rtype \<Rightarrow> bool) \<Rightarrow> (rtype \<Rightarrow> bool) \<Rightarrow> rtype \<Rightarrow> impl \<Rightarrow> bool" where
  "by_impl C T t (Impl bs p) \<longleftrightarrow> (\<exists>b. match_pat p t = Some b \<and> (\<forall>x\<in>set bs. satisfies C T b x))"

definition by_rows :: "(rtype \<Rightarrow> bool) \<Rightarrow> (rtype \<Rightarrow> bool) \<Rightarrow> rtype \<Rightarrow> row list \<Rightarrow> bool" where
  "by_rows C T t rs \<longleftrightarrow> (\<exists>r\<in>set rs. by_impl C T t (trusted_hash_eq r))"

lemma by_rows_append [simp]: "by_rows C T t (rs @ rs') \<longleftrightarrow> by_rows C T t rs \<or> by_rows C T t rs'"
  by (auto simp: by_rows_def)

lemma by_rows_Cons [simp]: "by_rows C T t (r # rs) \<longleftrightarrow> by_impl C T t (trusted_hash_eq r) \<or> by_rows C T t rs"
  by (simp add: by_rows_def)

lemma by_rows_Nil [simp]: "\<not> by_rows C T t []"
  by (simp add: by_rows_def)


lemma match_named [simp]: "match_pat (named n) t = Some b \<longleftrightarrow> t = Con (Named n) [] \<and> b = []"
  by (cases t; cases "case t of Con c ts \<Rightarrow> ts | Arr u k \<Rightarrow> []") (auto simp: named_def)

lemma match_unary [simp]: "match_pat (PCon c [PVar v]) t = Some b \<longleftrightarrow> (\<exists>u. t = Con c [u] \<and> b = [(v, u)])"
  by (cases t; cases "case t of Con c ts \<Rightarrow> ts | Arr u k \<Rightarrow> []"; cases "tl (case t of Con c ts \<Rightarrow> ts | Arr u k \<Rightarrow> [])") auto




lemma match_binary [simp]:
  "match_pat (PCon c [PVar 0, PVar (Suc 0)]) t = Some b \<longleftrightarrow> (\<exists>u v. t = Con c [u, v] \<and> b = [(0, u), (Suc 0, v)])"
  using match_pat_vars [of c 2 t b] by (auto simp: numeral_2_eq_2 length_Suc_conv)

lemma arg_simps [simp]: "arg ((v, t) # b) v = t" "v \<noteq> v' \<Longrightarrow> arg ((v, t) # b) v' = arg b v'"
  by (simp_all add: arg_def)

lemma by_unary [simp]:
  "by_impl C T t (trusted_hash_eq (Row [False] None (PCon c [PVar 0]))) \<longleftrightarrow> (\<exists>u. t = Con c [u] \<and> sized u \<and> T u)"
  "by_impl C T t (trusted_hash_eq (Row [True] None (PCon c [PVar 0]))) \<longleftrightarrow> (\<exists>u. t = Con c [u] \<and> T u)"
  "by_impl C T t (trusted_hash_eq (Row [True] (Some []) (PCon c [PVar 0]))) \<longleftrightarrow> (\<exists>u. t = Con c [u])"
  "by_impl C T t (trusted_hash_eq (Row [False] (Some []) (PCon c [PVar 0]))) \<longleftrightarrow> (\<exists>u. t = Con c [u] \<and> sized u)"
  "by_impl C T t (trusted_hash_eq (Row [False, False] None (PCon c [PVar 0, PVar (Suc 0)]))) \<longleftrightarrow>
     (\<exists>u v. t = Con c [u, v] \<and> sized u \<and> sized v \<and> T u \<and> T v)"
  by (auto simp: sized_bounds_def)
















section \<open>Coherence\<close>











section \<open>Properties\<close>




end
