(* ===== verification/CachePadded.thy ===== *)
theory CachePadded
  imports Main
begin

text \<open>
  \<open>src/util/cache_padded.rs\<close>: the wrapper around the two maps and around each reference count, whose only
  effect is on the layout. The alignment depends on the target architecture; sizes and alignments
  are those Rust gives a struct with \<open>repr(align)\<close>.
\<close>

section \<open>Layout\<close>

text \<open>The \<open>cfg_attr\<close>s of the struct: each adds its alignment when its condition holds.\<close>

definition arch_128 :: "string list" where
  "arch_128 = [''x86_64'', ''aarch64'', ''powerpc64'']"

definition arch_32 :: "string list" where
  "arch_32 = [''arm'', ''mips'', ''mips64'', ''riscv64'']"

definition repr_aligns :: "string \<Rightarrow> nat list" where
  "repr_aligns arch =
     (if arch \<in> set arch_128 then [128] else [])
     @ (if arch \<in> set arch_32 then [32] else [])
     @ (if arch = ''s390x'' then [256] else [])
     @ (if arch \<notin> set (arch_128 @ arch_32 @ [''s390x'']) then [64] else [])"

text \<open>The layout of \<open>CachePadded<T>\<close>, for a \<open>T\<close> of the given size and alignment: its size is rounded up.\<close>

definition padded_align :: "string \<Rightarrow> nat \<Rightarrow> nat" where
  "padded_align arch al = fold max (repr_aligns arch) al"

definition padded_size :: "string \<Rightarrow> nat \<Rightarrow> nat \<Rightarrow> nat" where
  "padded_size arch al sz =
     (let a = padded_align arch al in (sz + a - 1) div a * a)"

definition element_address :: "string \<Rightarrow> nat \<Rightarrow> nat \<Rightarrow> nat \<Rightarrow> nat \<Rightarrow> nat" where
  "element_address arch al sz base i = base + i * padded_size arch al sz"

section \<open>No two values share a line\<close>

lemma repr_aligns_unique: "\<exists>m. repr_aligns arch = [2 ^ m] \<and> 5 \<le> m"
proof -
  consider "repr_aligns arch = [2 ^ 7]" | "repr_aligns arch = [2 ^ 5]" | "repr_aligns arch = [2 ^ 8]"
    | "repr_aligns arch = [2 ^ 6]"
    by (cases "arch \<in> set arch_128"; cases "arch \<in> set arch_32"; cases "arch = ''s390x''")
      (auto simp: repr_aligns_def arch_128_def arch_32_def)
  then show ?thesis by cases (auto intro: exI [of _ 5] exI [of _ 6] exI [of _ 7] exI [of _ 8])
qed

lemma power_dvd_max: "(2::nat) ^ m dvd max (2 ^ m) (2 ^ n)"
  by (cases "m \<le> n") (simp_all add: max_def le_imp_power_dvd)

lemma padded_size_ge:
  assumes "0 < a"
  shows "sz \<le> (sz + a - 1) div a * (a :: nat)"
proof -
  have "sz + a - 1 < Suc ((sz + a - 1) div a) * a"
    using assms by (simp add: dividend_less_div_times add.commute)
  then show ?thesis using assms by simp
qed

lemma line_separate:
  fixes L :: nat
  assumes "L dvd S" "L dvd b" "x < S" "y < S" "i < j"
  shows "(b + i * S + x) div L < (b + j * S + y) div L"
proof -
  obtain q c where S: "S = L * q" and b: "b = L * c" using assms(1,2) by (elim dvdE)
  then have pos: "0 < L" using assms(3) by (cases L) auto
  have "(b + i * S + x) div L = c + i * q + x div L"
    using pos div_mult_self2 [of L x "c + i * q"] by (simp add: S b algebra_simps)
  moreover have "(b + j * S + y) div L = c + j * q + y div L"
    using pos div_mult_self2 [of L y "c + j * q"] by (simp add: S b algebra_simps)
  moreover have "x div L < q" using assms(3) S pos by (simp add: less_mult_imp_div_less mult.commute)
  moreover have "Suc i * q \<le> j * q" using assms(5) by (simp only: mult_le_mono1 Suc_leI)
  ultimately show ?thesis by simp
qed

text \<open>
  Every architecture gets exactly one alignment, and the bytes of two different elements of an array of
  padded values never lie in the same block of that size: the readers of one map do not disturb
  the writer of the other through the cache.
\<close>

theorem padded_values_on_own_lines:
  assumes "repr_aligns arch = [L]" "padded_align arch (2 ^ n) dvd base" "x < sz" "y < sz" "i \<noteq> j"
  shows "(element_address arch (2 ^ n) sz base i + x) div L \<noteq> (element_address arch (2 ^ n) sz base j + y) div L"
proof -
  obtain m where L: "L = 2 ^ m" using repr_aligns_unique [of arch] assms(1) by auto
  have a: "padded_align arch (2 ^ n) = max L (2 ^ n)" by (simp add: padded_align_def assms(1) max.commute)
  have Ldvd: "L dvd padded_align arch (2 ^ n)" unfolding a L by (rule power_dvd_max)
  let ?S = "padded_size arch (2 ^ n) sz"
  have "0 < max L (2 ^ n)" by (simp add: less_max_iff_disj)
  from padded_size_ge [OF this] have "sz \<le> ?S" by (simp only: padded_size_def Let_def a)
  then have xy: "x < ?S" "y < ?S" using assms(3,4) by simp_all
  have "L dvd ?S" using Ldvd by (simp add: padded_size_def Let_def dvd_mult)
  note sep = line_separate [OF this dvd_trans [OF Ldvd assms(2)]]
  from assms(5) show ?thesis
    using sep [OF xy, of i j] sep [OF xy(2,1), of j i]
    by (cases "i < j") (auto simp: element_address_def)
qed

theorem padded_values_on_own_lines_witness:
  "(element_address ''x86_64'' 8 48 256 0 + 47) div 128 \<noteq> (element_address ''x86_64'' 8 48 256 1 + 0) div 128"
  using padded_values_on_own_lines [of "''x86_64''" 128 3 256 47 48 0 0 1]
  by (simp add: repr_aligns_def arch_128_def arch_32_def padded_align_def)

end
