(* ===== verification/Cells.thy ===== *)
theory Cells
  imports Ordering CachePadded
begin

text \<open>
  The wrappers around every value the crate shares: \<open>CachePadded\<close> (\<open>src/util/cache_padded.rs\<close>) and the two
  variants of \<open>UnsafeCell\<close> (\<open>src/util/loom.rs\<close>), one over the cell of the standard library and one over the cell of the
  \<open>loom\<close> model checker. The latter is a third-party package: a record of the functions that are called,
  and a locale with what they are documented to do, which is to panic on an access that is not valid under the memory
  model. The runtime of the checker knows the causality of the calling thread; here every access gets its event and the
  view of its thread as arguments, as the race-checked cells of \<open>Ordering\<close> do.
\<close>

section \<open>References\<close>

text \<open>
  A mutable reference to a part of an owner: what it points to, and what the owner is after a write.
\<close>

record ('s, 'a) mut_ref =
  target :: 'a
  write_back :: "'a \<Rightarrow> 's"

section \<open>Padded values\<close>

record 'a padded =
  padded_value :: 'a

definition padded_new :: "'a \<Rightarrow> 'a padded" where
  "padded_new t = \<lparr>padded_value = t\<rparr>"

definition padded_deref :: "'a padded \<Rightarrow> 'a" where
  "padded_deref p = padded_value p"

definition padded_deref_mut :: "'a padded \<Rightarrow> ('a padded, 'a) mut_ref" where
  "padded_deref_mut p = \<lparr>target = padded_value p, write_back = (\<lambda>v. p\<lparr>padded_value := v\<rparr>)\<rparr>"

definition padded_from :: "'a \<Rightarrow> 'a padded" where
  "padded_from t = padded_new t"

section \<open>The cell over the standard library\<close>

text \<open>
  The closure of \<open>with\<close> gets a pointer to read through, that of \<open>with_mut\<close> one to write through: the
  first is a function of the value, the second also gives the value it leaves behind.
\<close>

record ('s, 'a) MutPtr =
  mut_ptr :: "('s, 'a) mut_ref"

definition mut_ptr_deref :: "('s, 'a) MutPtr \<Rightarrow> 'a" where
  "mut_ptr_deref p = target (mut_ptr p)"

definition mut_ptr_deref_mut :: "('s, 'a) MutPtr \<Rightarrow> ('s, 'a) mut_ref" where
  "mut_ptr_deref_mut p = mut_ptr p"

record 'a UnsafeCell =
  inner :: 'a

definition unsafe_cell_new :: "'a \<Rightarrow> 'a UnsafeCell" where
  "unsafe_cell_new value = \<lparr>inner = value\<rparr>"

definition unsafe_cell_get_mut :: "'a UnsafeCell \<Rightarrow> ('a UnsafeCell, 'a) MutPtr" where
  "unsafe_cell_get_mut c = \<lparr>mut_ptr = \<lparr>target = inner c, write_back = (\<lambda>v. c\<lparr>inner := v\<rparr>)\<rparr>\<rparr>"

definition unsafe_cell_with :: "'a UnsafeCell \<Rightarrow> ('a \<Rightarrow> 'r) \<Rightarrow> 'r \<times> 'a UnsafeCell" where
  "unsafe_cell_with c f = (f (inner c), c)"

definition unsafe_cell_with_mut :: "'a UnsafeCell \<Rightarrow> ('a \<Rightarrow> 'r \<times> 'a) \<Rightarrow> 'r \<times> 'a UnsafeCell" where
  "unsafe_cell_with_mut c f = (let (r, v) = f (inner c) in (r, c\<lparr>inner := v\<rparr>))"

section \<open>The cell over the model checker\<close>

text \<open>
  The functions of \<open>loom::cell\<close> that are called: on cells \<open>'l\<close> and their pointers \<open>'p\<close>, with the event of the access and the view of the thread.
\<close>

record ('l, 'p, 'a, 'r) loom =
  loom_new :: "'a \<Rightarrow> 'l"
  loom_get_mut :: "nat \<Rightarrow> view \<Rightarrow> 'l \<Rightarrow> 'p res"
  loom_deref :: "'p \<Rightarrow> ('l, 'a) mut_ref"
  loom_with :: "nat \<Rightarrow> view \<Rightarrow> 'l \<Rightarrow> ('a \<Rightarrow> 'r) \<Rightarrow> ('r \<times> 'l) res"
  loom_with_mut :: "nat \<Rightarrow> view \<Rightarrow> 'l \<Rightarrow> ('a \<Rightarrow> 'r \<times> 'a) \<Rightarrow> ('r \<times> 'l) res"

record 'p LoomMutPtr =
  loom_mut_ptr :: 'p

definition loom_ptr_deref :: "('l, 'p, 'a, 'r) loom \<Rightarrow> 'p LoomMutPtr \<Rightarrow> 'a" where
  "loom_ptr_deref L p = target (loom_deref L (loom_mut_ptr p))"

definition loom_ptr_deref_mut :: "('l, 'p, 'a, 'r) loom \<Rightarrow> 'p LoomMutPtr \<Rightarrow> ('l, 'a) mut_ref" where
  "loom_ptr_deref_mut L p = loom_deref L (loom_mut_ptr p)"

record 'l LoomUnsafeCell =
  loom_inner :: 'l

definition loom_cell_new :: "('l, 'p, 'a, 'r) loom \<Rightarrow> 'a \<Rightarrow> 'l LoomUnsafeCell" where
  "loom_cell_new L value = \<lparr>loom_inner = loom_new L value\<rparr>"

definition loom_cell_get_mut
  :: "('l, 'p, 'a, 'r) loom \<Rightarrow> nat \<Rightarrow> view \<Rightarrow> 'l LoomUnsafeCell \<Rightarrow> 'p LoomMutPtr res" where
  "loom_cell_get_mut L e V c = bind_res (loom_get_mut L e V (loom_inner c)) (\<lambda>p. Inr \<lparr>loom_mut_ptr = p\<rparr>)"

definition loom_cell_with :: "('l, 'p, 'a, 'r) loom \<Rightarrow> nat \<Rightarrow> view \<Rightarrow> 'l LoomUnsafeCell \<Rightarrow> ('a \<Rightarrow> 'r)
    \<Rightarrow> ('r \<times> 'l LoomUnsafeCell) res" where
  "loom_cell_with L e V c f =
     bind_res (loom_with L e V (loom_inner c) f) (\<lambda>(r, l). Inr (r, c\<lparr>loom_inner := l\<rparr>))"

definition loom_cell_with_mut :: "('l, 'p, 'a, 'r) loom \<Rightarrow> nat \<Rightarrow> view \<Rightarrow> 'l LoomUnsafeCell \<Rightarrow> ('a \<Rightarrow> 'r \<times> 'a)
    \<Rightarrow> ('r \<times> 'l LoomUnsafeCell) res" where
  "loom_cell_with_mut L e V c f =
     bind_res (loom_with_mut L e V (loom_inner c) f) (\<lambda>(r, l). Inr (r, c\<lparr>loom_inner := l\<rparr>))"

section \<open>What both variants promise\<close>

text \<open>
  The names both variants of the module export, with which the rest of the crate is compiled. The cell over the standard library checks nothing.
\<close>

record ('c, 'a, 'r) cell_api =
  api_new :: "'a \<Rightarrow> 'c"
  api_get_mut :: "nat \<Rightarrow> view \<Rightarrow> 'c \<Rightarrow> ('c, 'a) mut_ref res"
  api_with :: "nat \<Rightarrow> view \<Rightarrow> 'c \<Rightarrow> ('a \<Rightarrow> 'r) \<Rightarrow> ('r \<times> 'c) res"
  api_with_mut :: "nat \<Rightarrow> view \<Rightarrow> 'c \<Rightarrow> ('a \<Rightarrow> 'r \<times> 'a) \<Rightarrow> ('r \<times> 'c) res"

definition std_cells :: "('a UnsafeCell, 'a, 'r) cell_api" where
  "std_cells =
     \<lparr>api_new = unsafe_cell_new,
      api_get_mut = (\<lambda>e V c. Inr (mut_ptr_deref_mut (unsafe_cell_get_mut c))),
      api_with = (\<lambda>e V c f. Inr (unsafe_cell_with c f)),
      api_with_mut = (\<lambda>e V c f. Inr (unsafe_cell_with_mut c f))\<rparr>"

text \<open>A reference to the contents of the cell of the model checker is one to those of the struct around it.\<close>

definition loom_cells :: "('l, 'p, 'a, 'r) loom \<Rightarrow> ('l LoomUnsafeCell, 'a, 'r) cell_api" where
  "loom_cells L =
     \<lparr>api_new = loom_cell_new L,
      api_get_mut = (\<lambda>e V c. bind_res (loom_cell_get_mut L e V c) (\<lambda>p.
        Inr \<lparr>target = loom_ptr_deref L p,
             write_back = (\<lambda>v. c\<lparr>loom_inner := write_back (loom_ptr_deref_mut L p) v\<rparr>)\<rparr>)),
      api_with = loom_cell_with L,
      api_with_mut = loom_cell_with_mut L\<rparr>"

text \<open>
  The contract of a cell: \<open>agrees\<close> relates it to the record of the accesses made of it so far. An access that this record allows
  does not fail, sees the content and leaves behind what its closure does.
\<close>

locale cell_laws =
  fixes api :: "('c, 'a, 'r) cell_api"
    and content :: "'c \<Rightarrow> 'a"
    and agrees :: "'c \<Rightarrow> cell \<Rightarrow> bool"
  assumes new_law: "content (api_new api v) = v" "agrees (api_new api v) cell_new"
    and get_mut_law: "agrees c h \<Longrightarrow> cell_with_mut e V h = Inr h' \<Longrightarrow>
          \<exists>p. api_get_mut api e V c = Inr p \<and> target p = content c
            \<and> (\<forall>v. content (write_back p v) = v \<and> agrees (write_back p v) h')"
    and with_law: "agrees c h \<Longrightarrow> cell_with e V h = Inr h' \<Longrightarrow>
          \<exists>c'. api_with api e V c f = Inr (f (content c), c') \<and> content c' = content c \<and> agrees c' h'"
    and with_mut_law: "agrees c h \<Longrightarrow> cell_with_mut e V h = Inr h' \<Longrightarrow>
          \<exists>c'. api_with_mut api e V c g = Inr (fst (g (content c)), c') \<and> content c' = snd (g (content c)) \<and> agrees c' h'"

interpretation std: cell_laws std_cells inner "\<lambda>_ _. True"
  by unfold_locales (simp_all add: std_cells_def unsafe_cell_new_def unsafe_cell_get_mut_def
      mut_ptr_deref_mut_def unsafe_cell_with_def unsafe_cell_with_mut_def split_beta)

text \<open>
  The documented behaviour of the model checker's cell: it records the accesses made of it, \<open>with\<close> and \<open>with_mut\<close> panic when the access is
  not valid under the memory model, that is when a conflicting access does not happen before it, and otherwise
  give out a pointer to the contents; \<open>get_mut\<close> counts as a mutable access.
\<close>

locale loom_laws =
  fixes L :: "('l, 'p, 'a, 'r) loom"
    and content :: "'l \<Rightarrow> 'a"
    and history :: "'l \<Rightarrow> cell"
  assumes loom_new_law: "content (loom_new L v) = v" "history (loom_new L v) = cell_new"
    and loom_get_mut_law: "case cell_with_mut e V (history l) of
          Inl u \<Rightarrow> \<exists>msg. loom_get_mut L e V l = Inl (Panic msg)
        | Inr h \<Rightarrow> \<exists>p. loom_get_mut L e V l = Inr p \<and> target (loom_deref L p) = content l
            \<and> (\<forall>v. content (write_back (loom_deref L p) v) = v \<and> history (write_back (loom_deref L p) v) = h)"
    and loom_with_law: "case cell_with e V (history l) of
          Inl u \<Rightarrow> \<exists>msg. loom_with L e V l f = Inl (Panic msg)
        | Inr h \<Rightarrow> \<exists>l'. loom_with L e V l f = Inr (f (content l), l') \<and> content l' = content l \<and> history l' = h"
    and loom_with_mut_law: "case cell_with_mut e V (history l) of
          Inl u \<Rightarrow> \<exists>msg. loom_with_mut L e V l g = Inl (Panic msg)
        | Inr h \<Rightarrow> \<exists>l'. loom_with_mut L e V l g = Inr (fst (g (content l)), l') \<and> content l' = snd (g (content l))
            \<and> history l' = h"
begin

lemma cell_get_mut_law:
  assumes "cell_with_mut e V (history (loom_inner c)) = Inr h"
  shows "\<exists>p. api_get_mut (loom_cells L) e V c = Inr p \<and> target p = content (loom_inner c)
    \<and> (\<forall>v. content (loom_inner (write_back p v)) = v \<and> history (loom_inner (write_back p v)) = h)"
  using loom_get_mut_law [of e V "loom_inner c"] assms
  by (auto simp: loom_cells_def loom_cell_get_mut_def loom_ptr_deref_def loom_ptr_deref_mut_def)

lemma cell_with_law:
  assumes "cell_with e V (history (loom_inner c)) = Inr h"
  shows "\<exists>c'. api_with (loom_cells L) e V c f = Inr (f (content (loom_inner c)), c')
    \<and> content (loom_inner c') = content (loom_inner c) \<and> history (loom_inner c') = h"
  using loom_with_law [of e V "loom_inner c" f] assms by (auto simp: loom_cells_def loom_cell_with_def)

lemma cell_with_mut_law:
  assumes "cell_with_mut e V (history (loom_inner c)) = Inr h"
  shows "\<exists>c'. api_with_mut (loom_cells L) e V c g = Inr (fst (g (content (loom_inner c))), c')
    \<and> content (loom_inner c') = snd (g (content (loom_inner c))) \<and> history (loom_inner c') = h"
  using loom_with_mut_law [of e V "loom_inner c" g] assms by (auto simp: loom_cells_def loom_cell_with_mut_def)

text \<open>A test under the checker finds every race of the cell: it panics exactly where \<open>Ordering\<close> has a data race.\<close>

lemma cell_panics_iff_race:
  "(\<exists>msg. api_with (loom_cells L) e V c f = Inl (Panic msg)) \<longleftrightarrow>
     cell_with e V (history (loom_inner c)) = Inl (UB DataRace)"
  "(\<exists>msg. api_with_mut (loom_cells L) e V c g = Inl (Panic msg)) \<longleftrightarrow>
     cell_with_mut e V (history (loom_inner c)) = Inl (UB DataRace)"
  using loom_with_law [of e V "loom_inner c" f] loom_with_mut_law [of e V "loom_inner c" g]
  by (auto simp: loom_cells_def loom_cell_with_def loom_cell_with_mut_def cell_with_def cell_with_mut_def split: if_splits)

end

sublocale loom_laws \<subseteq> wrapped: cell_laws "loom_cells L" "\<lambda>c. content (loom_inner c)" "\<lambda>c h. history (loom_inner c) = h"
proof (unfold_locales, goal_cases)
  case (1 v)
  then show ?case by (simp add: loom_cells_def loom_cell_new_def loom_new_law)
next
  case (2 v)
  then show ?case by (simp add: loom_cells_def loom_cell_new_def loom_new_law)
next
  case (3 c h e V h')
  then show ?case using cell_get_mut_law [of e V c h'] by simp
next
  case (4 c h e V h' f)
  then show ?case using cell_with_law [of e V c h' f] by simp
next
  case (5 c h e V h' g)
  then show ?case using cell_with_mut_law [of e V c h' g] by simp
qed

context loom_laws
begin

lemma wrapped_laws: "cell_laws (loom_cells L) (\<lambda>c. content (loom_inner c)) (\<lambda>c h. history (loom_inner c) = h)"
  by (rule wrapped.cell_laws_axioms)

end

text \<open>A checker that keeps the record of accesses beside the value, and looks each access up in it.\<close>

record 'a tracked =
  tracked_value :: 'a
  tracked_history :: cell

definition track :: "cell res \<Rightarrow> (cell \<Rightarrow> 'b) \<Rightarrow> 'b res" where
  "track r k = (case r of Inl u \<Rightarrow> Inl (Panic ''Causality violation'') | Inr h \<Rightarrow> Inr (k h))"

definition tracked_cells :: "('a tracked, 'a tracked, 'a, 'r) loom" where
  "tracked_cells =
     \<lparr>loom_new = (\<lambda>v. \<lparr>tracked_value = v, tracked_history = cell_new\<rparr>),
      loom_get_mut = (\<lambda>e V l. track (cell_with_mut e V (tracked_history l)) (\<lambda>h. l\<lparr>tracked_history := h\<rparr>)),
      loom_deref = (\<lambda>l. \<lparr>target = tracked_value l, write_back = (\<lambda>v. l\<lparr>tracked_value := v\<rparr>)\<rparr>),
      loom_with = (\<lambda>e V l f. track (cell_with e V (tracked_history l)) (\<lambda>h. (f (tracked_value l), l\<lparr>tracked_history := h\<rparr>))),
      loom_with_mut = (\<lambda>e V l g. track (cell_with_mut e V (tracked_history l)) (\<lambda>h.
        (fst (g (tracked_value l)), l\<lparr>tracked_value := snd (g (tracked_value l)), tracked_history := h\<rparr>)))\<rparr>"

interpretation tracked: loom_laws tracked_cells tracked_value tracked_history
  by unfold_locales (simp_all add: tracked_cells_def track_def split: sum.splits)

end
