(* ===== verification/MapAccess.thy ===== *)
theory MapAccess
  imports Cells Teardown SystemProps
begin

text \<open>
  \<open>src/core/store.rs\<close> with its pointers: the boxed array of the two maps on the heap, each in a cell and padded,
  the owner that frees the array, and the shared accesses of the read handles, which copy the owner's
  pointer. On them the readers, the writer and the drop of the core of \<open>Ordering\<close> make their accesses, with closures that
  read and change the maps. \<open>Store\<close> has the array without pointers, cells and padding; the two agree.
\<close>

section \<open>The heap\<close>

text \<open>
  The boxed arrays on the heap. Address 0 is the null pointer, and \<open>lim\<close> the next address to be given out.
\<close>

record 'c box_heap =
  arrays :: "nat \<rightharpoonup> 'c padded list"
  lim :: nat

definition empty_boxes :: "'c box_heap" where
  "empty_boxes = \<lparr>arrays = Map.empty, lim = 1\<rparr>"

definition box_new :: "'c padded list \<Rightarrow> 'c box_heap \<Rightarrow> nat \<times> 'c box_heap" where
  "box_new arr h = (lim h, h\<lparr>arrays := (arrays h)(lim h \<mapsto> arr), lim := Suc (lim h)\<rparr>)"

definition nonnull_new :: "nat \<Rightarrow> nat option" where
  "nonnull_new p = (if p = 0 then None else Some p)"

text \<open>A reference to a cell of an array, and an access through it.\<close>

type_synonym cell_ref = "nat \<times> nat"

definition on_cell :: "('c \<Rightarrow> ('r \<times> 'c) res) \<Rightarrow> cell_ref \<Rightarrow> 'c box_heap \<Rightarrow> ('r \<times> 'c box_heap) res" where
  "on_cell access r h =
     (case arrays h (fst r) of
        None \<Rightarrow> Inl (UB UseAfterFree)
      | Some arr \<Rightarrow>
          (if snd r < length arr
           then bind_res (access (padded_deref (arr ! snd r))) (\<lambda>(x, c).
             Inr (x, h\<lparr>arrays := (arrays h)(fst r \<mapsto> arr[snd r := write_back (padded_deref_mut (arr ! snd r)) c])\<rparr>))
           else Inl (UB BadIndex)))"

section \<open>Accesses to the array\<close>

record SharedMapAccess =
  map_ptr :: nat

definition shared_new :: "nat \<Rightarrow> SharedMapAccess" where
  "shared_new p = \<lparr>map_ptr = p\<rparr>"

text \<open>The dereference of the pointer, and the index into the array, which is checked.\<close>

definition shared_get :: "SharedMapAccess \<Rightarrow> MapIndex \<Rightarrow> 'c box_heap \<Rightarrow> cell_ref res" where
  "shared_get s index h =
     (case arrays h (map_ptr s) of
        None \<Rightarrow> Inl (UB UseAfterFree)
      | Some arr \<Rightarrow>
          (if unat (as_usize index) < length arr then Inr (map_ptr s, unat (as_usize index))
           else Inl (Panic ''index out of bounds'')))"

definition shared_clone :: "SharedMapAccess \<Rightarrow> SharedMapAccess" where
  "shared_clone s = \<lparr>map_ptr = map_ptr s\<rparr>"

record OwnedMapAccess =
  access :: SharedMapAccess

definition owned_new :: "nat \<Rightarrow> OwnedMapAccess res" where
  "owned_new boxed =
     (case nonnull_new boxed of
        None \<Rightarrow> Inl (Panic ''called `Option::unwrap()` on a `None` value'')
      | Some p \<Rightarrow> Inr \<lparr>access = shared_new p\<rparr>)"

definition owned_get :: "OwnedMapAccess \<Rightarrow> MapIndex \<Rightarrow> 'c box_heap \<Rightarrow> cell_ref res" where
  "owned_get ow index h = shared_get (access ow) index h"

definition owned_share :: "OwnedMapAccess \<Rightarrow> SharedMapAccess" where
  "owned_share ow = shared_clone (access ow)"

definition owned_drop :: "OwnedMapAccess \<Rightarrow> 'c box_heap \<Rightarrow> 'c box_heap res" where
  "owned_drop ow h =
     (case arrays h (map_ptr (access ow)) of
        None \<Rightarrow> Inl (UB DoubleFree)
      | Some arr \<Rightarrow> Inr (h\<lparr>arrays := (arrays h)(map_ptr (access ow) := None)\<rparr>))"

section \<open>The map with its memory\<close>

text \<open>
  The state of \<open>Ordering\<close>, the heap, the owner of the array, which is a field of \<open>Core\<close>, the shared access of each read handle, and
  for each guard the reference to the cell it was given.
\<close>

record 'c mem_state =
  order :: ostate
  boxes :: "'c box_heap"
  owner :: OwnedMapAccess
  accesses :: "slab_key \<rightharpoonup> SharedMapAccess"
  guard_refs :: "cell_ref list"
  freed :: bool

text \<open>\<open>Core::build_map\<close>: the two maps are boxed, the owner takes the box, and the first read handle shares it.\<close>

definition store_new :: "('c, 'm, 'r) cell_api \<Rightarrow> 'm \<Rightarrow> 'm \<Rightarrow> (OwnedMapAccess \<times> 'c box_heap) res" where
  "store_new api m1 m2 =
     (let (boxed, h) = box_new [padded_new (api_new api m1), padded_new (api_new api m2)] empty_boxes
      in bind_res (owned_new boxed) (\<lambda>ow. Inr (ow, h)))"

definition mem_start :: "('c, 'm, 'r) cell_api \<Rightarrow> 'm \<Rightarrow> 'm \<Rightarrow> slab_key \<Rightarrow> state \<Rightarrow> 'c mem_state res" where
  "mem_start api m1 m2 key s =
     bind_res (store_new api m1 m2) (\<lambda>(ow, h).
       Inr \<lparr>order = build_order s, boxes = h, owner = ow, accesses = [key \<mapsto> owned_share ow], guard_refs = [], freed = False\<rparr>)"

text \<open>
  The actions: those of the protocol, the two stale loads, and the accesses of the maps by a guard, by the
  writer and by the drop of the core, each with its closure.
\<close>

datatype ('m, 'r) mem_action =
    CoreAct action
  | StaleLoad
  | StaleReload
  | ReadWith nat "'m \<Rightarrow> 'r"
  | WriterWith "'m \<Rightarrow> 'r"
  | WriterWithMut "'m \<Rightarrow> 'r \<times> 'm"
  | FreeCore "'m \<Rightarrow> 'r \<times> 'm"

text \<open>
  What an action of the protocol does to the pointers: \<open>new_reader\<close> shares the owner's, the drop of a handle gives its copy up, and
  \<open>ReadHandle::guard\<close> obtains the reference of the new guard through that of its handle.
\<close>

definition handle_effect :: "action \<Rightarrow> 'c mem_state \<Rightarrow> ('r option \<times> 'c mem_state) res" where
  "handle_effect a st =
     (case a of
        CloneReader from key \<Rightarrow> Inr (None, st\<lparr>accesses := (accesses st)(key \<mapsto> owned_share (owner st))\<rparr>)
      | DropReader key \<Rightarrow> Inr (None, st\<lparr>accesses := (accesses st)(key := None)\<rparr>)
      | NewGuard key \<Rightarrow>
          (case accesses st key of
             None \<Rightarrow> Inl (UB UseAfterFree)
           | Some s \<Rightarrow> bind_res (shared_get s (map_index (last (guards (core_state (order st))))) (boxes st))
               (\<lambda>r. Inr (None, st\<lparr>guard_refs := guard_refs st @ [r]\<rparr>)))
      | _ \<Rightarrow> Inr (None, st))"

definition order_step :: "oaction \<Rightarrow> ('c mem_state \<Rightarrow> ('r option \<times> 'c mem_state) res) \<Rightarrow> 'c mem_state
    \<Rightarrow> ('r option \<times> 'c mem_state) step" where
  "order_step a k st = map_option (\<lambda>q. bind_res q (\<lambda>y. k (st\<lparr>order := y\<rparr>))) (oexec a (order st))"

text \<open>An access, which the cell itself may refuse, and what it means for the order of events.\<close>

definition access_step :: "oaction \<Rightarrow> ('r \<times> 'c box_heap) res \<Rightarrow> 'c mem_state \<Rightarrow> ('r option \<times> 'c mem_state) step" where
  "access_step a r st =
     map_option (\<lambda>q. bind_res r (\<lambda>(x, b). bind_res q (\<lambda>y. Inr (Some x, st\<lparr>order := y, boxes := b\<rparr>)))) (oexec a (order st))"

text \<open>\<open>Core::writer_map\<close>, and an access through it.\<close>

definition through_owner :: "MapIndex \<Rightarrow> ('c \<Rightarrow> ('r \<times> 'c) res) \<Rightarrow> 'c mem_state \<Rightarrow> ('r \<times> 'c box_heap) res" where
  "through_owner i acc st = bind_res (owned_get (owner st) i (boxes st)) (\<lambda>r. on_cell acc r (boxes st))"

fun mem_exec :: "('c, 'm, 'r) cell_api \<Rightarrow> ('m, 'r) mem_action \<Rightarrow> 'c mem_state \<Rightarrow> ('r option \<times> 'c mem_state) step" where
  "mem_exec api (CoreAct a) st = order_step (CoreStep a) (handle_effect a) st"
| "mem_exec api StaleLoad st = order_step LoadStale (\<lambda>st. Inr (None, st)) st"
| "mem_exec api StaleReload st = order_step ReloadStale (\<lambda>st. Inr (None, st)) st"
| "mem_exec api (ReadWith i f) st =
     access_step (ReaderRead i)
       (on_cell (\<lambda>c. api_with api (next_event (order st)) (cur (guard_views (order st) ! i)) c f) (guard_refs st ! i) (boxes st)) st"
| "mem_exec api (WriterWith f) st =
     access_step WriterRead (through_owner (writer_map (core_state (order st)))
       (\<lambda>c. api_with api (next_event (order st)) (cur (writer_view (order st))) c f) st) st"
| "mem_exec api (WriterWithMut g) st =
     access_step WriterWrite (through_owner (writer_map (core_state (order st)))
       (\<lambda>c. api_with_mut api (next_event (order st)) (cur (writer_view (order st))) c g) st) st"
| "mem_exec api (FreeCore g) st =
     (if freed st then None
      else map_option (\<lambda>q.
        bind_res (through_owner (other (writer_map (core_state (order st))))
            (\<lambda>c. api_with_mut api (next_event (order st)) (arc_view (order st)) c g) st) (\<lambda>(x, b).
        bind_res q (\<lambda>u. bind_res (owned_drop (owner st) b) (\<lambda>b'. Inr (Some x, st\<lparr>boxes := b', freed := True\<rparr>)))))
        (core_drop_view (order st)))"

fun acts :: "('a \<Rightarrow> 's \<Rightarrow> ('r option \<times> 's) step) \<Rightarrow> 'a list \<Rightarrow> 's \<Rightarrow> 'r option list step" where
  "acts step [] s = ok []"
| "acts step (a # as) s =
     (case step a s of
        None \<Rightarrow> None
      | Some (Inl e) \<Rightarrow> Some (Inl e)
      | Some (Inr (x, s')) \<Rightarrow> map_option (\<lambda>q. bind_res q (\<lambda>xs. Inr (x # xs))) (acts step as s'))"

text \<open>The results of a run from the building of the map on.\<close>

definition mem_results :: "('c, 'm, 'r) cell_api \<Rightarrow> 'm \<Rightarrow> 'm \<Rightarrow> slab_key \<Rightarrow> state \<Rightarrow> ('m, 'r) mem_action list
    \<Rightarrow> 'r option list step" where
  "mem_results api m1 m2 key s as =
     (case mem_start api m1 m2 key s of Inl e \<Rightarrow> Some (Inl e) | Inr st \<Rightarrow> acts (mem_exec api) as st)"

section \<open>Specification\<close>

text \<open>
  The same actions on the plain array of \<open>Store\<close>: no pointers, no cells, nothing to be freed.
\<close>

record 'm plain_state =
  plain_order :: ostate
  plain_maps :: "'m MapArray"
  plain_freed :: bool

definition plain_step :: "ostate step \<Rightarrow> 'r option \<Rightarrow> 'm MapArray \<Rightarrow> 'm plain_state \<Rightarrow> ('r option \<times> 'm plain_state) step" where
  "plain_step o' x a p =
     map_option (\<lambda>q. bind_res q (\<lambda>y. Inr (x, p\<lparr>plain_order := y, plain_maps := a\<rparr>))) o'"

fun plain_exec :: "('m, 'r) mem_action \<Rightarrow> 'm plain_state \<Rightarrow> ('r option \<times> 'm plain_state) step" where
  "plain_exec (CoreAct a) p = plain_step (oexec (CoreStep a) (plain_order p)) None (plain_maps p) p"
| "plain_exec StaleLoad p = plain_step (oexec LoadStale (plain_order p)) None (plain_maps p) p"
| "plain_exec StaleReload p = plain_step (oexec ReloadStale (plain_order p)) None (plain_maps p) p"
| "plain_exec (ReadWith i f) p =
     plain_step (oexec (ReaderRead i) (plain_order p))
       (Some (f (map_get (plain_maps p) (map_index (guards (core_state (plain_order p)) ! i))))) (plain_maps p) p"
| "plain_exec (WriterWith f) p =
     plain_step (oexec WriterRead (plain_order p))
       (Some (f (map_get (plain_maps p) (writer_map (core_state (plain_order p)))))) (plain_maps p) p"
| "plain_exec (WriterWithMut g) p =
     (let i = writer_map (core_state (plain_order p)); (x, m) = g (map_get (plain_maps p) i)
      in plain_step (oexec WriterWrite (plain_order p)) (Some x) (map_put (plain_maps p) i m) p)"
| "plain_exec (FreeCore g) p =
     (let i = other (writer_map (core_state (plain_order p))); (x, m) = g (map_get (plain_maps p) i)
      in if plain_freed p then None
         else map_option (\<lambda>q. bind_res q (\<lambda>u. Inr (Some x, p\<lparr>plain_maps := map_put (plain_maps p) i m, plain_freed := True\<rparr>)))
           (core_drop_view (plain_order p)))"

definition plain_start :: "'m \<Rightarrow> 'm \<Rightarrow> state \<Rightarrow> 'm plain_state" where
  "plain_start m1 m2 s =
     \<lparr>plain_order = build_order s, plain_maps = \<lparr>first_map = m1, second_map = m2\<rparr>, plain_freed = False\<rparr>"

section \<open>The protocol and the handles\<close>

lemma keys_exec:
  assumes "pinv s" "exec a s = Some (Inr t)"
  shows "keys t \<subseteq> (case a of CloneReader from k \<Rightarrow> insert k (keys s) | DropReader k \<Rightarrow> keys s - {k} | _ \<Rightarrow> keys s)"
    and "keys s = {} \<Longrightarrow> keys t = {}"
proof -
  have "keys t \<subseteq> (case a of CloneReader from k \<Rightarrow> insert k (keys s) | DropReader k \<Rightarrow> keys s - {k} | _ \<Rightarrow> keys s)
     \<and> (keys s = {} \<longrightarrow> keys t = {})"
  proof (cases a)
    case WriterStep
    with assms(2) show ?thesis using writer_step_keys [of s t] by simp
  next
    case (NewGuard k)
    with assms(2) show ?thesis using read_guard_keys [of k s t] by simp
  next
    case (DropGuard i)
    with assms(2) show ?thesis using drop_guard_keys [of i s t] by simp
  next
    case (DropReader k)
    with assms(2) have "t = s\<lparr>refcounts := AList.delete k (refcounts s)\<rparr>"
      by (auto simp: release_refcount_def split: if_splits)
    then have "keys t = keys s - {k}" by (simp add: keys_def keys_delete)
    with DropReader show ?thesis by simp
  qed (use assms(2) in \<open>auto simp: keys_def clone_reader_def new_reader_def release_residual_def release_store_zero_def
      release_unpark_def publish_set_map_def park_spuriously_def Let_def split: if_splits option.splits writer_pc.splits\<close>)
  then show "keys t \<subseteq> (case a of CloneReader from k \<Rightarrow> insert k (keys s) | DropReader k \<Rightarrow> keys s - {k} | _ \<Rightarrow> keys s)"
    and "keys s = {} \<Longrightarrow> keys t = {}" by simp_all
qed

lemma guards_exec:
  assumes "pinv s" "exec a s = Some (Inr t)" "\<forall>k. a \<noteq> NewGuard k"
  shows "length (guards t) = length (guards s)"
proof (cases "reader_action a")
  case False
  with writer_action_guards [OF False assms(2)] show ?thesis by simp
next
  case True
  with assms(2,3) show ?thesis
    by (cases a) (auto simp: reader_action_def clone_reader_def new_reader_def release_refcount_def drop_guard_def
        release_residual_def release_store_zero_def release_unpark_def Let_def bind_res_eq_Inr
        split: if_splits option.splits prod.splits)
qed

section \<open>The order of the accesses\<close>

text \<open>What the race freedom of \<open>OrderingInv\<close> and \<open>Teardown\<close> says of one access: the record of its cell allows it.\<close>

lemma reader_ordered:
  assumes "oreachable A x" "oexec (ReaderRead i) x = Some q"
  shows "in_phase i Live (core_state x)"
    and "\<exists>h y. q = Inr y \<and> core_state y = core_state x
      \<and> cell_with (next_event x) (cur (guard_views x ! i)) (cells x (map_index (guards (core_state x) ! i))) = Inr h
      \<and> cells y = (cells x)(map_index (guards (core_state x) ! i) := h)"
proof -
  show "in_phase i Live (core_state x)" using assms(2) by (auto simp: reader_with_map_def split: if_splits)
  have "q = Inl Abort \<or> (\<exists>y. q = Inr y)" using oexec_ok [OF oreachable_inv [OF assms(1)] assms(2)] by blast
  then show "\<exists>h y. q = Inr y \<and> core_state y = core_state x
      \<and> cell_with (next_event x) (cur (guard_views x ! i)) (cells x (map_index (guards (core_state x) ! i))) = Inr h
      \<and> cells y = (cells x)(map_index (guards (core_state x) ! i) := h)"
    using assms(2) by (auto simp: reader_with_map_def Let_def bind_res_eq_Inr cell_with_def split: if_splits)
qed

lemma writer_ordered:
  assumes "oreachable A x" "oexec a x = Some q" "a = WriterRead \<and> acc = cell_with \<or> a = WriterWrite \<and> acc = cell_with_mut"
  shows "writer_has_map (writer (core_state x))"
    and "\<exists>h y. q = Inr y \<and> core_state y = core_state x
      \<and> acc (next_event x) (cur (writer_view x)) (cells x (writer_map (core_state x))) = Inr h
      \<and> cells y = (cells x)(writer_map (core_state x) := h)"
proof -
  from assms(2,3) have a: "writer_access acc x = Some q" by auto
  then show "writer_has_map (writer (core_state x))" by (auto simp: writer_access_def split: if_splits)
  have "q = Inl Abort \<or> (\<exists>y. q = Inr y)" using oexec_ok [OF oreachable_inv [OF assms(1)] assms(2)] by blast
  then show "\<exists>h y. q = Inr y \<and> core_state y = core_state x
      \<and> acc (next_event x) (cur (writer_view x)) (cells x (writer_map (core_state x))) = Inr h
      \<and> cells y = (cells x)(writer_map (core_state x) := h)"
    using a assms(3)
    by (auto simp: writer_access_def Let_def bind_res_eq_Inr cell_with_def cell_with_mut_def split: if_splits)
qed

lemma core_drop_allowed:
  assumes "oreachable A x" "core_drop_view x = Some q"
  shows "q = Inr ()" "writer (core_state x) = Closed" "keys (core_state x) = {}"
    and "\<exists>h. cell_with_mut (next_event x) (arc_view x) (cells x (other (writer_map (core_state x)))) = Inr h"
proof -
  from assms(2) have c: "writer (core_state x) = Closed" "refcounts (core_state x) = []"
    by (auto simp: core_drop_view_def split: if_splits)
  then show "writer (core_state x) = Closed" "keys (core_state x) = {}" by (simp_all add: keys_def)
  have ok: "core_drop_view x = Some (Inr ())" by (rule core_drop_ordered [OF oreachable_dinv [OF assms(1)] c])
  with assms(2) show "q = Inr ()" by simp
  from ok show "\<exists>h. cell_with_mut (next_event x) (arc_view x) (cells x (other (writer_map (core_state x)))) = Inr h"
    by (auto simp: core_drop_view_def bind_res_eq_Inr split: if_splits)
qed

section \<open>Refinement\<close>

lemma padded_deref_new [simp]: "padded_deref (padded_new c) = c"
  by (simp add: padded_new_def padded_deref_def)

lemma padded_write_back [simp]: "padded_deref (write_back (padded_deref_mut p) c) = c"
  by (simp add: padded_deref_def padded_deref_mut_def)

lemma shared_clone_same [simp]: "shared_clone s = s"
  by (cases s) (simp add: shared_clone_def)

lemma map_put_same [simp]: "map_put a i (map_get a i) = a"
  by (cases i) simp_all

abbreviation at :: "MapIndex \<Rightarrow> nat" where
  "at i \<equiv> unat (as_usize i)"

lemma at_bound: "at i < 2"
  by (cases i) simp_all

lemma at_inject: "at i = at j \<longleftrightarrow> i = j"
  by (cases i; cases j) simp_all

definition abs_array :: "('c \<Rightarrow> 'm) \<Rightarrow> 'c padded list \<Rightarrow> 'm MapArray" where
  "abs_array content arr =
     \<lparr>first_map = content (padded_deref (arr ! at First)), second_map = content (padded_deref (arr ! at Second))\<rparr>"

lemma abs_array_get: "map_get (abs_array content arr) i = content (padded_deref (arr ! at i))"
  by (cases i) (simp_all add: abs_array_def)

lemma abs_array_put:
  "length arr = 2 \<Longrightarrow> abs_array content (arr[at i := p]) = map_put (abs_array content arr) i (content (padded_deref p))"
  by (cases i) (simp_all add: abs_array_def)

text \<open>The array at an address holds the maps \<open>a\<close>, in cells whose records of accesses are \<open>H\<close>.\<close>

definition array_rel :: "('c \<Rightarrow> 'm) \<Rightarrow> ('c \<Rightarrow> cell \<Rightarrow> bool) \<Rightarrow> 'c box_heap \<Rightarrow> nat \<Rightarrow> 'm MapArray \<Rightarrow> (MapIndex \<Rightarrow> cell) \<Rightarrow> bool" where
  "array_rel content agrees b ptr a H \<longleftrightarrow>
     (\<exists>arr. arrays b ptr = Some arr \<and> length arr = 2 \<and> abs_array content arr = a
        \<and> (\<forall>i. agrees (padded_deref (arr ! at i)) (H i)))"

lemma shared_get_rel: "array_rel content agrees b (map_ptr s) a H \<Longrightarrow> shared_get s i b = Inr (map_ptr s, at i)"
  using at_bound [of i] by (auto simp: array_rel_def shared_get_def)

lemma on_cell_rel:
  assumes "array_rel content agrees b ptr a H"
    and "\<And>c. agrees c (H i) \<Longrightarrow> content c = map_get a i \<Longrightarrow> \<exists>c'. acc c = Inr (x, c') \<and> content c' = v \<and> agrees c' h"
  shows "\<exists>b'. on_cell acc (ptr, at i) b = Inr (x, b') \<and> array_rel content agrees b' ptr (map_put a i v) (H(i := h))"
proof -
  from assms(1) obtain arr where arr: "arrays b ptr = Some arr" "length arr = 2" "abs_array content arr = a"
    "\<And>i. agrees (padded_deref (arr ! at i)) (H i)" by (auto simp: array_rel_def)
  from assms(2) [OF arr(4)] obtain c where c: "acc (padded_deref (arr ! at i)) = Inr (x, c)" "content c = v" "agrees c h"
    by (auto simp: abs_array_get simp flip: arr(3))
  let ?arr = "arr[at i := write_back (padded_deref_mut (arr ! at i)) c]"
  have "agrees (padded_deref (?arr ! at j)) ((H(i := h)) j)" for j
    using arr(2,4) c(3) at_bound [of j] at_inject [of i j] by (cases "i = j") (simp_all add: nth_list_update)
  moreover have "abs_array content ?arr = map_put a i v" by (simp add: abs_array_put [OF arr(2)] c(2) arr(3))
  ultimately show ?thesis
    using arr(1,2) c(1) at_bound [of i] by (auto simp: on_cell_def array_rel_def)
qed

definition mem_rel :: "('c \<Rightarrow> 'm) \<Rightarrow> ('c \<Rightarrow> cell \<Rightarrow> bool) \<Rightarrow> 'c mem_state \<Rightarrow> 'm plain_state \<Rightarrow> bool" where
  "mem_rel content agrees st p \<longleftrightarrow>
     plain_order p = order st \<and> plain_freed p = freed st \<and> oreachable (\<lambda>_. True) (order st)
     \<and> (\<forall>k\<in>keys (core_state (order st)). accesses st k = Some (access (owner st)))
     \<and> length (guard_refs st) = length (guards (core_state (order st)))
     \<and> (\<forall>i<length (guards (core_state (order st))). phase (guards (core_state (order st)) ! i) = Live \<longrightarrow>
          guard_refs st ! i = (map_ptr (access (owner st)), at (map_index (guards (core_state (order st)) ! i))))
     \<and> (if freed st then keys (core_state (order st)) = {} \<and> writer (core_state (order st)) = Closed
        else array_rel content agrees (boxes st) (map_ptr (access (owner st))) (plain_maps p) (cells (order st)))"

definition step_rel :: "('c \<Rightarrow> 'm) \<Rightarrow> ('c \<Rightarrow> cell \<Rightarrow> bool) \<Rightarrow> ('r option \<times> 'c mem_state) step
    \<Rightarrow> ('r option \<times> 'm plain_state) step \<Rightarrow> bool" where
  "step_rel content agrees r q \<longleftrightarrow>
     r = None \<and> q = None \<or> r = Some (Inl Abort) \<and> q = Some (Inl Abort)
     \<or> (\<exists>x st p. r = Some (Inr (x, st)) \<and> q = Some (Inr (x, p)) \<and> mem_rel content agrees st p)"

lemma mem_relD:
  assumes "mem_rel content agrees st p"
  shows "plain_order p = order st" "plain_freed p = freed st" "oreachable (\<lambda>_. True) (order st)"
  using assms unfolding mem_rel_def by blast+

text \<open>Who can still access a map has kept the core alive.\<close>

lemma not_freed:
  assumes "mem_rel content agrees st p"
  shows "in_phase i Live (core_state (order st)) \<Longrightarrow> \<not> freed st"
    and "writer_has_map (writer (core_state (order st))) \<Longrightarrow> \<not> freed st"
    and "k \<in> keys (core_state (order st)) \<Longrightarrow> \<not> freed st"
proof -
  have "pinv (core_state (order st))" by (rule oinvD(1) [OF oreachable_inv [OF mem_relD(3) [OF assms]]])
  from guard_handle [OF this, of i] show "in_phase i Live (core_state (order st)) \<Longrightarrow> \<not> freed st"
    using assms by (auto simp: mem_rel_def in_phase_def)
qed (use assms in \<open>auto simp: mem_rel_def writer_has_map_def\<close>)

section \<open>The steps\<close>

lemma order_outcome:
  assumes "mem_rel content agrees st p" "oexec a (order st) = Some q"
  shows "q = Inl Abort \<or> (\<exists>y. q = Inr y \<and> oreachable (\<lambda>_. True) y)"
  using oexec_ok [OF oreachable_inv [OF mem_relD(3) [OF assms(1)]] assms(2)] assms
    oreachable.step [OF mem_relD(3) [OF assms(1)] TrueI] by blast

text \<open>An action of the protocol keeps what is not its own.\<close>

lemma core_frame:
  assumes rel: "mem_rel content agrees st p" and st: "exec a (core_state (order st)) = Some (Inr t)"
    and y: "y = (step_view a t (order st))\<lparr>core_state := t\<rparr>"
  shows "if freed st then keys t = {} \<and> writer t = Closed
      else array_rel content agrees (boxes st) (map_ptr (access (owner st))) (plain_maps p) (cells y)"
    and "\<And>i. i < length (guards (core_state (order st))) \<Longrightarrow> phase (guards t ! i) = Live \<Longrightarrow>
      guard_refs st ! i = (map_ptr (access (owner st)), at (map_index (guards t ! i)))"
    and "\<And>k. k \<in> keys (core_state (order st)) \<Longrightarrow> accesses st k = Some (access (owner st))"
proof -
  have p: "pinv (core_state (order st))" by (rule oinvD(1) [OF oreachable_inv [OF mem_relD(3) [OF rel]]])
  show "if freed st then keys t = {} \<and> writer t = Closed
      else array_rel content agrees (boxes st) (map_ptr (access (owner st))) (plain_maps p) (cells y)"
    using rel keys_exec(2) [OF p st] closed_stays [OF st] y by (simp add: mem_rel_def)
  show "guard_refs st ! i = (map_ptr (access (owner st)), at (map_index (guards t ! i)))"
    if "i < length (guards (core_state (order st)))" "phase (guards t ! i) = Live" for i
    using rel live_position [OF p st that(1)] that by (simp add: mem_rel_def)
  show "accesses st k = Some (access (owner st))" if "k \<in> keys (core_state (order st))" for k
    using rel that by (simp add: mem_rel_def)
qed

lemma new_guard_rel:
  assumes rel: "mem_rel content agrees st p" and st: "exec (NewGuard k) (core_state (order st)) = Some (Inr t)"
    and y: "y = (step_view (NewGuard k) t (order st))\<lparr>core_state := t\<rparr>" "oreachable (\<lambda>_. True) y"
  shows "\<exists>st'. handle_effect (NewGuard k) (st\<lparr>order := y\<rparr>) = Inr (None, st') \<and> mem_rel content agrees st' (p\<lparr>plain_order := y\<rparr>)"
proof -
  note frame = core_frame [OF rel st y(1)]
  have p: "pinv (core_state (order st))" by (rule oinvD(1) [OF oreachable_inv [OF mem_relD(3) [OF rel]]])
  have k: "k \<in> keys (core_state (order st))"
    using st by (auto simp: read_guard_def keys_def split: option.splits dest: map_of_SomeD intro: rev_image_eqI)
  then have nf: "\<not> freed st" by (rule not_freed(3) [OF rel])
  have keys: "keys t \<subseteq> keys (core_state (order st))" using keys_exec(1) [OF p st] by simp
  obtain g where g: "guards t = guards (core_state (order st)) @ [g]"
    using read_guard_result [OF p, of k t] st by auto
  have len: "length (guard_refs st) = length (guards (core_state (order st)))" using rel by (simp add: mem_rel_def)
  have get: "shared_get (access (owner st)) (map_index g) (boxes st) = Inr (map_ptr (access (owner st)), at (map_index g))"
    using frame(1) nf by (simp add: shared_get_rel)
  have "mem_rel content agrees (st\<lparr>order := y, guard_refs := guard_refs st @ [(map_ptr (access (owner st)), at (map_index g))]\<rparr>)
      (p\<lparr>plain_order := y\<rparr>)"
    using frame nf keys y mem_relD(2) [OF rel] len g
    by (auto simp: mem_rel_def nth_append less_Suc_eq)
  with get frame(3) [OF k] g y(1) show ?thesis by (auto simp: handle_effect_def)
qed

lemma handle_effect_rel:
  assumes rel: "mem_rel content agrees st p" and st: "exec a (core_state (order st)) = Some (Inr t)"
    and y: "y = (step_view a t (order st))\<lparr>core_state := t\<rparr>" "oreachable (\<lambda>_. True) y"
  shows "\<exists>st'. handle_effect a (st\<lparr>order := y\<rparr>) = Inr (None, st') \<and> mem_rel content agrees st' (p\<lparr>plain_order := y\<rparr>)"
proof (cases "\<exists>k. a = NewGuard k")
  case True
  with new_guard_rel [OF rel] st y show ?thesis by blast
next
  case False
  note frame = core_frame [OF rel st y(1)]
  have p: "pinv (core_state (order st))" by (rule oinvD(1) [OF oreachable_inv [OF mem_relD(3) [OF rel]]])
  have len: "length (guard_refs st) = length (guards t)" "length (guards t) = length (guards (core_state (order st)))"
    using rel guards_exec [OF p st] False by (auto simp: mem_rel_def)
  have keep: "mem_rel content agrees (st\<lparr>order := y, accesses := A\<rparr>) (p\<lparr>plain_order := y\<rparr>)"
    if "\<And>k. k \<in> keys t \<Longrightarrow> A k = Some (access (owner st))" for A
    using frame(1,2) that y mem_relD(2) [OF rel] len by (auto simp: mem_rel_def)
  note keys = keys_exec(1) [OF p st]
  show ?thesis
  proof (cases a)
    case (CloneReader j k)
    with keys frame(3) have "mem_rel content agrees (st\<lparr>order := y, accesses := (accesses st)(k \<mapsto> access (owner st))\<rparr>)
        (p\<lparr>plain_order := y\<rparr>)" by (intro keep) auto
    with CloneReader show ?thesis by (simp add: handle_effect_def owned_share_def)
  next
    case (DropReader k)
    with keys frame(3) have "mem_rel content agrees (st\<lparr>order := y, accesses := (accesses st)(k := None)\<rparr>)
        (p\<lparr>plain_order := y\<rparr>)" by (intro keep) auto
    with DropReader show ?thesis by (simp add: handle_effect_def)
  qed (use keep [of "accesses st"] frame(3) keys False in \<open>auto simp: handle_effect_def\<close>)
qed

lemma order_step_rel:
  assumes rel: "mem_rel content agrees st p"
    and k: "\<And>y. oexec a (order st) = Some (Inr y) \<Longrightarrow> oreachable (\<lambda>_. True) y \<Longrightarrow>
      \<exists>st'. k (st\<lparr>order := y\<rparr>) = Inr (None, st') \<and> mem_rel content agrees st' (p\<lparr>plain_order := y\<rparr>)"
  shows "step_rel content agrees (order_step a k st) (plain_step (oexec a (plain_order p)) None (plain_maps p) p)"
proof (cases "oexec a (order st)")
  case None
  then show ?thesis using mem_relD(1) [OF rel] by (simp add: step_rel_def order_step_def plain_step_def)
next
  case (Some q)
  with order_outcome [OF rel Some] k mem_relD(1) [OF rel] show ?thesis
    by (auto simp: step_rel_def order_step_def plain_step_def)
qed

lemma stale_rel:
  assumes rel: "mem_rel content agrees st p" and a: "a = LoadStale \<or> a = ReloadStale"
    and y: "oexec a (order st) = Some (Inr y)" "oreachable (\<lambda>_. True) y"
  shows "mem_rel content agrees (st\<lparr>order := y\<rparr>) (p\<lparr>plain_order := y\<rparr>)"
proof -
  obtain w where "y = (order st)\<lparr>core_state := (core_state (order st))\<lparr>writer := w\<rparr>\<rparr>" "writer (core_state (order st)) \<noteq> Closed"
    using a y(1) by (auto simp: sync_load_stale_def sync_reload_stale_def Let_def split: writer_pc.splits if_splits)
  with rel y(2) show ?thesis by (auto simp: mem_rel_def keys_def)
qed

text \<open>An access that the record of its cell allows.\<close>

lemma access_step_rel:
  assumes rel: "mem_rel content agrees st p" and nf: "\<not> freed st"
    and y: "oexec a (order st) = Some (Inr y)" "core_state y = core_state (order st)" "cells y = (cells (order st))(i := h)"
    and r: "\<exists>b. r = Inr (x, b) \<and> array_rel content agrees b (map_ptr (access (owner st))) (map_put (plain_maps p) i v) ((cells (order st))(i := h))"
  shows "step_rel content agrees (access_step a r st) (plain_step (oexec a (plain_order p)) (Some x) (map_put (plain_maps p) i v) p)"
proof -
  have "oreachable (\<lambda>_. True) y" using order_outcome [OF rel y(1)] by auto
  with rel nf y r show ?thesis
    by (auto simp: step_rel_def access_step_def plain_step_def mem_relD(1) [OF rel]) (auto simp: mem_rel_def)
qed

lemma through_owner_rel:
  assumes "array_rel content agrees (boxes st) (map_ptr (access (owner st))) a H"
    and "\<And>c. agrees c (H i) \<Longrightarrow> content c = map_get a i \<Longrightarrow> \<exists>c'. acc c = Inr (x, c') \<and> content c' = v \<and> agrees c' h"
  shows "\<exists>b. through_owner i acc st = Inr (x, b)
    \<and> array_rel content agrees b (map_ptr (access (owner st))) (map_put a i v) (H(i := h))"
  using on_cell_rel [OF assms] by (simp add: through_owner_def owned_get_def shared_get_rel [OF assms(1)])

context cell_laws
begin

lemma read_step_rel:
  assumes rel: "mem_rel content agrees st p"
  shows "step_rel content agrees (mem_exec api (ReadWith i f) st) (plain_exec (ReadWith i f) p)"
proof (cases "oexec (ReaderRead i) (order st)")
  case None
  then show ?thesis using mem_relD(1) [OF rel] by (simp add: step_rel_def access_step_def plain_step_def)
next
  case (Some q)
  let ?m = "map_index (guards (core_state (order st)) ! i)"
  note live = reader_ordered(1) [OF mem_relD(3) [OF rel] Some]
  from reader_ordered(2) [OF mem_relD(3) [OF rel] Some] obtain h y where y: "q = Inr y"
    "core_state y = core_state (order st)" "cells y = (cells (order st))(?m := h)"
    and h: "cell_with (next_event (order st)) (cur (guard_views (order st) ! i)) (cells (order st) ?m) = Inr h" by blast
  have nf: "\<not> freed st" by (rule not_freed(1) [OF rel live])
  with rel live have ref: "guard_refs st ! i = (map_ptr (access (owner st)), at ?m)"
    and arr: "array_rel content agrees (boxes st) (map_ptr (access (owner st))) (plain_maps p) (cells (order st))"
    by (auto simp: mem_rel_def in_phase_def)
  let ?acc = "\<lambda>c. api_with api (next_event (order st)) (cur (guard_views (order st) ! i)) c f"
  have "\<exists>c'. ?acc c = Inr (f (map_get (plain_maps p) ?m), c')
      \<and> content c' = map_get (plain_maps p) ?m \<and> agrees c' h"
    if "agrees c (cells (order st) ?m)" "content c = map_get (plain_maps p) ?m" for c
    using with_law [OF that(1) h, of f] that(2) by simp
  from access_step_rel [OF rel nf Some [unfolded y(1)] y(2,3) on_cell_rel [OF arr, of ?m ?acc, folded ref, OF this]]
  show ?thesis by (simp add: mem_relD(1) [OF rel])
qed

lemma write_step_rel:
  assumes rel: "mem_rel content agrees st p"
  shows "step_rel content agrees (mem_exec api (WriterWith f) st) (plain_exec (WriterWith f) p)"
    and "step_rel content agrees (mem_exec api (WriterWithMut g) st) (plain_exec (WriterWithMut g) p)"
proof -
  let ?m = "writer_map (core_state (order st))"
  have step: "step_rel content agrees (access_step a (through_owner ?m acc st) st)
      (plain_step (oexec a (plain_order p)) (Some x) (map_put (plain_maps p) ?m v) p)"
    if a: "a = WriterRead \<and> chk = cell_with \<or> a = WriterWrite \<and> chk = cell_with_mut"
      and acc: "\<And>c h. agrees c (cells (order st) ?m) \<Longrightarrow> content c = map_get (plain_maps p) ?m \<Longrightarrow>
        chk (next_event (order st)) (cur (writer_view (order st))) (cells (order st) ?m) = Inr h \<Longrightarrow>
        \<exists>c'. acc c = Inr (x, c') \<and> content c' = v \<and> agrees c' h" for a chk acc x v
  proof (cases "oexec a (order st)")
    case None
    then show ?thesis using mem_relD(1) [OF rel] by (simp add: step_rel_def access_step_def plain_step_def)
  next
    case (Some q)
    note has = writer_ordered(1) [OF mem_relD(3) [OF rel] Some a]
    from writer_ordered(2) [OF mem_relD(3) [OF rel] Some a] obtain h y where y: "q = Inr y"
      "core_state y = core_state (order st)" "cells y = (cells (order st))(?m := h)"
      and h: "chk (next_event (order st)) (cur (writer_view (order st))) (cells (order st) ?m) = Inr h" by blast
    have nf: "\<not> freed st" by (rule not_freed(2) [OF rel has])
    with rel have arr: "array_rel content agrees (boxes st) (map_ptr (access (owner st))) (plain_maps p) (cells (order st))"
      by (simp add: mem_rel_def)
    show ?thesis
      by (rule access_step_rel [OF rel nf Some [unfolded y(1)] y(2,3) through_owner_rel [OF arr acc [OF _ _ h]]])
  qed
  let ?e = "next_event (order st)" and ?V = "cur (writer_view (order st))" and ?v = "map_get (plain_maps p) ?m"
  have "step_rel content agrees (access_step WriterRead (through_owner ?m (\<lambda>c. api_with api ?e ?V c f) st) st)
      (plain_step (oexec WriterRead (plain_order p)) (Some (f ?v)) (map_put (plain_maps p) ?m ?v) p)"
    by (rule step [of _ cell_with], simp, drule (1) with_law [where f = f], simp)
  then show "step_rel content agrees (mem_exec api (WriterWith f) st) (plain_exec (WriterWith f) p)"
    by (simp add: mem_relD(1) [OF rel])
  have "step_rel content agrees (access_step WriterWrite (through_owner ?m (\<lambda>c. api_with_mut api ?e ?V c g) st) st)
      (plain_step (oexec WriterWrite (plain_order p)) (Some (fst (g ?v))) (map_put (plain_maps p) ?m (snd (g ?v))) p)"
    by (rule step [of _ cell_with_mut], simp, drule (1) with_mut_law [where g = g], simp)
  then show "step_rel content agrees (mem_exec api (WriterWithMut g) st) (plain_exec (WriterWithMut g) p)"
    by (simp add: mem_relD(1) [OF rel] Let_def split_beta)
qed

lemma free_step_rel:
  assumes rel: "mem_rel content agrees st p"
  shows "step_rel content agrees (mem_exec api (FreeCore g) st) (plain_exec (FreeCore g) p)"
proof (cases "freed st \<or> core_drop_view (order st) = None")
  case True
  with mem_relD(1,2) [OF rel] show ?thesis by (auto simp: step_rel_def split_beta)
next
  case False
  then obtain q where q: "core_drop_view (order st) = Some q" by auto
  note drop = core_drop_allowed [OF mem_relD(3) [OF rel] q]
  let ?m = "other (writer_map (core_state (order st)))" and ?g = "g (map_get (plain_maps p) (other (writer_map (core_state (order st)))))"
  from drop(4) obtain h where h: "cell_with_mut (next_event (order st)) (arc_view (order st)) (cells (order st) ?m) = Inr h" ..
  from rel False have arr: "array_rel content agrees (boxes st) (map_ptr (access (owner st))) (plain_maps p) (cells (order st))"
    by (simp add: mem_rel_def)
  let ?acc = "\<lambda>c. api_with_mut api (next_event (order st)) (arc_view (order st)) c g"
  have "\<exists>c'. ?acc c = Inr (fst ?g, c') \<and> content c' = snd ?g \<and> agrees c' h"
    if "agrees c (cells (order st) ?m)" "content c = map_get (plain_maps p) ?m" for c
    using with_mut_law [OF that(1) h, of g] that(2) by simp
  from through_owner_rel [OF arr, of ?m ?acc, OF this] obtain b where b: "through_owner ?m ?acc st = Inr (fst ?g, b)"
    "\<exists>arr. arrays b (map_ptr (access (owner st))) = Some arr" by (auto simp: array_rel_def)
  have "mem_rel content agrees (st\<lparr>boxes := b', freed := True\<rparr>) (p\<lparr>plain_maps := a, plain_freed := True\<rparr>)" for b' a
    using rel drop(2,3) by (simp add: mem_rel_def)
  with b q drop(1) False show ?thesis
    by (auto simp: step_rel_def mem_relD(1,2) [OF rel] Let_def split_beta owned_drop_def)
qed

lemma mem_exec_rel:
  assumes rel: "mem_rel content agrees st p"
  shows "step_rel content agrees (mem_exec api a st) (plain_exec a p)"
proof (cases a)
  case (CoreAct b)
  have "step_rel content agrees (order_step (CoreStep b) (handle_effect b) st)
      (plain_step (oexec (CoreStep b) (plain_order p)) None (plain_maps p) p)"
    by (rule order_step_rel [OF rel]) (auto simp: bind_res_eq_Inr intro: handle_effect_rel [OF rel])
  with CoreAct show ?thesis by simp
next
  case StaleLoad
  have "step_rel content agrees (order_step LoadStale (\<lambda>st. Inr (None, st)) st)
      (plain_step (oexec LoadStale (plain_order p)) None (plain_maps p) p)"
    by (rule order_step_rel [OF rel]) (simp add: stale_rel [OF rel, of LoadStale])
  with StaleLoad show ?thesis by simp
next
  case StaleReload
  have "step_rel content agrees (order_step ReloadStale (\<lambda>st. Inr (None, st)) st)
      (plain_step (oexec ReloadStale (plain_order p)) None (plain_maps p) p)"
    by (rule order_step_rel [OF rel]) (simp add: stale_rel [OF rel, of ReloadStale])
  with StaleReload show ?thesis by simp
qed (use read_step_rel [OF rel] write_step_rel [OF rel] free_step_rel [OF rel] in simp_all)

lemma acts_rel:
  "mem_rel content agrees st p \<Longrightarrow> acts (mem_exec api) as st = acts plain_exec as p
     \<and> (acts plain_exec as p \<in> {None, Some (Inl Abort)} \<union> range (\<lambda>rs. Some (Inr rs)))"
proof (induction as arbitrary: st p)
  case (Cons a as)
  from mem_exec_rel [OF Cons.prems, of a] show ?case
    unfolding step_rel_def
  proof (elim disjE exE conjE)
    fix x st' p' assume *: "mem_exec api a st = Some (Inr (x, st'))" "plain_exec a p = Some (Inr (x, p'))" "mem_rel content agrees st' p'"
    from Cons.IH [OF *(3)] * show ?case by auto
  qed simp_all
qed simp

lemma mem_start_rel:
  assumes "build_map t key = Some (Inr s)"
  shows "\<exists>st. mem_start api m1 m2 key s = Inr st \<and> mem_rel content agrees st (plain_start m1 m2 s)"
proof -
  have "oreachable (\<lambda>_. True) (build_order s)" using assms by (rule oreachable.init)
  moreover have "keys s = {key}" "guards s = []" "writer s \<noteq> Closed"
    using assms by (auto simp: build_map_def build_core_def new_reader_def keys_def Let_def split: if_splits)
  moreover have "agrees (padded_deref ([padded_new (api_new api m1), padded_new (api_new api m2)] ! at i)) cell_new" for i
    by (cases i) (simp_all add: new_law)
  ultimately show ?thesis
    by (auto simp: mem_start_def store_new_def box_new_def empty_boxes_def owned_new_def nonnull_new_def shared_new_def
        mem_rel_def plain_start_def build_order_def array_rel_def abs_array_def owned_share_def new_law)
qed

lemma mem_results_plain:
  assumes "build_map t key = Some (Inr s)"
  shows "mem_results api m1 m2 key s as = acts plain_exec as (plain_start m1 m2 s)"
    and "acts plain_exec as (plain_start m1 m2 s) \<in> {None, Some (Inl Abort)} \<union> range (\<lambda>rs. Some (Inr rs))"
proof -
  obtain st where st: "mem_start api m1 m2 key s = Inr st" "mem_rel content agrees st (plain_start m1 m2 s)"
    using mem_start_rel [OF assms] by blast
  from acts_rel [OF st(2), of as] st(1)
  show "mem_results api m1 m2 key s as = acts plain_exec as (plain_start m1 m2 s)"
    and "acts plain_exec as (plain_start m1 m2 s) \<in> {None, Some (Inl Abort)} \<union> range (\<lambda>rs. Some (Inr rs))"
    by (simp_all add: mem_results_def)
qed

end

section \<open>Property\<close>

text \<open>
  C18: the unsafe accesses to the heap array of the two maps are sound. In every interleaving of the handles, the guards and the writer, through the
  padding and the cells of either variant of \<open>util::loom\<close>, the pointers that the owner gave to the read handles, and the references they gave to the guards,
  point to the array as long as anybody uses them: no access is a use after free, an index out of bounds or a data
  race, the array is freed once, and the cells of the model checker, which panic on an access that is not ordered after the conflicting ones, never do.
  Every closure sees and changes the map it should: the results are those of the plain array of \<open>Store\<close>. Nothing goes wrong but the deliberate abort.
\<close>

theorem map_accesses_refine:
  assumes "loom_laws L content history" "build_map t key = Some (Inr s)"
  shows "mem_results std_cells m1 m2 key s as = acts plain_exec as (plain_start m1 m2 s)
     \<and> mem_results (loom_cells L) m1 m2 key s as = acts plain_exec as (plain_start m1 m2 s)
     \<and> (\<forall>e. acts plain_exec as (plain_start m1 m2 s) = Some (Inl e) \<longrightarrow> e = Abort)"
  using std.mem_results_plain [OF assms(2), where ?m1.0 = m1 and ?m2.0 = m2 and as = as]
    cell_laws.mem_results_plain [OF loom_laws.wrapped_laws [OF assms(1)] assms(2), where ?m1.0 = m1 and ?m2.0 = m2 and as = as]
  by auto

text \<open>
  A guard reads the first map while the writer changes the second and publishes it; a second handle then reads that one, and
  at the end the core drains the map and frees the array.
\<close>

definition freeing_run :: "(nat, nat) mem_action list" where
  "freeing_run = [CoreAct (CloneReader 0 1), CoreAct (NewGuard 0)] @ map CoreAct [WriterCall ByGuard, WriterStep, WriterStep]
     @ [WriterWithMut (\<lambda>m. (m, m + 5)), ReadWith 0 (\<lambda>m. m)] @ map CoreAct [DropWriteGuard, WriterStep, WriterIter [0, 1]]
     @ map CoreAct (replicate 5 WriterStep) @ [CoreAct (NewGuard 1), ReadWith 1 (\<lambda>m. m), ReadWith 0 (\<lambda>m. m)]
     @ map CoreAct [DropGuard 0, DropGuard 1, ReleaseResidual 0, DropReader 0, WriterCall ByDrop, WriterStep, WriterStep, DropReader 1]
     @ [FreeCore (\<lambda>m. (m, 0))]"

theorem map_accesses_refine_witness:
  "map_option (map_sum id (filter (\<lambda>r. r \<noteq> None))) (mem_results (loom_cells tracked_cells) 10 20 0 example_start freeing_run)
     = Some (Inr [Some 20, Some 10, Some 25, Some 10, Some 25])
   \<and> mem_results std_cells 10 20 0 example_start freeing_run = mem_results (loom_cells tracked_cells) 10 20 0 example_start freeing_run"
proof -
  have "map_option (map_sum id (filter (\<lambda>r. r \<noteq> None))) (acts plain_exec freeing_run (plain_start 10 20 example_start))
      = Some (Inr [Some 20, Some 10, Some 25, Some 10, Some 25])" by code_simp
  with map_accesses_refine [OF tracked.loom_laws_axioms example_built, of 10 20 freeing_run] show ?thesis by simp
qed

end
