(* ===== verification/UserPanics.thy ===== *)
theory UserPanics
  imports SystemProps
begin

text \<open>
  Panics of user code inside the calls on a write guard (\<open>src/write.rs\<close>): \<open>Hash\<close> or \<open>Eq\<close> of the given key during the lookup of \<open>insert\<close>, \<open>replace\<close>
  and \<open>remove\<close>, or the closure given to \<open>replace\<close>. Each panics before the table and the log are changed. The user may catch the panic and
  go on with the guard, or the unwinding drops the guard, which publishes: both are further
  steps of \<open>System\<close>. An implementation of \<open>TrustedHashEq\<close> is deterministic, so the later hashes of the same key (by the vacant entry, when a
  table grows, when the log is re-applied) do not panic when that of the lookup did not.
\<close>

section \<open>Calls that panic\<close>

text \<open>
  \<open>insert\<close> has moved the value into an \<open>Alias\<close>, which the unwinding does not drop: the value is lost. The given key
  is a plain value, which is dropped.
\<close>

definition insert_unwinds :: "('m, 'k, 'v, 's) hashbrown \<Rightarrow> MapIndex \<Rightarrow> 'v \<Rightarrow> ('m, 'k, 'v) WriteHandle
    \<Rightarrow> ('v Alias \<times> ('m, 'k, 'v) WriteHandle) res" where
  "insert_unwinds H i val w =
     (let (va, vh) = alias_new val (vheap w) in
      if \<not> keys_readable H (kheap w) (map_get (maps w) i) then Inl (UB UseAfterFree)
      else Inr (va, w\<lparr>vheap := vh\<rparr>))"

text \<open>\<open>replace\<close> panics in the lookup, or in the closure, which has been given the present value of the key.\<close>

definition replace_unwinds :: "('m, 'k, 'v, 's) hashbrown \<Rightarrow> MapIndex \<Rightarrow> 'k \<Rightarrow> ('m, 'k, 'v) WriteHandle
    \<Rightarrow> ('m, 'k, 'v) WriteHandle res" where
  "replace_unwinds H i key w =
     (let m = map_get (maps w) i in
      if \<not> keys_readable H (kheap w) m then Inl (UB UseAfterFree)
      else case hb_get H m key of
        Some old \<Rightarrow> bind_res (alias_deref old (vheap w)) (\<lambda>v. Inr w)
      | None \<Rightarrow> Inr w)"

definition remove_unwinds :: "('m, 'k, 'v, 's) hashbrown \<Rightarrow> MapIndex \<Rightarrow> ('m, 'k, 'v) WriteHandle
    \<Rightarrow> ('m, 'k, 'v) WriteHandle res" where
  "remove_unwinds H i w =
     (if \<not> keys_readable H (kheap w) (map_get (maps w) i) then Inl (UB UseAfterFree) else Inr w)"

section \<open>The map with such calls\<close>

record ('m, 'k, 'v) user_system =
  sys :: "('m, 'k, 'v) system"
  lost :: "'v Alias list"

datatype ('k, 'v) user_action =
    Returns "('k, 'v) sys_action"
  | InsertPanics 'v
  | ReplacePanics 'k
  | RemovePanics

definition unwinding_call :: "('m, 'k, 'v) user_system \<Rightarrow> ('v Alias list \<times> ('m, 'k, 'v) WriteHandle) res
    \<Rightarrow> ('m, 'k, 'v) user_system step" where
  "unwinding_call u r =
     (if writer (proto (sys u)) = Writing
      then Some (bind_res r (\<lambda>(l, w). Inr \<lparr>sys = (sys u)\<lparr>handle := w\<rparr>, lost = l @ lost u\<rparr>))
      else None)"

fun user_exec :: "('m, 'k, 'v, 's) hashbrown \<Rightarrow> ('k, 'v) user_action \<Rightarrow> ('m, 'k, 'v) user_system
    \<Rightarrow> ('m, 'k, 'v) user_system step" where
  "user_exec H (Returns a) u = lift_step (sys_exec H a (sys u)) (\<lambda>s. u\<lparr>sys := s\<rparr>)"
| "user_exec H (InsertPanics v) u = unwinding_call u
     (bind_res (insert_unwinds H (writer_map (proto (sys u))) v (handle (sys u))) (\<lambda>(a, w). Inr ([a], w)))"
| "user_exec H (ReplacePanics k) u = unwinding_call u
     (bind_res (replace_unwinds H (writer_map (proto (sys u))) k (handle (sys u))) (\<lambda>w. Inr ([], w)))"
| "user_exec H RemovePanics u = unwinding_call u
     (bind_res (remove_unwinds H (writer_map (proto (sys u))) (handle (sys u))) (\<lambda>w. Inr ([], w)))"

fun user_run :: "('m, 'k, 'v, 's) hashbrown \<Rightarrow> ('k, 'v) user_action list \<Rightarrow> ('m, 'k, 'v) user_system
    \<Rightarrow> ('m, 'k, 'v) user_system step" where
  "user_run H [] u = ok u"
| "user_run H (a # as) u =
     (case user_exec H a u of None \<Rightarrow> None | Some (Inl e) \<Rightarrow> Some (Inl e) | Some (Inr u') \<Rightarrow> user_run H as u')"

inductive user_reachable :: "('m, 'k, 'v, 's) hashbrown \<Rightarrow> ('s, 'g) Builder \<Rightarrow> 'g \<times> usize
    \<Rightarrow> ('m, 'k, 'v) user_system \<Rightarrow> bool" for H b env where
  init: "sys_build H b env t key = Some (Inr s) \<Longrightarrow> user_reachable H b env \<lparr>sys = s, lost = []\<rparr>"
| step: "user_reachable H b env u \<Longrightarrow> user_exec H a u = Some (Inr u') \<Longrightarrow> user_reachable H b env u'"

interpretation user_machine: machine "user_exec H" "user_run H" "user_reachable H b env" "\<lambda>_. True" for H b env
  by unfold_locales (auto intro: user_reachable.step split: option.splits sum.splits)

section \<open>Lost values as leaked ones\<close>

text \<open>
  A lost value is owned like a leaked one that nobody hands back. The state in which the lost values come before
  the leaked ones makes the same steps, with the positions of the leaked values shifted.
\<close>

definition with_lost :: "'v Leaked list \<Rightarrow> ('m, 'k, 'v) system \<Rightarrow> ('m, 'k, 'v) system" where
  "with_lost L s = s\<lparr>leaked := L @ leaked s\<rparr>"

fun shift :: "nat \<Rightarrow> ('k, 'v) sys_action \<Rightarrow> ('k, 'v) sys_action" where
  "shift n (DropLazily j) = DropLazily (n + j)"
| "shift n (Reclaim j) = Reclaim (n + j)"
| "shift n a = a"

lemma with_lost_sel [simp]:
  "proto (with_lost L s) = proto s" "handle (with_lost L s) = handle s" "evicted (with_lost L s) = evicted s"
  "leaked (with_lost L s) = L @ leaked s" "reclaimed (with_lost L s) = reclaimed s"
  "core_dropped (with_lost L s) = core_dropped s"
  by (simp_all add: with_lost_def)

lemma remove_nth_append: "remove_nth (length xs + j) (xs @ ys) = xs @ remove_nth j ys"
  by (simp add: remove_nth_def)

lemma with_lost_step:
  "sys_exec H (shift (length L) a) (with_lost L s) = lift_step (sys_exec H a s) (with_lost L)"
  by (cases a) (auto simp: sys_exec_def lift_step_def proto_step_def guard_call_def flush_step_def leak_step_def
      drop_lazily_step_def reclaim_step_def drop_core_step_def bind_res_def with_lost_def remove_nth_append nth_append
      split: option.splits sum.splits prod.splits action.splits)

definition as_leaked :: "('m, 'k, 'v) user_system \<Rightarrow> ('m, 'k, 'v) system" where
  "as_leaked u = with_lost (map (\<lambda>a. \<lparr>leaked_value = a, leaked_uid = uid (handle (sys u))\<rparr>) (lost u)) (sys u)"

lemma as_leaked_sel [simp]:
  "proto (as_leaked u) = proto (sys u)" "handle (as_leaked u) = handle (sys u)"
  "core_dropped (as_leaked u) = core_dropped (sys u)"
  by (simp_all add: as_leaked_def)

lemma held_as_leaked: "held (as_leaked u) = mset (map family (lost u)) + held (sys u)"
  by (simp add: as_leaked_def held_def comp_def)

lemma user_system_eta [simp]: "\<lparr>sys = sys u, lost = lost u\<rparr> = u"
  by (cases u) simp

definition user_inv :: "('m, 'k, 'v, 's) hashbrown \<Rightarrow> ('m, 'k, 'v) user_system \<Rightarrow> bool" where
  "user_inv H u \<longleftrightarrow> pinv (proto (sys u))
     \<and> (if core_dropped (sys u) then refcounts (proto (sys u)) = [] \<and> writer (proto (sys u)) = Closed
        else data_inv H (as_leaked u))"

definition user_step_ok :: "('m, 'k, 'v, 's) hashbrown \<Rightarrow> ('m, 'k, 'v) user_system step \<Rightarrow> bool" where
  "user_step_ok H r \<longleftrightarrow> r = None \<or> r = Some (Inl Abort) \<or> (\<exists>u'. r = Some (Inr u') \<and> user_inv H u')"

context hash_table
begin

text \<open>A new value that nobody gets is one more value that is held.\<close>

lemma handle_ok_new_value:
  assumes "handle_ok H i L w" "alias_new v (vheap w) = (a, vh)"
  shows "handle_ok H i (add_mset (family a) L) (w\<lparr>vheap := vh\<rparr>)" "alive_set (vheap w) \<subseteq> alive_set vh"
proof -
  from assms(1) have ok: "heap_ok (vheap w)" by (auto simp: handle_ok_def log_ok_def owned_def)
  note new = alias_newD [OF assms(2) ok]
  then show "alive_set (vheap w) \<subseteq> alive_set vh" by auto
  show "handle_ok H i (add_mset (family a) L) (w\<lparr>vheap := vh\<rparr>)"
    using assms(1) new finite_alive [OF ok] by (auto simp: handle_ok_def log_ok_def owned_def)
qed

lemma inv_lost_value:
  assumes inv: "data_inv H s" and new: "alias_new v (vheap (handle s)) = (a, vh)" and en: "writer (proto s) = Writing"
  shows "data_inv H (s\<lparr>handle := (handle s)\<lparr>vheap := vh\<rparr>,
    leaked := \<lparr>leaked_value = a, leaked_uid = uid (handle s)\<rparr> # leaked s\<rparr>)" (is "data_inv H ?s")
proof -
  from inv have ok: "handle_ok H (fresh_index (proto s)) (held s) (handle s)" by (simp add: data_inv_def)
  note h = handle_ok_new_value [OF ok new]
  have "tokens_ok H ?s" using inv by (auto simp: data_inv_def tokens_ok_def token_ok_def)
  moreover have "readers_ok H ?s"
    using inv values_alive_mono [OF _ h(2)] by (auto simp: data_inv_def readers_ok_def content_at_def)
  ultimately show ?thesis using h(1) en by (simp add: data_inv_def held_def)
qed

lemma writing_keys_readable:
  assumes "data_inv H s" "writer (proto s) = Writing"
  shows "readable H (kheap (handle s)) (vheap (handle s)) (map_get (maps (handle s)) (writer_map (proto s)))"
proof -
  from assms have ok: "handle_ok H (writer_map (proto s)) (held s) (handle s)"
    by (simp add: data_inv_def fresh_index_def)
  then show ?thesis using handle_ok_alive [OF ok] by (auto simp: readable_def handle_ok_def)
qed

lemma user_step_ok_returns:
  assumes "user_inv H u"
  shows "user_step_ok H (user_exec H (Returns a) u)"
proof (cases "sys_exec H a (sys u)")
  case None
  then show ?thesis by (simp add: user_step_ok_def lift_step_def)
next
  case (Some r)
  let ?L = "map (\<lambda>x. \<lparr>leaked_value = x, leaked_uid = uid (handle (sys u))\<rparr>) (lost u)"
  have nd: "\<not> core_dropped (sys u)" and act: "sys_action_step H a (sys u) = Some r"
    using Some by (auto simp: sys_exec_def split: if_splits)
  then have inv: "data_inv H (as_leaked u)" "pinv (proto (as_leaked u))" using assms by (simp_all add: user_inv_def)
  have st: "sys_action_step H (shift (length ?L) a) (as_leaked u) = Some (bind_res r (\<lambda>s. Inr (with_lost ?L s)))"
    using with_lost_step [of H ?L a "sys u"] Some nd by (simp add: as_leaked_def sys_exec_def lift_step_def)
  with sys_step_ok [OF inv, of "shift (length ?L) a"] consider "r = Inl Abort"
    | s' where "r = Inr s'" "pinv (proto s')" "core_dropped s' \<or> data_inv H (with_lost ?L s')"
    by (cases r) (auto simp: step_ok_def)
  then show ?thesis
  proof cases
    case 1
    then show ?thesis by (simp add: user_step_ok_def lift_step_def Some)
  next
    case (2 s')
    have "uid (handle s') = uid (handle (sys u))"
      using sys_step_uid [OF inv, of "shift (length ?L) a" "with_lost ?L s'"] st 2(1) by simp
    then have "as_leaked (u\<lparr>sys := s'\<rparr>) = with_lost ?L s'" by (simp add: as_leaked_def)
    moreover have "core_dropped s' \<longrightarrow> refcounts (proto s') = [] \<and> writer (proto s') = Closed"
      using sys_step_core [OF _ nd, of a s'] act 2(1) by simp
    ultimately have "user_inv H (u\<lparr>sys := s'\<rparr>)" using 2(2,3) by (auto simp: user_inv_def)
    then show ?thesis using 2(1) by (simp add: user_step_ok_def lift_step_def Some)
  qed
qed

text \<open>The calls that panic: no freed key or value is touched, and only \<open>insert\<close> leaves something behind.\<close>

lemma unwinding_results:
  assumes "data_inv H s" "writer (proto s) = Writing"
  shows "insert_unwinds H (writer_map (proto s)) v (handle s)
      = Inr (fst (alias_new v (vheap (handle s))), (handle s)\<lparr>vheap := snd (alias_new v (vheap (handle s)))\<rparr>)"
    and "replace_unwinds H (writer_map (proto s)) k (handle s) = Inr (handle s)"
    and "remove_unwinds H (writer_map (proto s)) (handle s) = Inr (handle s)"
proof -
  let ?m = "map_get (maps (handle s)) (writer_map (proto s))"
  have r: "readable H (kheap (handle s)) (vheap (handle s)) ?m" by (rule writing_keys_readable [OF assms])
  then have k: "keys_readable H (kheap (handle s)) ?m" by (simp add: readable_def keys_readable_iff)
  from k show "insert_unwinds H (writer_map (proto s)) v (handle s)
      = Inr (fst (alias_new v (vheap (handle s))), (handle s)\<lparr>vheap := snd (alias_new v (vheap (handle s)))\<rparr>)"
    and "remove_unwinds H (writer_map (proto s)) (handle s) = Inr (handle s)"
    by (simp_all add: insert_unwinds_def remove_unwinds_def split_beta)
  have "hb_get H ?m k = map_option snd (content_of H ?m k)" using r by (simp add: readable_def get_law)
  with r k show "replace_unwinds H (writer_map (proto s)) k (handle s) = Inr (handle s)"
    by (auto simp: replace_unwinds_def alias_deref_def readable_def dest: values_aliveD split: option.splits)
qed

lemma user_step_ok_unwinds:
  assumes inv: "user_inv H u" and nd: "\<not> core_dropped (sys u)" and a: "\<forall>x. a \<noteq> Returns x"
  shows "user_step_ok H (user_exec H a u)"
    and "user_exec H a u = Some (Inr u') \<Longrightarrow> proto (sys u') = proto (sys u) \<and> maps (handle (sys u')) = maps (handle (sys u))
      \<and> operations (handle (sys u')) = operations (handle (sys u)) \<and> evicted (sys u') = evicted (sys u)
      \<and> leaked (sys u') = leaked (sys u)"
proof -
  have d: "data_inv H (as_leaked u)" and p: "pinv (proto (sys u))" using inv nd by (simp_all add: user_inv_def)
  have "user_step_ok H (user_exec H a u) \<and> (\<forall>u'. user_exec H a u = Some (Inr u') \<longrightarrow>
      proto (sys u') = proto (sys u) \<and> maps (handle (sys u')) = maps (handle (sys u))
      \<and> operations (handle (sys u')) = operations (handle (sys u)) \<and> evicted (sys u') = evicted (sys u)
      \<and> leaked (sys u') = leaked (sys u))"
  proof (cases "writer (proto (sys u)) = Writing")
    case False
    with a show ?thesis by (cases a) (auto simp: unwinding_call_def user_step_ok_def)
  next
    case True
    note res = unwinding_results [OF d, simplified, OF True]
    from a show ?thesis
    proof (cases a)
      case (InsertPanics v)
      obtain va vh where new: "alias_new v (vheap (handle (sys u))) = (va, vh)" by fastforce
      let ?u = "\<lparr>sys = (sys u)\<lparr>handle := (handle (sys u))\<lparr>vheap := vh\<rparr>\<rparr>, lost = va # lost u\<rparr>"
      from inv_lost_value [OF d, simplified, OF new True] have "data_inv H (as_leaked ?u)"
        by (simp add: as_leaked_def with_lost_def)
      then have "user_inv H ?u" using p nd by (simp add: user_inv_def)
      then show ?thesis using True by (simp add: InsertPanics unwinding_call_def res new user_step_ok_def)
    next
      case (ReplacePanics k)
      then show ?thesis using True inv by (simp add: unwinding_call_def res user_step_ok_def)
    next
      case RemovePanics
      then show ?thesis using True inv by (simp add: unwinding_call_def res user_step_ok_def)
    qed simp
  qed
  then show "user_step_ok H (user_exec H a u)"
    and "user_exec H a u = Some (Inr u') \<Longrightarrow> proto (sys u') = proto (sys u) \<and> maps (handle (sys u')) = maps (handle (sys u))
      \<and> operations (handle (sys u')) = operations (handle (sys u)) \<and> evicted (sys u') = evicted (sys u)
      \<and> leaked (sys u') = leaked (sys u)"
    by simp_all
qed

lemma user_step:
  assumes "user_inv H u"
  shows "user_step_ok H (user_exec H a u)"
proof (cases "core_dropped (sys u) \<or> (\<exists>x. a = Returns x)")
  case True
  with assms show ?thesis
    using user_step_ok_returns [OF assms]
    by (cases a) (auto simp: user_inv_def user_step_ok_def unwinding_call_def)
next
  case False
  with user_step_ok_unwinds(1) [OF assms] show ?thesis by simp
qed

lemma user_reachable_inv: "user_reachable H b env u \<Longrightarrow> user_inv H u"
proof (induction rule: user_reachable.induct)
  case (init t key s)
  from sys_build_ok [OF this] show ?case by (simp add: user_inv_def as_leaked_def with_lost_def)
next
  case (step u a u')
  with user_step [of u a] show ?case by (auto simp: user_step_ok_def)
qed

end

section \<open>What a panic costs\<close>

lemma user_guard_reads:
  assumes "hash_table H" "user_inv H u" "in_phase i Live (proto (sys u))"
  shows "reads_as H (kheap (handle (sys u))) (vheap (handle (sys u)))
     (map_get (maps (handle (sys u))) (map_index (guards (proto (sys u)) ! i)))
     (view_of H (map_index (guards (proto (sys u)) ! i)) (handle (sys u)))"
proof -
  have "refcounts (proto (sys u)) \<noteq> []"
    using assms(2,3) by (auto simp: user_inv_def pinv_def handles_ok_def in_phase_def all_set_conv_all_nth)
  then have "data_inv H (as_leaked u)" using assms(2) by (auto simp: user_inv_def split: if_splits)
  from guard_map_readable [OF assms(1) this] assms(3)
  have "readable H (kheap (handle (sys u))) (vheap (handle (sys u)))
      (map_get (maps (handle (sys u))) (map_index (guards (proto (sys u)) ! i)))" by simp
  from hash_table.readable_reads_as [OF assms(1) this] show ?thesis by (simp add: view_of_def)
qed

lemma user_teardown:
  assumes "hash_table H" "user_inv H u" "user_exec H (Returns DropCore) u = Some (Inr u')"
  shows "alive_set (kheap (handle (sys u'))) = {}"
    and "mset_set (alive_set (vheap (handle (sys u')))) = mset (map family (lost u' @ map into_inner (leaked (sys u'))))"
proof -
  from assms(3) obtain s' where s': "sys_exec H DropCore (sys u) = Some (Inr s')" and u': "u' = u\<lparr>sys := s'\<rparr>"
    by (auto simp: lift_step_def bind_res_eq_Inr split: option.splits)
  then have nd: "\<not> core_dropped (sys u)" and st: "drop_core_step H (sys u) = Some (Inr s')"
    by (auto simp: sys_exec_def split: if_splits)
  then have en: "writer (proto (as_leaked u)) = Closed" "refcounts (proto (as_leaked u)) = []"
    by (auto simp: drop_core_step_def split: if_splits)
  have d: "data_inv H (as_leaked u)" using assms(2) nd by (simp add: user_inv_def)
  have "handle (sys u') = handle t" if "drop_core_step H (as_leaked u) = Some (Inr t)" for t
    using that st by (auto simp: drop_core_step_def u' bind_res_eq_Inr split: if_splits)
  moreover have l: "leaked (sys u') = leaked (sys u)" "lost u' = lost u"
    using st by (auto simp: drop_core_step_def u' bind_res_eq_Inr split: if_splits)
  ultimately show "alive_set (kheap (handle (sys u'))) = {}"
    and "mset_set (alive_set (vheap (handle (sys u')))) = mset (map family (lost u' @ map into_inner (leaked (sys u'))))"
    using hash_table.inv_drop_core_step [OF assms(1) d en]
    by (auto simp: held_as_leaked) (simp add: held_def into_inner_def comp_def)
qed

text \<open>
  C17: a panic of user code inside \<open>insert\<close>, \<open>replace\<close> or \<open>remove\<close> costs at most the value that was to be inserted. However such
  panics are mixed into the runs of the whole map: no step is undefined, and none ends in a panic
  of the crate's own; the call that panics leaves the protocol, both maps, the log and the values in
  the hands of the user as they are; every live read guard reads one consistent map without touching a freed key or value;
  and when the core is dropped all keys are gone, and the values still alive are those lost in a panicking \<open>insert\<close>
  and those leaked and not handed back, each once.
\<close>

theorem user_panics_only_leak:
  assumes "hash_table H" "user_reachable H b env u"
  shows "user_exec H a u \<noteq> Some (Inl (UB e)) \<and> user_exec H a u \<noteq> Some (Inl (Panic msg))
    \<and> ((\<forall>x. a \<noteq> Returns x) \<and> user_exec H a u = Some (Inr u') \<longrightarrow>
         proto (sys u') = proto (sys u) \<and> maps (handle (sys u')) = maps (handle (sys u))
         \<and> operations (handle (sys u')) = operations (handle (sys u)) \<and> evicted (sys u') = evicted (sys u)
         \<and> leaked (sys u') = leaked (sys u))
    \<and> (in_phase i Live (proto (sys u)) \<longrightarrow>
         reads_as H (kheap (handle (sys u))) (vheap (handle (sys u)))
           (map_get (maps (handle (sys u))) (map_index (guards (proto (sys u)) ! i)))
           (view_of H (map_index (guards (proto (sys u)) ! i)) (handle (sys u))))
    \<and> (user_exec H (Returns DropCore) u = Some (Inr u') \<longrightarrow>
         alive_set (kheap (handle (sys u'))) = {}
         \<and> mset_set (alive_set (vheap (handle (sys u')))) = mset (map family (lost u' @ map into_inner (leaked (sys u')))))"
proof -
  have inv: "user_inv H u" by (rule hash_table.user_reachable_inv [OF assms])
  from hash_table.user_step [OF assms(1) inv, of a]
  have "user_exec H a u \<noteq> Some (Inl (UB e)) \<and> user_exec H a u \<noteq> Some (Inl (Panic msg))"
    by (auto simp: user_step_ok_def)
  moreover have "\<not> core_dropped (sys u)" if "\<forall>x. a \<noteq> Returns x" "user_exec H a u = Some (Inr u')"
    using that inv by (cases a) (auto simp: user_inv_def unwinding_call_def split: if_splits)
  ultimately show ?thesis
    using hash_table.user_step_ok_unwinds(2) [OF assms(1) inv] user_guard_reads [OF assms(1) inv]
      user_teardown [OF assms(1) inv] by blast
qed

definition panicking_run :: "(nat, nat) user_action list" where
  "panicking_run = map Returns (begin_write 0 @ [Insert 1 10]) @ [InsertPanics 99, ReplacePanics 1, RemovePanics]
     @ map Returns (end_write @ [Proto (DropReader 0), Proto (WriterCall ByDrop), Proto WriterStep, FlushOne, Proto WriterStep])"

definition user_init :: "((nat, nat) entry list, nat, nat) user_system" where
  "user_init = \<lparr>sys = example_init, lost = []\<rparr>"

definition user_example :: "(nat, nat) user_action list \<Rightarrow> ((nat, nat) entry list, nat, nat) user_system" where
  "user_example as = (case user_run example_table as user_init of Some (Inr u) \<Rightarrow> u | _ \<Rightarrow> user_init)"

lemma user_example_reachable:
  assumes "sys_succeeds (user_run example_table as user_init)"
  shows "user_reachable example_table example_builder example_env (user_example as)"
    and "user_run example_table as user_init = Some (Inr (user_example as))"
proof -
  have "user_reachable example_table example_builder example_env user_init"
    unfolding user_init_def using example_build by (rule user_reachable.init)
  from user_machine.reach_run [OF this, of as] assms
  show "user_reachable example_table example_builder example_env (user_example as)"
    and "user_run example_table as user_init = Some (Inr (user_example as))"
    by (auto simp: user_example_def sys_succeeds_def list_all_iff split: option.splits sum.splits)
qed

text \<open>The value 99 of the \<open>insert\<close> that panicked is all that is left of this map.\<close>

theorem user_panics_only_leak_witness:
  "mset_set (alive_set (vheap (handle (sys (user_example (panicking_run @ [Returns DropCore]))))))
     = {#family (lost (user_example (panicking_run @ [Returns DropCore])) ! 0)#}"
proof -
  let ?u = "user_example panicking_run" and ?v = "user_example (panicking_run @ [Returns DropCore])"
  have ok: "sys_succeeds (user_run example_table panicking_run user_init)"
    "sys_succeeds (user_run example_table (panicking_run @ [Returns DropCore]) user_init)" by code_simp+
  have "user_exec example_table (Returns DropCore) ?u = Some (Inr ?v)"
    using user_example_reachable(2) [OF ok(1)] user_example_reachable(2) [OF ok(2)]
    by (simp only: user_machine.run_snoc) simp
  moreover have "length (lost ?v) = 1" "leaked (sys ?v) = []" by code_simp+
  then have "map family (lost ?v @ map into_inner (leaked (sys ?v))) = [family (lost ?v ! 0)]"
    by (cases "lost ?v") simp_all
  ultimately show ?thesis
    using user_panics_only_leak [OF example_hash_table user_example_reachable(1) [OF ok(1)], of _ _ _ ?v] by simp
qed

end
