(* ===== verification/Spec2Isabelle.thy ===== *)
theory Spec2Isabelle
  imports SystemTrace Borrowing Teardown OrderingNeeded BuildModes TrustedTypes MapAccess UserPanics
begin

text \<open>
  A verification development of \<^emph>\<open>flashmap\<close>, a concurrent hash map with one writer and lock-free
  readers. The paths below are relative to \<open>src/src\<close>.

  \<^bold>\<open>The program.\<close> A map keeps two hash tables. Read guards read one of them, the write guard changes the
  other and logs each change. Publishing exchanges the roles: \<open>Core::publish\<close> flips the map bit in the
  reference count of each read handle and adds up the guards that were live on the old side (the residual
  readers). Before the next write \<open>Core::synchronize\<close> waits until those are gone, and
  \<open>WriteHandle::flush_operations\<close> re-applies the log to the table that missed it, dropping what the log
  evicted. Keys and values are shared between the tables through \<open>Alias\<close>, so each must be dropped
  exactly once, and never while a reader can see it.

  \<^bold>\<open>Theories.\<close>
  \<^item> \<open>Prelude\<close>: machine words for \<open>usize\<close> and \<open>isize\<close> (64-bit target), faults (panic, abort, undefined
    behaviour) and the fallible computations, counting in lists, multisets of map values. The locale \<open>machine\<close> relates the
    runs of a step function to its reachable states; it is interpreted on the machines below.
    The branch hints of \<open>util/mod.rs\<close> are here too.
  \<^item> \<open>Store\<close> (\<open>core/store.rs\<close>): \<open>MapIndex\<close>, its transmute, the array of two maps.
  \<^item> \<open>RefCount\<close> (\<open>core/refcount.rs\<close>): the reference count word. The locale \<open>guard_counter\<close> states what the
    protocol needs of a counter; it is interpreted on the word operations.
  \<^item> \<open>Protocol\<close> (\<open>core/mod.rs\<close>, \<open>read.rs\<close>): the core and the protocol between the writer and the read
    guards as a state machine, one step per atomic access, mutex section or access of \<open>writer_thread\<close>.
    \<open>writer_pc\<close> and \<open>guard_phase\<close> are the program points, with the source lines beside them; \<open>exec\<close> is the step
    function and \<open>reachable\<close> the closure of \<open>build_map\<close> under all interleavings, spurious returns of \<open>park\<close> included.
  \<^item> \<open>ProtocolInv\<close>: the invariant \<open>pinv\<close> (what the counters say about the guards at each program point) and
    its preservation, one lemma per action. \<open>Waiting\<close>: the measure of a wait, progress, and the condition
    under which \<open>writer_thread\<close> is free of races. \<open>CoreProps\<close>: the properties of the protocol.
  \<^item> \<open>Ordering\<close> (the \<open>Ordering\<close> arguments and fences of \<open>core/mod.rs\<close> and \<open>core/refcount.rs\<close>, the cells of \<open>util/loom.rs\<close>, \<open>with_map\<close>):
    the steps of the protocol with views, the sets of map accesses that happen before a point of a thread or that
    an atomic or the mutex hands on. Each operation moves views as its ordering allows; an access of a map
    that nothing orders after a conflicting one is the fault \<open>DataRace\<close>. The two loads may return old
    values. \<open>OrderingInv\<close>: where the accesses of each map are recorded at each program point, and race freedom.
    \<open>ThreadCell\<close>: the same for the cell \<open>writer_thread\<close>, as long as \<open>park\<close> returns only for an \<open>unpark\<close> of this protocol.
    \<open>Teardown\<close>: the same for the cell \<open>writer_map\<close> and for the drop of the core by the last handle, which frees both maps and both cells.
    \<open>OrderingNeeded\<close>: for eleven orderings a run that races without it, and the one ordering that could be weaker.
  \<^item> \<open>BuildModes\<close> (\<open>core/mod.rs\<close>, \<open>lock\<close> of \<open>util/mod.rs\<close>): the steps of a debug and of a release build, which differ in assertions,
    overflow and the treatment of a poisoned mutex; both against the protocol, and what a panic in \<open>publish\<close> leaves behind.
  \<^item> \<open>Aliasing\<close> (\<open>util/aliasing.rs\<close>): alias families on a heap that records for each family whether its
    value is alive, dropped or moved out.
  \<^item> \<open>Hashmap\<close>: the hash table (\<open>hashbrown\<close>, a package outside the repository) as a record of operations, with the
    laws of its documentation in the locale \<open>hash_table\<close>; association lists show that the laws can hold. The
    promise of \<open>TrustedHashEq\<close> (\<open>util/deterministic.rs\<close>) is part of them: keys are compared by equality.
  \<^item> \<open>Oplog\<close> (\<open>write.rs\<close>, \<open>Core::drop\<close>): operations, log, write handle, the calls of a write guard, evicted and
    leaked values. \<open>OplogInv\<close>: replaying the log on contents, and the ownership invariant (every living key
    and value is owned once: by the fresh table, by the log, or by a leaked value). \<open>OplogOps\<close>: every
    operation keeps it and acts on the values as on a plain map.
  \<^item> \<open>Views\<close> (\<open>view.rs\<close>): the seven read operations. \<open>Builder\<close> (\<open>lib.rs\<close>): builder, constructors, identities of write handles.
  \<^item> \<open>System\<close>: protocol and data together; the log is re-applied one operation per step so that readers
    interleave with it. \<open>SystemInv\<close>: the invariant of the whole, with the locale \<open>guard_operation\<close> for the contract
    that \<open>insert\<close>, \<open>replace\<close> and \<open>remove\<close> share, each of them a sublocale instance. \<open>SystemRef\<close>: refinement of a
    specification with a current and a published map, and stability of snapshots. \<open>SystemLive\<close>: a call of \<open>guard\<close> can
    always be completed. \<open>SystemProps\<close>: the properties of the whole map. \<open>SystemTrace\<close>: whole runs against the
    specification, and the round trip of a value from the writer to a reader. \<open>Borrowing\<close>: lookups by a borrowed form of the
    key, with the contract of \<open>Borrow\<close> as a locale, on top of the contract of a table that stored keys lend forms to.
  \<^item> \<open>SendSync\<close> (the structs and \<open>unsafe impl\<close>s of all files, the assertions of \<open>lib.rs\<close>): which types may be sent or shared.
  \<^item> \<open>TrustedTypes\<close> (\<open>util/deterministic.rs\<close>): the macros that implement \<open>TrustedHashEq\<close>, their tables, and trait
    resolution over the generated impls. \<open>CachePadded\<close> (\<open>util/cache_padded.rs\<close>): alignment and layout.
  \<^item> \<open>Cells\<close> (\<open>util/loom.rs\<close>, \<open>util/cache_padded.rs\<close>): the wrapper \<open>CachePadded\<close> and both variants of \<open>UnsafeCell\<close> with \<open>MutPtr\<close>. The cell
    of the \<open>loom\<close> model checker is a package outside the repository: a record of its functions, each with the event and the view of the
    access, and their documented behaviour in the locale \<open>loom_laws\<close>: a cell records its accesses, and one that conflicts
    with an access not ordered before it panics. The locale \<open>cell_laws\<close> is the contract of a cell; it is interpreted on the
    cell over the standard library, and \<open>loom_laws\<close> is a sublocale of it; an instance keeps such a record. \<open>MapAccess\<close> (\<open>core/store.rs\<close>): the boxed array of
    padded cells behind the pointers of \<open>OwnedMapAccess\<close> and \<open>SharedMapAccess\<close>. On it the machine of \<open>Ordering\<close> runs with the pointers of each
    handle, the reference of each guard and the drop of the core; it refines the plain array of \<open>Store\<close> for any cells that
    keep the contract, because \<open>OrderingInv\<close> and \<open>Teardown\<close> order every access.
  \<^item> \<open>UserPanics\<close> (\<open>write.rs\<close>): the whole map with panics of user code inside the calls on a write guard.

  \<^bold>\<open>What the theorems show.\<close> In every interleaving: no undefined behaviour and no panic; reads through a live
  guard are safe, consistent and stable; new guards see the published map; the writer is alone on its
  table; a waiting writer is woken, by one reader, and its call can be completed and is not delayed by new
  readers; the process aborts exactly on an overflow of guard counts, in a release build; keys and values are dropped exactly once
  over the life of a map, leaked values excepted, which the user can read and take back; what was inserted and
  published is what readers get. A panic of user code in the lookup of a call on the write guard, or in the closure of
  \<open>replace\<close>, costs at most the value that was to be inserted. The orderings of the source suffice to keep the accesses of both maps
  free of data races, up to the drop of the core, and those of \<open>writer_thread\<close> as long as \<open>park\<close> returns only for
  an \<open>unpark\<close> of this protocol; all but one of them are needed. The raw pointers to the maps are valid whenever they are used, and a run under the \<open>loom\<close>
  checker does not panic. By its types the writer's side stays on one thread at a time; the macros for
  \<open>TrustedHashEq\<close> generate coherent impls, for the intended types only. Negative results:
  a spurious return of \<open>park\<close> leads to a data race on \<open>writer_thread\<close>; in a debug build an overflow of the residual count
  panics where it should abort, and the exclusion of readers and writer is lost; \<open>mem::forget\<close> of a write guard and a panic
  in the destructor of a value break memory safety; \<open>Leaked\<close> may be sent to another thread although its value is not
  \<open>Sync\<close>; identities of write handles repeat after an overflow.

  \<^bold>\<open>Bounds.\<close> No fuel is used: steps are total functions, runs are lists of actions, and the wait is bounded by
  \<open>wait_measure\<close>. Numbers are exact at 64 bits.

  \<^bold>\<open>Not modelled.\<close> Panics of user code while the log is re-applied or a table grows, other than that of a destructor: hashes are deterministic by the
  promise of \<open>TrustedHashEq\<close> and have been computed before, but an \<open>Eq\<close> that panics for some pairs of keys only is left out;
  \<open>mem::forget\<close> of read guards (they stay live); the formatting of \<open>Builder\<close>; the pointers from handles to reference counts (a
  handle names its reference count by its slab key); the inside of \<open>hashbrown\<close>, \<open>slab\<close> and \<open>loom\<close>. A use of a stored key by a
  lookup is charged as a use of all keys of the table, which is the worst a table can do. After a panic other than those above
  and the one in the loop of \<open>publish\<close> the model does not go on. The tests of the repository are not modelled.
\<close>

end
